(* ===== verification/Prelude.thy ===== *)
theory Prelude
  imports Complex_Main "HOL-Library.AList" "HOL-Library.Multiset"
begin

text \<open>
  Shared vocabulary of the development: the Python values that cross a trust boundary
  (\<open>pyval\<close>), dictionaries as insertion-ordered association lists, the collections of
  rewrite rules the component proofs draw on, and the generic list and multiset lemmas they
  share.  Nothing here models a function of the repository.
\<close>

section \<open>Collections of facts\<close>

named_theorems dict_simps
named_theorems acct_simps
named_theorems settle_simps

section \<open>Python values\<close>

text \<open>
  A finite float is represented by the rational number it denotes; \<open>nan\<close> and the two
  infinities are constructors of their own because the code tests for them.
\<close>

datatype pyfloat = Fin rat | NaN | PosInf | NegInf

text \<open>
  What a decoded payload can hold.  A dictionary keeps its insertion order, as Python's does,
  and its keys are strings; \<open>PObj\<close> stands for any other object (an aiogram model, say),
  by the name of its type.  A \<open>UUID\<close> is the 128-bit number it holds.
\<close>

datatype pyval =
    PNone
  | PBool bool
  | PInt int
  | PFloat pyfloat
  | PStr string
  | PBytes string
  | PUuid nat
  | PList "pyval list"
  | PDict "(string \<times> pyval) list"
  | PObj string

type_synonym pydict = "(string \<times> pyval) list"
type_synonym bytes = string

fun type_name :: "pyval \<Rightarrow> string" where
  "type_name PNone = ''NoneType''"
| "type_name (PBool _) = ''bool''"
| "type_name (PInt _) = ''int''"
| "type_name (PFloat _) = ''float''"
| "type_name (PStr _) = ''str''"
| "type_name (PBytes _) = ''bytes''"
| "type_name (PUuid _) = ''UUID''"
| "type_name (PList _) = ''list''"
| "type_name (PDict _) = ''dict''"
| "type_name (PObj n) = n"

text \<open>\<open>bool(v)\<close>; an object of another class has the default truth value, which is true.\<close>

fun truthy :: "pyval \<Rightarrow> bool" where
  "truthy PNone = False"
| "truthy (PBool b) = b"
| "truthy (PInt n) = (n \<noteq> 0)"
| "truthy (PFloat x) = (x \<noteq> Fin 0)"
| "truthy (PStr s) = (s \<noteq> [])"
| "truthy (PBytes s) = (s \<noteq> [])"
| "truthy (PList xs) = (xs \<noteq> [])"
| "truthy (PDict d) = (d \<noteq> [])"
| "truthy _ = True"

section \<open>Dictionaries\<close>

text \<open>
  \<open>d.get(k, v)\<close>, \<open>d[k] = v\<close> and \<open>d.pop(k, None)\<close> on association lists.
  \<open>AList.update\<close> replaces in place and appends a new key at the end, which is the order
  Python's dictionaries keep.
\<close>

definition dget :: "('k \<times> 'v) list \<Rightarrow> 'k \<Rightarrow> 'v \<Rightarrow> 'v" where
  "dget d k v = (case map_of d k of None \<Rightarrow> v | Some w \<Rightarrow> w)"

abbreviation dset :: "'k \<Rightarrow> 'v \<Rightarrow> ('k \<times> 'v) list \<Rightarrow> ('k \<times> 'v) list" where
  "dset \<equiv> AList.update"

abbreviation ddel :: "'k \<Rightarrow> ('k \<times> 'v) list \<Rightarrow> ('k \<times> 'v) list" where
  "ddel \<equiv> AList.delete"

definition dhas :: "('k \<times> 'v) list \<Rightarrow> 'k \<Rightarrow> bool" where
  "dhas d k = (k \<in> set (map fst d))"

lemma dhas_iff: "dhas d k \<longleftrightarrow> map_of d k \<noteq> None"
  by (simp add: dhas_def map_of_eq_None_iff)

lemma dget_set [dict_simps]: "dget (dset k v d) k' w = (if k' = k then v else dget d k' w)"
  by (simp add: dget_def update_conv')

lemma dget_del [dict_simps]: "dget (ddel k d) k' w = (if k' = k then w else dget d k' w)"
  by (simp add: dget_def delete_conv')

lemma dget_Nil [dict_simps]: "dget [] k w = w"
  by (simp add: dget_def)

lemma dget_Cons [dict_simps]: "dget ((k, v) # d) k' w = (if k' = k then v else dget d k' w)"
  by (simp add: dget_def)

lemma dhas_Nil [dict_simps]: "\<not> dhas [] k"
  by (simp add: dhas_def)

lemma dhas_Cons [dict_simps]: "dhas ((k, v) # d) k' \<longleftrightarrow> k' = k \<or> dhas d k'"
  by (simp add: dhas_def)

lemma dhas_set [dict_simps]: "dhas (dset k v d) k' \<longleftrightarrow> k' = k \<or> dhas d k'"
  by (simp add: dhas_iff update_conv')

lemma dhas_del [dict_simps]: "dhas (ddel k d) k' \<longleftrightarrow> k' \<noteq> k \<and> dhas d k'"
  by (simp add: dhas_iff delete_conv')

lemma dget_not_dhas: "\<not> dhas d k \<Longrightarrow> dget d k w = w"
  by (simp add: dhas_iff dget_def)

text \<open>\<open>dict.fromkeys(xs)\<close> keeps the first occurrence of each key, in order.\<close>

fun fromkeys :: "'a list \<Rightarrow> 'a list" where
  "fromkeys [] = []"
| "fromkeys (x # xs) = x # removeAll x (fromkeys xs)"

lemma set_fromkeys [simp]: "set (fromkeys xs) = set xs"
  by (induction xs) auto

lemma distinct_fromkeys [simp]: "distinct (fromkeys xs)"
  by (induction xs) (auto simp: distinct_removeAll)

lemma fromkeys_Nil_iff [simp]: "fromkeys xs = [] \<longleftrightarrow> xs = []"
  by (cases xs) auto

lemma fromkeys_distinct: "distinct xs \<Longrightarrow> fromkeys xs = xs"
  by (induction xs) auto

section \<open>Counting\<close>

text \<open>How many elements of a list satisfy a predicate, as an integer.\<close>

definition tally :: "('a \<Rightarrow> bool) \<Rightarrow> 'a list \<Rightarrow> int" where
  "tally P xs = int (length (filter P xs))"

lemma tally_simps [acct_simps]:
  "tally P [] = 0"
  "tally P (x # xs) = (if P x then 1 else 0) + tally P xs"
  "tally P (xs @ ys) = tally P xs + tally P ys"
  by (auto simp: tally_def)

lemma tally_nonneg [simp]: "0 \<le> tally P xs"
  by (simp add: tally_def)

lemma tally_eq_0: "tally P xs = 0 \<longleftrightarrow> (\<forall>x\<in>set xs. \<not> P x)"
  by (simp add: tally_def filter_empty_conv)

lemma tally_pos:
  assumes "x \<in> set xs" and "P x"
  shows "0 < tally P xs"
proof -
  from assms have "tally P xs \<noteq> 0" by (auto simp: tally_eq_0)
  with tally_nonneg [of P xs] show ?thesis by linarith
qed

lemma tally_mset: "tally P xs = int (size (filter_mset P (mset xs)))"
  by (simp add: tally_def flip: mset_filter)

text \<open>Taking an entry out of a dictionary takes exactly that entry out of its entries.\<close>

lemma mset_delete:
  assumes "distinct (map fst d)" and "map_of d k = Some v"
  shows "mset d = add_mset (k, v) (mset (ddel k d))"
  using assms
proof (induction d)
  case (Cons e d)
  obtain k' v' where e: "e = (k', v')" by (cases e)
  show ?case
  proof (cases "k' = k")
    case True
    with Cons.prems e have "k \<notin> fst ` set d" "v' = v" by auto
    then show ?thesis using e True by (simp add: delete_notin_dom)
  next
    case False
    with Cons e show ?thesis by simp
  qed
qed simp

lemma tally_delete:
  assumes "distinct (map fst d)" and "map_of d k = Some v"
  shows "tally P d = tally P (ddel k d) + (if P (k, v) then 1 else 0)"
  by (simp add: tally_mset mset_delete [OF assms])

lemma distinct_delete: "distinct (map fst d) \<Longrightarrow> distinct (map fst (ddel k d))"
  by (rule AList.distinct_delete)

section \<open>Text\<close>

text \<open>\<open>pat in s\<close> for strings.\<close>

definition contains :: "string \<Rightarrow> string \<Rightarrow> bool" where
  "contains pat s = list_ex (\<lambda>i. take (length pat) (drop i s) = pat) [0..<Suc (length s)]"

end
