(* ===== verification/KafkaSettling.thy ===== *)
theory KafkaSettling
  imports Prelude
begin

text \<open>
  How the Kafka transport settles messages, \<open>broker/kafka/broker.py\<close>: the books kept per
  \<open>(topic, partition)\<close> (offsets taken and unsettled, offsets settled out of order, rewinds),
  and the operations that move them: \<open>_wrap\<close>, \<open>ack\<close>, \<open>release\<close>, \<open>_lost\<close>,
  \<open>_settleable\<close>, \<open>inflight_depth\<close> and \<open>depth\<close>.  The driver is an argument: what
  \<open>commit\<close> and \<open>seek\<close> answer, and whether the consumer holds any assignment.  The calls
  it accepts are returned as a list of actions.
\<close>

section \<open>Books and handles\<close>

type_synonym spot = "string \<times> int"

record kafka =
  k_unsettled :: "(spot \<times> int set) list"
  k_settled :: "(spot \<times> int set) list"
  k_rewinds :: "(spot \<times> int list) list"
  k_rewound :: "(spot \<times> nat) list"

definition kafka_init :: kafka where
  "kafka_init = \<lparr> k_unsettled = [], k_settled = [], k_rewinds = [], k_rewound = [] \<rparr>"

abbreviation unsettled_at :: "kafka \<Rightarrow> spot \<Rightarrow> int set" where
  "unsettled_at k sp \<equiv> dget (k_unsettled k) sp {}"

abbreviation settled_at :: "kafka \<Rightarrow> spot \<Rightarrow> int set" where
  "settled_at k sp \<equiv> dget (k_settled k) sp {}"

abbreviation rewinds_at :: "kafka \<Rightarrow> spot \<Rightarrow> int list" where
  "rewinds_at k sp \<equiv> dget (k_rewinds k) sp []"

abbreviation rewound_at :: "kafka \<Rightarrow> spot \<Rightarrow> nat" where
  "rewound_at k sp \<equiv> dget (k_rewound k) sp 0"

text \<open>A handle is the tuple this broker hands out, or an object of another shape.\<close>

datatype khandle = Position string int int nat | ForeignHandle string

record ktaken =
  t_payload :: bytes
  t_handle :: khandle
  t_queue :: string

text \<open>
  A polled message: nothing, an event of the driver carried as an error, or a record with its
  place, whose value is absent for a tombstone.
\<close>

datatype polled =
    NoMessage
  | ErrorEvent string
  | Record string int int "bytes option"

datatype kaction = Commit spot int | Seek spot int

datatype kerror = HandleTypeError string | DriverError string

text \<open>What the driver answers: \<open>None\<close> for success, or the text of what it raised.\<close>

record kdriver =
  commit_answer :: "spot \<Rightarrow> int \<Rightarrow> string option"
  seek_answer :: "spot \<Rightarrow> int \<Rightarrow> string option"
  assigned :: bool

section \<open>Operations\<close>

fun position :: "khandle \<Rightarrow> kerror + (spot \<times> int \<times> nat)" where
  "position (Position topic part offset epoch) = Inr ((topic, part), offset, epoch)"
| "position (ForeignHandle name) = Inl (HandleTypeError name)"

definition epoch_at :: "kafka \<Rightarrow> spot \<Rightarrow> nat" where
  "epoch_at k sp = rewound_at k sp + length (rewinds_at k sp)"

fun wrap :: "polled \<Rightarrow> kafka \<Rightarrow> kafka \<times> ktaken option" where
  "wrap NoMessage k = (k, None)"
| "wrap (ErrorEvent e) k = (k, None)"
| "wrap (Record topic part offset None) k = (k, None)"
| "wrap (Record topic part offset (Some payload)) k =
     (let sp = (topic, part);
          k' = k\<lparr> k_unsettled := dset sp (insert offset (unsettled_at k sp)) (k_unsettled k) \<rparr>
      in (k', Some \<lparr> t_payload = payload,
                     t_handle = Position topic part offset (epoch_at k' sp),
                     t_queue = topic \<rparr>))"

definition settleable :: "kafka \<Rightarrow> spot \<Rightarrow> int \<Rightarrow> nat \<Rightarrow> bool" where
  "settleable k sp offset epoch =
     (let dropped = rewound_at k sp;
          since = drop (epoch - dropped) (rewinds_at k sp)
      in if epoch < dropped \<or> (\<exists>p\<in>set since. p \<le> offset) then False
         else offset \<in> unsettled_at k sp)"

definition forget_spot :: "spot \<Rightarrow> kafka \<Rightarrow> kafka" where
  "forget_spot sp k =
     \<lparr> k_unsettled = ddel sp (k_unsettled k), k_settled = ddel sp (k_settled k),
       k_rewinds = ddel sp (k_rewinds k), k_rewound = ddel sp (k_rewound k) \<rparr>"

definition lost :: "kdriver \<Rightarrow> string \<Rightarrow> spot \<Rightarrow> kafka \<Rightarrow> (bool \<times> kafka)" where
  "lost D err sp k =
     (if \<not> list_ex (\<lambda>name. contains name err) [''_UNKNOWN_PARTITION'', ''UNKNOWN_TOPIC_OR_PART'', ''_STATE'']
      then (False, k)
      else if \<not> assigned D then (False, k)
      else (True, forget_spot sp k))"

definition highest_settled :: "int set \<Rightarrow> int set \<Rightarrow> int option" where
  "highest_settled settled outstanding =
     (let candidates = (if outstanding = {} then settled else {v \<in> settled. v < Min outstanding})
      in if candidates = {} then None else Some (Max candidates))"

definition settle :: "spot \<Rightarrow> int \<Rightarrow> kafka \<Rightarrow> kafka" where
  "settle sp offset k =
     k\<lparr> k_unsettled :=
          (if dhas (k_unsettled k) sp
           then dset sp (unsettled_at k sp - {offset}) (k_unsettled k) else k_unsettled k),
        k_settled := dset sp (insert offset (settled_at k sp)) (k_settled k) \<rparr>"

definition ack :: "kdriver \<Rightarrow> khandle \<Rightarrow> kafka \<Rightarrow> (kerror + unit) \<times> kafka \<times> kaction list" where
  "ack D handle k =
     (case position handle of
        Inl e \<Rightarrow> (Inl e, k, [])
      | Inr (sp, offset, epoch) \<Rightarrow>
          if \<not> settleable k sp offset epoch then (Inr (), k, [])
          else
            (let k1 = settle sp offset k;
                 settled = settled_at k1 sp
             in case highest_settled settled (unsettled_at k1 sp) of
                  None \<Rightarrow> (Inr (), k1, [])
                | Some highest \<Rightarrow>
                    (let k2 = k1\<lparr> k_settled := dset sp {v \<in> settled. v > highest} (k_settled k1) \<rparr>
                     in case commit_answer D sp (highest + 1) of
                          None \<Rightarrow> (Inr (), k2, [Commit sp (highest + 1)])
                        | Some err \<Rightarrow>
                            (case lost D err sp k2 of
                               (True, k3) \<Rightarrow> (Inr (), k3, [])
                             | (False, k3) \<Rightarrow> (Inl (DriverError err), k3, [])))))"

definition rewind_books :: "spot \<Rightarrow> int \<Rightarrow> kafka \<Rightarrow> kafka" where
  "rewind_books sp offset k =
     (let below = (\<lambda>d. if dhas d sp then dset sp {v \<in> dget d sp {}. v < offset} d else d);
          k1 = k\<lparr> k_unsettled := below (k_unsettled k), k_settled := below (k_settled k),
                  k_rewinds := dset sp (rewinds_at k sp @ [offset]) (k_rewinds k) \<rparr>
      in if unsettled_at k1 sp = {} \<and> settled_at k1 sp = {}
         then k1\<lparr> k_rewound := dset sp (rewound_at k1 sp + length (rewinds_at k1 sp)) (k_rewound k1),
                  k_rewinds := dset sp [] (k_rewinds k1) \<rparr>
         else k1)"

definition release :: "kdriver \<Rightarrow> khandle \<Rightarrow> kafka \<Rightarrow> (kerror + unit) \<times> kafka \<times> kaction list" where
  "release D handle k =
     (case position handle of
        Inl e \<Rightarrow> (Inl e, k, [])
      | Inr (sp, offset, epoch) \<Rightarrow>
          if \<not> settleable k sp offset epoch then (Inr (), k, [])
          else case seek_answer D sp offset of
                 Some err \<Rightarrow>
                   (case lost D err sp k of
                      (True, k1) \<Rightarrow> (Inr (), k1, [])
                    | (False, k1) \<Rightarrow> (Inl (DriverError err), k1, []))
               | None \<Rightarrow> (Inr (), rewind_books sp offset k, [Seek sp offset]))"

definition kafka_inflight_depth :: "kafka \<Rightarrow> nat" where
  "kafka_inflight_depth k = sum_list (map (\<lambda>(sp, offsets). card offsets) (k_unsettled k))"

text \<open>
  \<open>depth\<close>, from what the metadata client answers for each partition: its low and high
  watermark and the committed offset, \<open>_NO_OFFSET\<close> where the group committed nothing.
\<close>

definition NO_OFFSET :: int where
  "NO_OFFSET = -1001"

fun partition_waiting :: "int \<times> int \<times> int \<Rightarrow> int" where
  "partition_waiting (low, high, committed) =
     max 0 (high - (if committed = NO_OFFSET then low else committed))"

definition kafka_depth :: "(int \<times> int \<times> int) list option \<Rightarrow> kafka \<Rightarrow> int" where
  "kafka_depth described k =
     (case described of
        None \<Rightarrow> 0
      | Some parts \<Rightarrow> max 0 (sum_list (map partition_waiting parts) - int (kafka_inflight_depth k)))"

section \<open>What each operation does to the books of one place\<close>

declare dict_simps [simp]

lemma settle_views [settle_simps]:
  "unsettled_at (settle sp v k) sp' = (if sp' = sp then unsettled_at k sp - {v} else unsettled_at k sp')"
  "settled_at (settle sp v k) sp' = (if sp' = sp then insert v (settled_at k sp) else settled_at k sp')"
  "k_rewinds (settle sp v k) = k_rewinds k"
  "k_rewound (settle sp v k) = k_rewound k"
  "dhas (k_unsettled (settle sp v k)) sp' = dhas (k_unsettled k) sp'"
  by (auto simp: settle_def dget_not_dhas)

lemma forget_views [settle_simps]:
  "unsettled_at (forget_spot sp k) sp' = (if sp' = sp then {} else unsettled_at k sp')"
  "settled_at (forget_spot sp k) sp' = (if sp' = sp then {} else settled_at k sp')"
  "rewinds_at (forget_spot sp k) sp' = (if sp' = sp then [] else rewinds_at k sp')"
  "rewound_at (forget_spot sp k) sp' = (if sp' = sp then 0 else rewound_at k sp')"
  "dhas (k_unsettled (forget_spot sp k)) sp' = (sp' \<noteq> sp \<and> dhas (k_unsettled k) sp')"
  by (auto simp: forget_spot_def)

lemma rewind_views [settle_simps]:
  "unsettled_at (rewind_books sp v k) sp' =
     (if sp' = sp then {u \<in> unsettled_at k sp. u < v} else unsettled_at k sp')"
  "settled_at (rewind_books sp v k) sp' =
     (if sp' = sp then {u \<in> settled_at k sp. u < v} else settled_at k sp')"
  "dhas (k_unsettled (rewind_books sp v k)) sp' = dhas (k_unsettled k) sp'"
  by (auto simp: rewind_books_def Let_def dget_not_dhas)

lemma rewind_history [settle_simps]:
  "rewinds_at (rewind_books sp v k) sp' =
     (if sp' \<noteq> sp then rewinds_at k sp'
      else if {u \<in> unsettled_at k sp. u < v} = {} \<and> {u \<in> settled_at k sp. u < v} = {} then []
      else rewinds_at k sp @ [v])"
  "rewound_at (rewind_books sp v k) sp' =
     (if sp' \<noteq> sp then rewound_at k sp'
      else if {u \<in> unsettled_at k sp. u < v} = {} \<and> {u \<in> settled_at k sp. u < v} = {}
        then rewound_at k sp + length (rewinds_at k sp) + 1
      else rewound_at k sp)"
  by (auto simp: rewind_books_def Let_def dget_not_dhas)

lemma settleable_held: "settleable k sp v e \<Longrightarrow> v \<in> unsettled_at k sp"
  by (auto simp: settleable_def Let_def split: if_splits)

lemma settleable_cong:
  "unsettled_at k' sp = unsettled_at k sp \<Longrightarrow> rewinds_at k' sp = rewinds_at k sp \<Longrightarrow>
   rewound_at k' sp = rewound_at k sp \<Longrightarrow> settleable k' sp v e = settleable k sp v e"
  by (simp add: settleable_def)

lemma highest_settled_SomeD:
  assumes "highest_settled S U = Some h" and "finite S" and "finite U"
  shows "h \<in> S" and "\<forall>u\<in>U. h < u"
proof -
  let ?C = "if U = {} then S else {v \<in> S. v < Min U}"
  have C: "?C \<noteq> {}" "h = Max ?C" using assms(1) by (auto simp: highest_settled_def Let_def split: if_splits)
  moreover have "finite ?C" using assms(2) by simp
  ultimately have h: "h \<in> ?C" by (simp add: Max_in)
  then show "h \<in> S" by (auto split: if_splits)
  show "\<forall>u\<in>U. h < u"
  proof
    fix u assume "u \<in> U"
    with h have "h < Min U" by (auto split: if_splits)
    also have "Min U \<le> u" using assms(3) \<open>u \<in> U\<close> by simp
    finally show "h < u" .
  qed
qed

text \<open>
  The three outcomes of an acknowledgement that settles something: the books after it differ
  from \<open>settle\<close> only in the settled offsets that were dropped, a commit is made for an
  offset all of whose outstanding predecessors are settled, or the place was lost.
\<close>

lemma ack_cases:
  assumes "ack D (Position topic part v e) k = (r, k', acts)"
    and "settleable k (topic, part) v e"
    and "finite (unsettled_at k (topic, part))" and "finite (settled_at k (topic, part))"
  obtains (waiting) "k' = settle (topic, part) v k" and "acts = []"
    | (dropped) T where "T \<subseteq> insert v (settled_at k (topic, part))"
        and "k' = (settle (topic, part) v k)
              \<lparr> k_settled := dset (topic, part) T (k_settled (settle (topic, part) v k)) \<rparr>"
        and "acts = []"
    | (committed) h T where "T \<subseteq> insert v (settled_at k (topic, part))"
        and "h \<in> insert v (settled_at k (topic, part))"
        and "\<forall>u\<in>unsettled_at k (topic, part) - {v}. h < u"
        and "k' = (settle (topic, part) v k)
              \<lparr> k_settled := dset (topic, part) T (k_settled (settle (topic, part) v k)) \<rparr>"
        and "acts = [Commit (topic, part) (h + 1)]"
    | (lost) k2 where "k' = forget_spot (topic, part) k2"
        and "\<forall>sp. sp \<noteq> (topic, part) \<longrightarrow> unsettled_at k2 sp = unsettled_at k sp \<and>
              settled_at k2 sp = settled_at k sp \<and> rewinds_at k2 sp = rewinds_at k sp \<and>
              rewound_at k2 sp = rewound_at k sp \<and>
              dhas (k_unsettled k2) sp = dhas (k_unsettled k) sp"
        and "acts = []"
proof -
  let ?sp = "(topic, part)" and ?k1 = "settle (topic, part) v k"
  let ?S = "insert v (settled_at k ?sp)" and ?U = "unsettled_at k ?sp - {v}"
  show thesis
  proof (cases "highest_settled ?S ?U")
    case None
    with assms(1,2) have "k' = ?k1" "acts = []" by (auto simp: ack_def settle_simps Let_def)
    then show thesis by (rule waiting)
  next
    case (Some h)
    let ?T = "{u \<in> ?S. u > h}"
    let ?k2 = "?k1\<lparr> k_settled := dset ?sp ?T (k_settled ?k1) \<rparr>"
    note h = highest_settled_SomeD [OF Some]
    have fin: "finite ?S" "finite ?U" using assms(3,4) by simp_all
    show thesis
    proof (cases "commit_answer D ?sp (h + 1)")
      case None
      with assms(1,2) Some have "k' = ?k2" "acts = [Commit ?sp (h + 1)]"
        by (auto simp: ack_def settle_simps Let_def)
      moreover have "?T \<subseteq> ?S" by blast
      ultimately show thesis using h [OF fin] by (intro committed [of ?T h]) auto
    next
      case (Some err)
      with assms(1,2) \<open>highest_settled ?S ?U = Some h\<close>
      have "(k' = ?k2 \<or> k' = forget_spot ?sp ?k2) \<and> acts = []"
        by (auto simp: ack_def settle_simps Let_def lost_def split: if_splits)
      then show thesis
      proof (elim conjE disjE)
        assume "k' = ?k2" "acts = []" then show thesis by (intro dropped [of ?T]) auto
      next
        assume "k' = forget_spot ?sp ?k2" "acts = []"
        then show thesis by (intro lost [of ?k2]) (auto simp: settle_simps)
      qed
    qed
  qed
qed

lemma ack_refused:
  "\<not> settleable k (topic, part) v e \<Longrightarrow> ack D (Position topic part v e) k = (Inr (), k, [])"
  by (simp add: ack_def)

section \<open>The broker against a partitioned log\<close>

text \<open>
  A world is the books together with what the group and the log keep: where the consumer reads
  next, what is committed, and (for stating the guarantee) the offsets whose send was
  acknowledged and the epoch of the last handle issued for each offset.  The log itself is an
  argument \<open>L\<close>: the offsets each place holds.  A delivery is the first offset at or after
  the reading position; a seek moves that position; a place whose books were dropped is resumed
  from its committed offset, and so is any place the group assigns anew.
\<close>

record kworld =
  w_books :: kafka
  w_pos :: "spot \<Rightarrow> int"
  w_committed :: "spot \<Rightarrow> int"
  w_acked :: "spot \<Rightarrow> int set"
  w_epoch :: "spot \<Rightarrow> int \<Rightarrow> nat"

definition kworld_init :: "(spot \<Rightarrow> int) \<Rightarrow> kworld" where
  "kworld_init start =
     \<lparr> w_books = kafka_init, w_pos = start, w_committed = start,
       w_acked = (\<lambda>_. {}), w_epoch = (\<lambda>_ _. 0) \<rparr>"

fun apply_commit :: "kaction \<Rightarrow> (spot \<Rightarrow> int) \<Rightarrow> (spot \<Rightarrow> int)" where
  "apply_commit (Commit sp n) c = c(sp := n)"
| "apply_commit (Seek sp n) c = c"

fun apply_seek :: "kaction \<Rightarrow> (spot \<Rightarrow> int) \<Rightarrow> (spot \<Rightarrow> int)" where
  "apply_seek (Seek sp n) p = p(sp := n)"
| "apply_seek (Commit sp n) p = p"

definition dropped_at :: "kafka \<Rightarrow> kafka \<Rightarrow> spot \<Rightarrow> bool" where
  "dropped_at k k' sp = (dhas (k_unsettled k) sp \<and> \<not> dhas (k_unsettled k') sp)"

definition resumed :: "kafka \<Rightarrow> kafka \<Rightarrow> kaction list \<Rightarrow> kworld \<Rightarrow> kworld" where
  "resumed k k' acts w =
     w\<lparr> w_books := k',
        w_committed := fold apply_commit acts (w_committed w),
        w_pos := (\<lambda>sp. if dropped_at k k' sp then w_committed w sp
                        else fold apply_seek acts (w_pos w) sp) \<rparr>"

definition next_offset :: "(spot \<Rightarrow> int set) \<Rightarrow> spot \<Rightarrow> int \<Rightarrow> int \<Rightarrow> bool" where
  "next_offset L sp pos v \<longleftrightarrow> v \<in> L sp \<and> pos \<le> v \<and> (\<forall>u\<in>L sp. pos \<le> u \<longrightarrow> v \<le> u)"

inductive kstep :: "(spot \<Rightarrow> int set) \<Rightarrow> kworld \<Rightarrow> kworld \<Rightarrow> bool" for L where
  deliver:
    "next_offset L (topic, part) (w_pos w (topic, part)) v \<Longrightarrow>
     wrap (Record topic part v (Some payload)) (w_books w) = (k', Some t) \<Longrightarrow>
     kstep L w (w\<lparr> w_books := k', w_pos := (w_pos w)((topic, part) := v + 1),
                   w_epoch := (w_epoch w)((topic, part) :=
                     (w_epoch w (topic, part))(v := epoch_at k' (topic, part))) \<rparr>)"
| acknowledge:
    "ack D (Position topic part v e) (w_books w) = (r, k', acts) \<Longrightarrow>
     kstep L w ((resumed (w_books w) k' acts w)
       \<lparr> w_acked := (if settleable (w_books w) (topic, part) v e
                     then (w_acked w)((topic, part) := insert v (w_acked w (topic, part)))
                     else w_acked w) \<rparr>)"
| give_up:
    "release D (Position topic part v e) (w_books w) = (r, k', acts) \<Longrightarrow>
     kstep L w (resumed (w_books w) k' acts w)"
| reassign:
    "kstep L w (w\<lparr> w_pos := (w_pos w)(sp := w_committed w sp) \<rparr>)"

inductive kreach :: "(spot \<Rightarrow> int set) \<Rightarrow> (spot \<Rightarrow> int) \<Rightarrow> kworld \<Rightarrow> bool" for L start where
  kreach_init: "kreach L start (kworld_init start)"
| kreach_step: "kreach L start w \<Longrightarrow> kstep L w w' \<Longrightarrow> kreach L start w'"

text \<open>Everything the log holds below \<open>v\<close> has been acknowledged or is still outstanding.\<close>

definition covered :: "(spot \<Rightarrow> int set) \<Rightarrow> (spot \<Rightarrow> int) \<Rightarrow> kworld \<Rightarrow> spot \<Rightarrow> int \<Rightarrow> bool" where
  "covered L start w sp v \<longleftrightarrow>
     (\<forall>u\<in>L sp. start sp \<le> u \<and> u < v \<longrightarrow> u \<in> w_acked w sp \<or> u \<in> unsettled_at (w_books w) sp)"

definition commit_honest :: "(spot \<Rightarrow> int set) \<Rightarrow> (spot \<Rightarrow> int) \<Rightarrow> kworld \<Rightarrow> spot \<Rightarrow> bool" where
  "commit_honest L start w sp \<longleftrightarrow>
     (\<forall>u\<in>L sp. start sp \<le> u \<and> u < w_committed w sp \<longrightarrow> u \<in> w_acked w sp)"

definition kinv :: "(spot \<Rightarrow> int set) \<Rightarrow> (spot \<Rightarrow> int) \<Rightarrow> kworld \<Rightarrow> spot \<Rightarrow> bool" where
  "kinv L start w sp \<longleftrightarrow>
     finite (unsettled_at (w_books w) sp) \<and> finite (settled_at (w_books w) sp) \<and>
     commit_honest L start w sp \<and> covered L start w sp (w_pos w sp) \<and>
     (\<forall>v\<in>unsettled_at (w_books w) sp. covered L start w sp v \<and>
        settleable (w_books w) sp v (w_epoch w sp v)) \<and>
     (\<forall>v\<in>settled_at (w_books w) sp. covered L start w sp v \<and> v \<in> w_acked w sp)"

lemma kinv_init: "kinv L start (kworld_init start) sp"
  by (auto simp: kinv_def kworld_init_def kafka_init_def commit_honest_def covered_def)

text \<open>A place none of whose views change keeps the invariant.\<close>

lemma kinv_frame:
  assumes "kinv L start w sp"
    and "unsettled_at (w_books w') sp = unsettled_at (w_books w) sp"
    and "settled_at (w_books w') sp = settled_at (w_books w) sp"
    and "rewinds_at (w_books w') sp = rewinds_at (w_books w) sp"
    and "rewound_at (w_books w') sp = rewound_at (w_books w) sp"
    and "w_pos w' sp = w_pos w sp" and "w_committed w' sp = w_committed w sp"
    and "w_acked w' sp = w_acked w sp" and "w_epoch w' sp = w_epoch w sp"
  shows "kinv L start w' sp"
  using assms settleable_cong [of "w_books w'" sp "w_books w"]
  by (simp add: kinv_def covered_def commit_honest_def)

lemma covered_mono:
  assumes "covered L start w sp v"
    and "w_acked w sp \<union> unsettled_at (w_books w) sp \<subseteq> w_acked w' sp \<union> unsettled_at (w_books w') sp"
  shows "covered L start w' sp v"
  using assms unfolding covered_def by blast

lemma covered_below:
  assumes "covered L start w sp v"
    and "w_acked w sp \<union> {u \<in> unsettled_at (w_books w) sp. u < v}
           \<subseteq> w_acked w' sp \<union> unsettled_at (w_books w') sp"
    and "x \<le> v"
  shows "covered L start w' sp x"
  using assms unfolding covered_def by fastforce

lemma commit_honest_covered: "commit_honest L start w sp \<Longrightarrow> covered L start w sp (w_committed w sp)"
  by (auto simp: commit_honest_def covered_def)

lemma kinv_deliver:
  assumes inv: "kinv L start w sp'"
    and nxt: "next_offset L (topic, part) (w_pos w (topic, part)) v"
    and wr: "wrap (Record topic part v (Some payload)) (w_books w) = (k', Some t)"
    and w': "w' = w\<lparr> w_books := k', w_pos := (w_pos w)((topic, part) := v + 1),
                   w_epoch := (w_epoch w)((topic, part) :=
                     (w_epoch w (topic, part))(v := epoch_at k' (topic, part))) \<rparr>"
  shows "kinv L start w' sp'"
proof (cases "sp' = (topic, part)")
  case False
  with wr w' show ?thesis by (intro kinv_frame [OF inv]) (auto simp: Let_def)
next
  case True
  let ?sp = "(topic, part)" and ?k = "w_books w"
  have U: "unsettled_at k' ?sp = insert v (unsettled_at ?k ?sp)"
    and R: "rewinds_at k' ?sp = rewinds_at ?k ?sp" "rewound_at k' ?sp = rewound_at ?k ?sp"
    and S: "settled_at k' ?sp = settled_at ?k ?sp"
    using wr by (auto simp: Let_def)
  note I = inv [unfolded True kinv_def]
  have mono: "covered L start w' ?sp x" if "covered L start w ?sp x" for x
    by (rule covered_mono [OF that]) (auto simp: w' U)
  have pos: "covered L start w' ?sp (v + 1)"
  proof -
    have "u \<in> w_acked w ?sp \<or> u \<in> insert v (unsettled_at ?k ?sp)"
      if "u \<in> L ?sp" "start ?sp \<le> u" "u < v + 1" for u
      using that I nxt unfolding covered_def next_offset_def by (cases "u < w_pos w ?sp") force+
    then show ?thesis by (simp add: covered_def w' U)
  qed
  have below: "covered L start w' ?sp v" using pos by (auto simp: covered_def)
  have new: "settleable k' ?sp v (epoch_at k' ?sp)"
    by (simp add: settleable_def epoch_at_def U)
  have old: "settleable k' ?sp u (w_epoch w ?sp u)" if "u \<in> unsettled_at ?k ?sp" for u
    using that I by (simp add: settleable_def R U Let_def split: if_splits)
  show ?thesis unfolding True kinv_def
    using I mono pos below new old by (auto simp: w' U S commit_honest_def)
qed

lemma kinv_settled:
  assumes inv: "kinv L start w sp" and held: "v \<in> unsettled_at (w_books w) sp"
    and books: "unsettled_at k' sp = unsettled_at (w_books w) sp - {v}"
      "settled_at k' sp \<subseteq> insert v (settled_at (w_books w) sp)"
      "rewinds_at k' sp = rewinds_at (w_books w) sp" "rewound_at k' sp = rewound_at (w_books w) sp"
    and w': "w_books w' = k'" "w_acked w' sp = insert v (w_acked w sp)"
      "w_epoch w' sp = w_epoch w sp" "w_pos w' sp = w_pos w sp"
    and committed: "w_committed w' sp = w_committed w sp \<or>
      (\<exists>h \<in> insert v (settled_at (w_books w) sp).
         (\<forall>u\<in>unsettled_at (w_books w) sp - {v}. h < u) \<and> w_committed w' sp = h + 1)"
  shows "kinv L start w' sp"
proof -
  note I = inv [unfolded kinv_def]
  have mono: "covered L start w' sp x" if "covered L start w sp x" for x
    by (rule covered_mono [OF that]) (auto simp: w' books(1))
  have honest: "commit_honest L start w' sp"
    using committed
  proof
    assume "w_committed w' sp = w_committed w sp"
    then show ?thesis using I by (auto simp: commit_honest_def w')
  next
    assume "\<exists>h \<in> insert v (settled_at (w_books w) sp).
      (\<forall>u\<in>unsettled_at (w_books w) sp - {v}. h < u) \<and> w_committed w' sp = h + 1"
    then obtain h where h: "h \<in> insert v (settled_at (w_books w) sp)"
        "\<forall>u\<in>unsettled_at (w_books w) sp - {v}. h < u" "w_committed w' sp = h + 1" by blast
    have "covered L start w sp h" and "h \<in> w_acked w' sp" using I h(1) held w'(2) by auto
    have "u \<in> w_acked w' sp" if "u \<in> L sp" "start sp \<le> u" "u < h + 1" for u
    proof (cases "u = h")
      case True
      then show ?thesis using \<open>h \<in> w_acked w' sp\<close> by simp
    next
      case False
      with that \<open>covered L start w sp h\<close> have "u \<in> w_acked w sp \<or> u \<in> unsettled_at (w_books w) sp"
        unfolding covered_def by force
      moreover have "u \<notin> unsettled_at (w_books w) sp - {v}"
      proof
        assume "u \<in> unsettled_at (w_books w) sp - {v}"
        with h(2) have "h < u" by blast
        with that(3) show False by simp
      qed
      ultimately show ?thesis using w'(2) by auto
    qed
    then show ?thesis by (simp add: commit_honest_def h(3))
  qed
  have still: "settleable k' sp u (w_epoch w sp u)" if "u \<in> unsettled_at (w_books w) sp - {v}" for u
    using that I by (simp add: settleable_def books Let_def split: if_splits)
  have settled: "covered L start w' sp u \<and> u \<in> w_acked w' sp" if "u \<in> settled_at k' sp" for u
    using that books(2) I held mono by (auto simp: w'(2))
  have "finite (settled_at k' sp)" using books(2) I by (meson finite.insertI finite_subset)
  with I mono honest still settled show ?thesis unfolding kinv_def by (auto simp: w' books(1))
qed

lemma kinv_forgotten:
  assumes inv: "kinv L start w sp"
    and books: "unsettled_at (w_books w') sp = {}" "settled_at (w_books w') sp = {}"
    and w': "w_acked w sp \<subseteq> w_acked w' sp" "w_committed w' sp = w_committed w sp"
      "w_pos w' sp = w_committed w sp"
  shows "kinv L start w' sp"
proof -
  have "commit_honest L start w' sp" using inv w' by (auto simp: kinv_def commit_honest_def)
  then show ?thesis using commit_honest_covered [of L start w' sp] by (simp add: kinv_def books w')
qed

lemma held_dhas: "v \<in> unsettled_at k sp \<Longrightarrow> dhas (k_unsettled k) sp"
  using dget_not_dhas [of "k_unsettled k" sp "{}"] by auto

lemma kinv_acknowledge:
  assumes inv: "\<forall>sp. kinv L start w sp"
    and ak: "ack D (Position topic part v e) (w_books w) = (r, k', acts)"
    and w': "w' = (resumed (w_books w) k' acts w)
       \<lparr> w_acked := (if settleable (w_books w) (topic, part) v e
                     then (w_acked w)((topic, part) := insert v (w_acked w (topic, part)))
                     else w_acked w) \<rparr>"
  shows "kinv L start w' sp"
proof (cases "settleable (w_books w) (topic, part) v e")
  case False
  with ak have "k' = w_books w" "acts = []" by (simp_all add: ack_refused)
  with False show ?thesis
    by (intro kinv_frame [OF inv [rule_format, of sp]]) (simp_all add: w' resumed_def dropped_at_def)
next
  case True
  let ?sp = "(topic, part)"
  note held = settleable_held [OF True]
  have fin: "finite (unsettled_at (w_books w) ?sp)" "finite (settled_at (w_books w) ?sp)"
    using inv by (simp_all add: kinv_def)
  show ?thesis
    using ak True fin
  proof (cases rule: ack_cases)
    case waiting
    show ?thesis
    proof (cases "sp = ?sp")
      case eq: True
      show ?thesis unfolding eq
        by (rule kinv_settled [OF inv [rule_format, of ?sp] held, of k'])
          (use True in \<open>simp_all add: waiting w' resumed_def dropped_at_def settle_simps\<close>)
    next
      case False
      then show ?thesis
        by (intro kinv_frame [OF inv [rule_format, of sp]])
          (auto simp: waiting w' resumed_def dropped_at_def settle_simps)
    qed
  next
    case (dropped T)
    show ?thesis
    proof (cases "sp = ?sp")
      case eq: True
      show ?thesis unfolding eq
        by (rule kinv_settled [OF inv [rule_format, of ?sp] held, of k'])
          (use True dropped(1) in \<open>simp_all add: dropped(2,3) w' resumed_def dropped_at_def settle_simps\<close>)
    next
      case False
      then show ?thesis
        by (intro kinv_frame [OF inv [rule_format, of sp]])
          (auto simp: dropped(2,3) w' resumed_def dropped_at_def settle_simps)
    qed
  next
    case (committed h T)
    show ?thesis
    proof (cases "sp = ?sp")
      case eq: True
      show ?thesis unfolding eq
        by (rule kinv_settled [OF inv [rule_format, of ?sp] held, of k'])
          (use True committed(1-3) in \<open>auto simp: committed(4,5) w' resumed_def dropped_at_def settle_simps\<close>)
    next
      case False
      then show ?thesis
        by (intro kinv_frame [OF inv [rule_format, of sp]])
          (auto simp: committed(4,5) w' resumed_def dropped_at_def settle_simps)
    qed
  next
    case (lost k2)
    show ?thesis
    proof (cases "sp = ?sp")
      case eq: True
      show ?thesis unfolding eq
        by (rule kinv_forgotten [OF inv [rule_format, of ?sp]])
          (use True held_dhas [OF held] in \<open>auto simp: lost(1,3) w' resumed_def dropped_at_def settle_simps\<close>)
    next
      case False
      note same = lost(2) [rule_format, OF this]
      show ?thesis
        by (rule kinv_frame [OF inv [rule_format, of sp]])
          (simp_all add: lost(1,3) w' resumed_def dropped_at_def settle_simps same False)
    qed
  qed
qed

lemma release_cases:
  assumes "release D (Position topic part v e) k = (r, k', acts)"
  obtains (nothing) "k' = k" and "acts = []"
    | (rewound) "settleable k (topic, part) v e" and "k' = rewind_books (topic, part) v k"
        and "acts = [Seek (topic, part) v]"
    | (lost) "settleable k (topic, part) v e" and "k' = forget_spot (topic, part) k" and "acts = []"
  using assms by (auto simp: release_def lost_def split: if_splits option.splits)

lemma settleable_rewind:
  assumes "settleable k sp u e" and "u < v"
  shows "settleable (rewind_books sp v k) sp u e"
proof -
  from assms(1) have u: "u \<in> unsettled_at k sp" by (rule settleable_held)
  have e: "\<not> e < rewound_at k sp" "\<forall>p\<in>set (drop (e - rewound_at k sp) (rewinds_at k sp)). \<not> p \<le> u"
    using assms(1) by (auto simp: settleable_def Let_def split: if_splits)
  have ne: "{x \<in> unsettled_at k sp. x < v} \<noteq> {}" using u assms(2) by blast
  have R: "rewinds_at (rewind_books sp v k) sp = rewinds_at k sp @ [v]"
    "rewound_at (rewind_books sp v k) sp = rewound_at k sp"
    using ne by (simp_all add: settle_simps)
  have "\<forall>p\<in>set (drop (e - rewound_at k sp) (rewinds_at k sp @ [v])). \<not> p \<le> u"
  proof
    fix p assume "p \<in> set (drop (e - rewound_at k sp) (rewinds_at k sp @ [v]))"
    then have "p \<in> set (drop (e - rewound_at k sp) (rewinds_at k sp)) \<or> p = v"
      by (auto dest: in_set_dropD)
    with e(2) assms(2) show "\<not> p \<le> u" by auto
  qed
  then show ?thesis using e(1) u assms(2) by (simp add: settleable_def R rewind_views)
qed

lemma kinv_give_up:
  assumes inv: "\<forall>sp. kinv L start w sp"
    and rl: "release D (Position topic part v e) (w_books w) = (r, k', acts)"
  shows "kinv L start (resumed (w_books w) k' acts w) sp"
  using rl
proof (cases rule: release_cases)
  case nothing
  then show ?thesis
    by (intro kinv_frame [OF inv [rule_format, of sp]]) (simp_all add: resumed_def dropped_at_def)
next
  case lost
  let ?sp = "(topic, part)"
  note held = held_dhas [OF settleable_held [OF lost(1)]]
  show ?thesis
  proof (cases "sp = ?sp")
    case True
    show ?thesis unfolding True
      by (rule kinv_forgotten [OF inv [rule_format, of ?sp]])
        (use held in \<open>auto simp: lost(2,3) resumed_def dropped_at_def settle_simps\<close>)
  next
    case False
    then show ?thesis
      by (intro kinv_frame [OF inv [rule_format, of sp]])
        (auto simp: lost(2,3) resumed_def dropped_at_def settle_simps)
  qed
next
  case rewound
  let ?sp = "(topic, part)" and ?w' = "resumed (w_books w) k' acts w"
  show ?thesis
  proof (cases "sp = ?sp")
    case False
    then show ?thesis
      by (intro kinv_frame [OF inv [rule_format, of sp]])
        (auto simp: rewound(2,3) resumed_def dropped_at_def settle_simps)
  next
    case True
    note I = inv [rule_format, of ?sp, unfolded kinv_def]
    have cv: "covered L start w ?sp v" using I settleable_held [OF rewound(1)] by blast
    have low: "covered L start ?w' ?sp x" if "x \<le> v" for x
      by (rule covered_below [OF cv _ that])
        (auto simp: resumed_def rewound(2,3) settle_simps)
    have keep: "settleable k' ?sp u (w_epoch w ?sp u)" if "u \<in> unsettled_at (w_books w) ?sp" "u < v" for u
      unfolding rewound(2) using I that by (intro settleable_rewind) auto
    show ?thesis unfolding True kinv_def
      using I low keep
      by (auto simp: resumed_def rewound(2,3) settle_simps dropped_at_def commit_honest_def)
  qed
qed

lemma kstep_kinv:
  assumes "kstep L w w'" and inv: "\<forall>sp. kinv L start w sp"
  shows "kinv L start w' sp"
  using assms(1)
proof cases
  case (deliver topic part v payload k' t)
  then show ?thesis using kinv_deliver [OF inv [rule_format]] by blast
next
  case (acknowledge D topic part v e r k' acts)
  then show ?thesis using kinv_acknowledge [OF inv] by blast
next
  case (give_up D topic part v e r k' acts)
  then show ?thesis using kinv_give_up [OF inv] by blast
next
  case (reassign sp')
  have "commit_honest L start w sp" using inv [rule_format, of sp] by (simp add: kinv_def)
  then have "covered L start w sp (w_committed w sp)" by (rule commit_honest_covered)
  then show ?thesis using inv [rule_format, of sp] reassign
    by (auto simp: kinv_def covered_def commit_honest_def)
qed

lemma kreach_kinv: "kreach L start w \<Longrightarrow> kinv L start w sp"
proof (induction arbitrary: sp rule: kreach.induct)
  case kreach_init
  show ?case by (rule kinv_init)
next
  case (kreach_step w w')
  then show ?case using kstep_kinv by blast
qed

section \<open>Handles from before a rewind\<close>

definition stale :: "kafka \<Rightarrow> spot \<Rightarrow> int \<Rightarrow> nat \<Rightarrow> bool" where
  "stale k sp u e \<longleftrightarrow>
     e < rewound_at k sp \<or> (\<exists>p\<in>set (drop (e - rewound_at k sp) (rewinds_at k sp)). p \<le> u)"

lemma stale_not_settleable: "stale k sp u e \<Longrightarrow> \<not> settleable k sp u e"
  by (auto simp: stale_def settleable_def Let_def)

lemma stale_cong:
  "rewinds_at k' sp = rewinds_at k sp \<Longrightarrow> rewound_at k' sp = rewound_at k sp \<Longrightarrow>
   stale k' sp u e = stale k sp u e"
  by (simp add: stale_def)

lemma rewind_history_cases:
  obtains (compacted) "rewound_at (rewind_books sp v k) sp = rewound_at k sp + length (rewinds_at k sp) + 1"
    | (recorded) "rewinds_at (rewind_books sp v k) sp = rewinds_at k sp @ [v]"
        "rewound_at (rewind_books sp v k) sp = rewound_at k sp"
  by (cases "{u \<in> unsettled_at k sp. u < v} = {} \<and> {u \<in> settled_at k sp. u < v} = {}")
    (simp_all only: rewind_history if_True if_False simp_thms)

lemma stale_rewind:
  assumes "stale k sp u e"
  shows "stale (rewind_books sp' v k) sp u e"
proof (cases "sp' = sp")
  case False
  then show ?thesis using assms by (simp add: stale_def settle_simps)
next
  case True
  let ?n = "e - rewound_at k sp" and ?rs = "rewinds_at k sp"
  have bound: "e < rewound_at k sp + length ?rs + 1"
  proof (cases "e < rewound_at k sp")
    case False
    then obtain p where "p \<in> set (drop ?n ?rs)" using assms by (auto simp: stale_def)
    then have "?n < length ?rs" by (metis drop_all empty_iff empty_set not_le_imp_less)
    then show ?thesis by simp
  qed simp
  show ?thesis unfolding True
  proof (cases rule: rewind_history_cases [of sp v k])
    case compacted
    then show "stale (rewind_books sp v k) sp u e" using bound by (simp add: stale_def)
  next
    case recorded
    then show "stale (rewind_books sp v k) sp u e" using assms by (auto simp: stale_def)
  qed
qed

lemma stale_after_rewind:
  assumes "e \<le> epoch_at k sp" and "v \<le> u"
  shows "stale (rewind_books sp v k) sp u e"
proof -
  let ?n = "e - rewound_at k sp" and ?rs = "rewinds_at k sp"
  have n: "?n \<le> length ?rs" using assms(1) by (simp add: epoch_at_def)
  show ?thesis
  proof (cases rule: rewind_history_cases [of sp v k])
    case compacted
    then show ?thesis using assms(1) by (simp add: stale_def epoch_at_def)
  next
    case recorded
    have "v \<in> set (drop ?n (?rs @ [v]))" using n by simp
    with recorded assms(2) show ?thesis unfolding stale_def by metis
  qed
qed

lemma kstep_stale:
  assumes "kstep L w w'" and "stale (w_books w) sp u e" and "\<not> dropped_at (w_books w) (w_books w') sp"
  shows "stale (w_books w') sp u e"
  using assms(1)
proof cases
  case (deliver topic part v payload k' t)
  then have "rewinds_at k' sp = rewinds_at (w_books w) sp" "rewound_at k' sp = rewound_at (w_books w) sp"
    by (auto simp: Let_def)
  with deliver assms(2) show ?thesis by (simp add: stale_def)
next
  case (acknowledge D topic part v ep r k' acts)
  have k': "w_books w' = k'" using acknowledge by (simp add: resumed_def)
  have "rewinds_at k' sp = rewinds_at (w_books w) sp \<and> rewound_at k' sp = rewound_at (w_books w) sp"
  proof (cases "sp = (topic, part) \<and> dropped_at (w_books w) k' sp")
    case True
    then have "dropped_at (w_books w) (w_books w') sp" using k' by blast
    then show ?thesis using assms(3) by blast
  next
    case False
    then show ?thesis
      using acknowledge(2) held_dhas [OF settleable_held]
      by (auto simp: ack_def lost_def Let_def dropped_at_def settle_simps
          split: if_splits option.splits)
  qed
  with k' assms(2) show ?thesis by (simp add: stale_def)
next
  case (give_up D topic part v ep r k' acts)
  have k': "w_books w' = k'" using give_up by (simp add: resumed_def)
  from give_up(2) show ?thesis
  proof (cases rule: release_cases)
    case nothing
    with k' assms(2) show ?thesis by simp
  next
    case rewound
    with k' assms(2) show ?thesis by (simp add: stale_rewind)
  next
    case lost
    with k' assms(3) held_dhas [OF settleable_held [OF lost(1)]] have "sp \<noteq> (topic, part)"
      by (auto simp: dropped_at_def settle_simps)
    with k' lost assms(2) show ?thesis by (simp add: stale_def settle_simps)
  qed
next
  case (reassign sp')
  with assms(2) show ?thesis by simp
qed

text \<open>Steps that keep the books of one place.\<close>

definition kept_step :: "(spot \<Rightarrow> int set) \<Rightarrow> spot \<Rightarrow> kworld \<Rightarrow> kworld \<Rightarrow> bool" where
  "kept_step L sp w w' \<longleftrightarrow> kstep L w w' \<and> \<not> dropped_at (w_books w) (w_books w') sp"

lemma kept_steps_stale:
  "(kept_step L sp)\<^sup>*\<^sup>* w w' \<Longrightarrow> stale (w_books w) sp u e \<Longrightarrow> stale (w_books w') sp u e"
  by (induction rule: rtranclp_induct) (auto simp: kept_step_def intro: kstep_stale)

section \<open>Properties\<close>

text \<open>
  C1.  At-least-once on Kafka: in every run of deliveries, acknowledgements and releases in any
  order, with commits and seeks that may fail, partitions that may be lost and groups that may be
  rebalanced, an offset below the committed position has been acknowledged.  No restart from the
  committed offset can skip a message whose send had not finished.
\<close>

theorem kafka_committed_is_acked:
  assumes "kreach L start w" and "u \<in> L sp" and "start sp \<le> u" and "u < w_committed w sp"
  shows "u \<in> w_acked w sp"
  using kreach_kinv [OF assms(1), of sp] assms(2-) by (auto simp: kinv_def commit_honest_def)

definition demo_driver :: kdriver where
  "demo_driver = \<lparr> commit_answer = (\<lambda>_ _. None), seek_answer = (\<lambda>_ _. None), assigned = True \<rparr>"

theorem kafka_committed_is_acked_witness:
  "\<exists>w. kreach (\<lambda>_. {0, 1}) (\<lambda>_. 0) w \<and> 0 < w_committed w (''t'', 0) \<and> 0 \<in> w_acked w (''t'', 0)"
proof -
  let ?sp = "(''t'', 0 :: int)" and ?L = "\<lambda>_ :: spot. {0, 1 :: int}" and ?start = "\<lambda>_ :: spot. 0 :: int"
  let ?w0 = "kworld_init ?start"
  let ?k1 = "fst (wrap (Record ''t'' 0 0 (Some ''x'')) (w_books ?w0))"
  let ?w1 = "?w0\<lparr> w_books := ?k1, w_pos := (w_pos ?w0)(?sp := 0 + 1),
               w_epoch := (w_epoch ?w0)(?sp := (w_epoch ?w0 ?sp)(0 := epoch_at ?k1 ?sp)) \<rparr>"
  have d: "kstep ?L ?w0 ?w1"
    by (rule kstep.deliver [where t = "\<lparr> t_payload = ''x'', t_handle = Position ''t'' 0 0 0, t_queue = ''t'' \<rparr>"])
      (simp_all add: next_offset_def kworld_init_def kafka_init_def epoch_at_def)
  let ?k2 = "fst (snd (ack demo_driver (Position ''t'' 0 0 0) ?k1))"
  let ?w2 = "(resumed (w_books ?w1) ?k2 [Commit ?sp 1] ?w1)
     \<lparr> w_acked := (if settleable (w_books ?w1) ?sp 0 0
          then (w_acked ?w1)(?sp := insert 0 (w_acked ?w1 ?sp)) else w_acked ?w1) \<rparr>"
  have a: "kstep ?L ?w1 ?w2"
    by (rule kstep.acknowledge [where D = demo_driver and r = "Inr ()"])
      (simp add: ack_def settleable_def settle_def highest_settled_def demo_driver_def
        kworld_init_def kafka_init_def dhas_def Let_def)
  have r: "kreach ?L ?start ?w2"
    by (rule kreach_step [OF kreach_step [OF kreach_init d] a])
  have c: "0 < w_committed ?w2 ?sp" by (simp add: resumed_def)
  have "0 \<in> w_acked ?w2 ?sp"
    by (rule kafka_committed_is_acked [OF r _ _ c]) simp_all
  with r c show ?thesis by blast
qed

text \<open>
   No stranding: an offset that is still outstanding can always be settled with the handle of
  its last delivery, whatever rewinds to higher offsets, compactions and settlements happened
  since.  (A refused message therefore never blocks the commits of the messages taken before it.)
\<close>

theorem kafka_outstanding_settleable:
  assumes "kreach L start w" and "v \<in> unsettled_at (w_books w) sp"
  shows "settleable (w_books w) sp v (w_epoch w sp v)"
  using kreach_kinv [OF assms(1), of sp] assms(2) by (auto simp: kinv_def)

theorem kafka_outstanding_settleable_witness:
  "\<exists>w. kreach (\<lambda>_. {0, 1}) (\<lambda>_. 0) w \<and> 0 \<in> unsettled_at (w_books w) (''t'', 0) \<and>
     settleable (w_books w) (''t'', 0) 0 (w_epoch w (''t'', 0) 0)"
proof -
  let ?sp = "(''t'', 0 :: int)" and ?L = "\<lambda>_ :: spot. {0, 1 :: int}" and ?start = "\<lambda>_ :: spot. 0 :: int"
  let ?w0 = "kworld_init ?start"
  let ?k1 = "fst (wrap (Record ''t'' 0 0 (Some ''x'')) (w_books ?w0))"
  let ?w1 = "?w0\<lparr> w_books := ?k1, w_pos := (w_pos ?w0)(?sp := 0 + 1),
               w_epoch := (w_epoch ?w0)(?sp := (w_epoch ?w0 ?sp)(0 := epoch_at ?k1 ?sp)) \<rparr>"
  have d: "kstep ?L ?w0 ?w1"
    by (rule kstep.deliver [where t = "\<lparr> t_payload = ''x'', t_handle = Position ''t'' 0 0 0, t_queue = ''t'' \<rparr>"])
      (simp_all add: next_offset_def kworld_init_def kafka_init_def epoch_at_def)
  have r: "kreach ?L ?start ?w1" by (rule kreach_step [OF kreach_init d])
  have u: "0 \<in> unsettled_at (w_books ?w1) ?sp" by (simp add: kworld_init_def kafka_init_def Let_def)
  show ?thesis using r u kafka_outstanding_settleable [OF r u] by blast
qed

text \<open>
   A release gives up every handle at or above its offset that was issued before it: for as
  long as the partition stays with this member, whatever is delivered, settled or released
  afterwards, acknowledging or releasing such a handle changes nothing and commits nothing.
\<close>

theorem kafka_stale_handle_is_inert:
  fixes w w1 w2 :: kworld
  assumes "release D (Position topic part v e0) (w_books w) = (Inr (), w_books w1, [Seek (topic, part) v])"
    and "e \<le> epoch_at (w_books w) (topic, part)" and "v \<le> u"
    and "(kept_step L (topic, part))\<^sup>*\<^sup>* w1 w2"
  shows "ack D' (Position topic part u e) (w_books w2) = (Inr (), w_books w2, []) \<and>
    release D' (Position topic part u e) (w_books w2) = (Inr (), w_books w2, [])"
proof -
  from assms(1) have "w_books w1 = rewind_books (topic, part) v (w_books w)"
    by (cases rule: release_cases) simp_all
  then have "stale (w_books w1) (topic, part) u e"
    using stale_after_rewind [OF assms(2,3)] by simp
  then have "stale (w_books w2) (topic, part) u e" by (rule kept_steps_stale [OF assms(4)])
  then show ?thesis by (simp add: ack_refused release_def stale_not_settleable)
qed

theorem kafka_stale_handle_is_inert_witness:
  "\<exists>(w :: kworld) (w1 :: kworld). release demo_driver (Position ''t'' 0 0 0) (w_books w) =
      (Inr (), w_books w1, [Seek (''t'', 0) 0]) \<and>
     (0 :: nat) \<le> epoch_at (w_books w) (''t'', 0) \<and>
     ack demo_driver (Position ''t'' 0 1 0) (w_books w1) = (Inr (), w_books w1, [])"
proof -
  let ?k = "kafka_init\<lparr> k_unsettled := [((''t'', 0), {0, 1})] \<rparr>"
  let ?w = "(kworld_init (\<lambda>_. 0))\<lparr> w_books := ?k \<rparr>"
  let ?w1 = "?w\<lparr> w_books := rewind_books (''t'', 0) 0 ?k \<rparr>"
  have r: "release demo_driver (Position ''t'' 0 0 0) (w_books ?w) = (Inr (), w_books ?w1, [Seek (''t'', 0) 0])"
    by (simp add: release_def settleable_def demo_driver_def kafka_init_def dget_def)
  have e: "0 \<le> epoch_at (w_books ?w) (''t'', 0)" by simp
  have "ack demo_driver (Position ''t'' 0 1 0) (w_books ?w1) = (Inr (), w_books ?w1, [])"
    using kafka_stale_handle_is_inert [OF r e, of 1 "\<lambda>_. {}" ?w1] by simp
  with r e show ?thesis by (intro exI [of _ ?w] exI [of _ ?w1] conjI)
qed

text \<open>
   Progress of commits: acknowledging the last outstanding message of a partition commits one
  past the highest settled offset, whatever the order in which the others were settled, and leaves
  nothing waiting for a commit.
\<close>

theorem kafka_last_ack_commits_all:
  assumes "settleable k (topic, part) v e" and "unsettled_at k (topic, part) = {v}"
    and "finite (settled_at k (topic, part))"
    and "\<forall>n. commit_answer D (topic, part) n = None"
  shows "\<exists>k'. ack D (Position topic part v e) k =
      (Inr (), k', [Commit (topic, part) (Max (insert v (settled_at k (topic, part))) + 1)]) \<and>
    settled_at k' (topic, part) = {} \<and> unsettled_at k' (topic, part) = {}"
proof -
  let ?S = "insert v (settled_at k (topic, part))"
  have "highest_settled ?S {} = Some (Max ?S)" by (simp add: highest_settled_def)
  moreover have "{u \<in> ?S. Max ?S < u} = {}" using assms(3) by (auto simp: not_less)
  ultimately show ?thesis using assms by (simp add: ack_def settle_simps Let_def)
qed

theorem kafka_last_ack_commits_all_witness:
  "\<exists>k'. ack demo_driver (Position ''t'' 0 0 0)
      (kafka_init\<lparr> k_unsettled := [((''t'', 0), {0})], k_settled := [((''t'', 0), {1, 2})] \<rparr>) =
      (Inr (), k', [Commit (''t'', 0) 3]) \<and> settled_at k' (''t'', 0) = {}"
proof -
  let ?k = "kafka_init\<lparr> k_unsettled := [((''t'', 0), {0})], k_settled := [((''t'', 0), {1, 2})] \<rparr>"
  have "settleable ?k (''t'', 0) 0 0" by (simp add: settleable_def kafka_init_def dget_def)
  moreover have "unsettled_at ?k (''t'', 0) = {0}" and S: "settled_at ?k (''t'', 0) = {1, 2}"
    by (simp_all add: dget_def)
  moreover have "\<forall>n. commit_answer demo_driver (''t'', 0) n = None" by (simp add: demo_driver_def)
  ultimately show ?thesis using kafka_last_ack_commits_all [of ?k "''t''" 0 0 0 demo_driver] by auto
qed

text \<open>
   A rewind that fails leaves the books exactly as they were: when the driver refuses the
  seek for a reason that is not a lost partition, the error is raised and the message stays
  settleable by whoever holds it.
\<close>

theorem kafka_failed_seek_keeps_books:
  assumes "release D (Position topic part v e) k = (Inl err, k', acts)"
  shows "k' = k \<and> acts = [] \<and> settleable k (topic, part) v e"
  using assms by (auto simp: release_def lost_def split: if_splits option.splits)

theorem kafka_failed_seek_keeps_books_witness:
  "release (demo_driver\<lparr> seek_answer := (\<lambda>_ _. Some ''timed out'') \<rparr>) (Position ''t'' 0 0 0)
     (kafka_init\<lparr> k_unsettled := [((''t'', 0), {0})] \<rparr>) =
   (Inl (DriverError ''timed out''), kafka_init\<lparr> k_unsettled := [((''t'', 0), {0})] \<rparr>, []) \<and>
   settleable (kafka_init\<lparr> k_unsettled := [((''t'', 0), {0})] \<rparr>) (''t'', 0) 0 0"
proof -
  have r: "release (demo_driver\<lparr> seek_answer := (\<lambda>_ _. Some ''timed out'') \<rparr>) (Position ''t'' 0 0 0)
     (kafka_init\<lparr> k_unsettled := [((''t'', 0), {0})] \<rparr>) =
   (Inl (DriverError ''timed out''), kafka_init\<lparr> k_unsettled := [((''t'', 0), {0})] \<rparr>, [])"
    by (simp add: release_def settleable_def demo_driver_def kafka_init_def dget_def lost_def contains_def)
  show ?thesis using r kafka_failed_seek_keeps_books [OF r] by blast
qed

end
