(* ===== verification/Envelope.thy ===== *)
theory Envelope
  imports Prelude
begin

text \<open>
  The wire envelope of a queued call, \<open>wire/envelope.py\<close>: \<open>pack\<close> builds the payload a
  producer queues and \<open>unpack\<close> reads back whatever the queue held.  The readers of the
  single fields (identifier, timestamp, bot identity) are separate functions as in the source.
  The two conversions of the standard library whose outcome the code branches on are arguments,
  in the record \<open>py_text\<close>: what \<open>float()\<close> answers for text, and what \<open>str()\<close>
  answers for a value that is not a string.
\<close>

section \<open>UUIDs as the standard library spells them\<close>

text \<open>\<open>UUID.hex\<close> is \<open>'%032x' % self.int\<close>.\<close>

definition hex_alphabet :: string where
  "hex_alphabet = ''0123456789abcdef''"

definition hexdigit :: "nat \<Rightarrow> char" where
  "hexdigit n = hex_alphabet ! n"

fun to_hex :: "nat \<Rightarrow> nat \<Rightarrow> string" where
  "to_hex 0 n = []"
| "to_hex (Suc w) n = to_hex w (n div 16) @ [hexdigit (n mod 16)]"

definition uuid_hex :: "nat \<Rightarrow> string" where
  "uuid_hex u = to_hex 32 u"

definition hexval :: "char \<Rightarrow> nat option" where
  "hexval c =
     (let n = of_char c :: nat in
      if 48 \<le> n \<and> n \<le> 57 then Some (n - 48)
      else if 97 \<le> n \<and> n \<le> 102 then Some (n - 87)
      else if 65 \<le> n \<and> n \<le> 70 then Some (n - 55)
      else None)"

text \<open>
  \<open>int(s, 16)\<close>: surrounding white space, one sign, an optional \<open>0x\<close> that may be followed
  by one underscore, and hexadecimal digits with single underscores between them.
\<close>

definition is_space :: "char \<Rightarrow> bool" where
  "is_space c = ((of_char c :: nat) \<in> {9, 10, 11, 12, 13, 28, 29, 30, 31, 32, 133, 160})"

definition strip_if :: "(char \<Rightarrow> bool) \<Rightarrow> string \<Rightarrow> string" where
  "strip_if P s = rev (dropWhile P (rev (dropWhile P s)))"

fun hex_run :: "bool \<Rightarrow> nat \<Rightarrow> string \<Rightarrow> nat option" where
  "hex_run seen acc [] = (if seen then Some acc else None)"
| "hex_run seen acc (c # cs) =
     (if c = CHR ''_'' then (if seen then hex_run False acc cs else None)
      else case hexval c of None \<Rightarrow> None | Some d \<Rightarrow> hex_run True (acc * 16 + d) cs)"

fun hex_body :: "string \<Rightarrow> nat option" where
  "hex_body (c # d # cs) =
     (if c = CHR ''0'' \<and> (d = CHR ''x'' \<or> d = CHR ''X'')
      then (case cs of e # es \<Rightarrow> if e = CHR ''_'' then hex_run False 0 es else hex_run False 0 cs
                     | [] \<Rightarrow> None)
      else hex_run False 0 (c # d # cs))"
| "hex_body cs = hex_run False 0 cs"

definition py_int16 :: "string \<Rightarrow> int option" where
  "py_int16 s =
     (case strip_if is_space s of
        [] \<Rightarrow> None
      | c # cs \<Rightarrow>
          if c = CHR ''-'' then map_option (\<lambda>n. - int n) (hex_body cs)
          else if c = CHR ''+'' then map_option int (hex_body cs)
          else map_option int (hex_body (c # cs)))"

text \<open>\<open>s.replace(pat, '')\<close>.\<close>

function py_remove :: "string \<Rightarrow> string \<Rightarrow> string" where
  "py_remove pat [] = []"
| "py_remove pat (c # cs) =
     (if pat \<noteq> [] \<and> take (length pat) (c # cs) = pat then py_remove pat (drop (length pat) (c # cs))
      else c # py_remove pat cs)"
  by pat_completeness auto
termination
proof (relation "measure (\<lambda>(pat, s). length s)")
  show "wf (measure (\<lambda>(pat, s :: string). length s))" by simp
next
  fix pat c cs
  assume "pat \<noteq> [] \<and> take (length pat) (c # cs) = pat"
  then have "0 < length pat" by simp
  then show "((pat, drop (length pat) (c # cs)), pat, c # cs) \<in> measure (\<lambda>(pat, s). length s)"
    by auto
qed simp

text \<open>\<open>uuid.UUID(text)\<close>, \<open>None\<close> for its \<open>ValueError\<close>.\<close>

definition uuid_of_str :: "string \<Rightarrow> nat option" where
  "uuid_of_str s =
     (let h = py_remove ''uuid:'' (py_remove ''urn:'' s);
          h = filter (\<lambda>c. c \<noteq> CHR ''-'') (strip_if (\<lambda>c. c = CHR ''{'' \<or> c = CHR ''}'') h)
      in if length h \<noteq> 32 then None
         else case py_int16 h of
                None \<Rightarrow> None
              | Some n \<Rightarrow> if 0 \<le> n \<and> n < 2 ^ 128 then Some (nat n) else None)"

lemma hexdigit_props:
  assumes "n < 16"
  shows "hexval (hexdigit n) = Some n" and "hexdigit n \<in> set hex_alphabet"
proof -
  have "\<forall>k\<in>set [0..<16]. hexval (hexdigit k) = Some k" by code_simp
  with assms show "hexval (hexdigit n) = Some n" by simp
  have "n < length hex_alphabet" using assms by (simp add: hex_alphabet_def)
  then show "hexdigit n \<in> set hex_alphabet" unfolding hexdigit_def by (rule nth_mem)
qed

lemma hex_alphabet_props:
  assumes "c \<in> set hex_alphabet"
  shows "hexval c \<noteq> None" and "\<not> is_space c"
    and "c \<notin> set '':{}-+xX''"
proof -
  have "list_all (\<lambda>c. hexval c \<noteq> None \<and> \<not> is_space c \<and> c \<notin> set '':{}-+xX'') hex_alphabet"
    by code_simp
  with assms show "hexval c \<noteq> None" and "\<not> is_space c" and "c \<notin> set '':{}-+xX''"
    by (auto simp: list_all_iff)
qed

lemma length_to_hex [simp]: "length (to_hex w n) = w"
  by (induction w n rule: to_hex.induct) auto

lemma set_to_hex: "c \<in> set (to_hex w n) \<Longrightarrow> c \<in> set hex_alphabet"
  by (induction w n rule: to_hex.induct) (auto simp: hexdigit_props)

text \<open>The value a run of digits stands for, read from the left.\<close>

definition hex_value :: "nat \<Rightarrow> string \<Rightarrow> nat" where
  "hex_value = foldl (\<lambda>a c. a * 16 + the (hexval c))"

lemma hex_run_digits:
  "\<forall>c\<in>set s. hexval c \<noteq> None \<Longrightarrow> s \<noteq> [] \<Longrightarrow> hex_run seen acc s = Some (hex_value acc s)"
proof (induction s arbitrary: seen acc)
  case (Cons c cs)
  from Cons.prems obtain d where d: "hexval c = Some d" by auto
  then have c: "c \<noteq> CHR ''_''" by (auto simp: hexval_def)
  show ?case
  proof (cases "cs = []")
    case True
    with c d show ?thesis by (simp add: hex_value_def)
  next
    case False
    with Cons.IH [of True "acc * 16 + d"] Cons.prems(1) c d show ?thesis
      by (simp add: hex_value_def)
  qed
qed simp

lemma hex_value_to_hex: "hex_value 0 (to_hex w n) = n mod 16 ^ w"
proof (induction w n rule: to_hex.induct)
  case (2 w n)
  have "n mod 16 ^ Suc w = (n div 16 mod 16 ^ w) * 16 + n mod 16"
    by (metis add.commute mod_mult2_eq mult.commute power_Suc)
  moreover have "hex_value 0 (to_hex (Suc w) n) = hex_value 0 (to_hex w (n div 16)) * 16 + n mod 16"
    by (simp add: hex_value_def hexdigit_props)
  ultimately show ?case using "2.IH" by simp
qed (simp add: hex_value_def)

lemma hex_body_digits:
  assumes "\<forall>c\<in>set s. c \<in> set hex_alphabet"
  shows "hex_body s = hex_run False 0 s"
  using assms hex_alphabet_props(3) by (cases s rule: hex_body.cases) force+

lemma dropWhile_none: "\<forall>c\<in>set s. \<not> P c \<Longrightarrow> dropWhile P s = s"
  by (induction s) auto

lemma strip_if_none: "\<forall>c\<in>set s. \<not> P c \<Longrightarrow> strip_if P s = s"
  by (simp add: strip_if_def dropWhile_none)

lemma py_int16_digits:
  assumes "\<forall>c\<in>set s. c \<in> set hex_alphabet" and "s \<noteq> []"
  shows "py_int16 s = Some (int (hex_value 0 s))"
proof -
  obtain c cs where s: "s = c # cs" using assms(2) by (cases s) auto
  have strip: "strip_if is_space s = s"
    using assms(1) hex_alphabet_props(2) by (intro strip_if_none) blast
  have "c \<noteq> CHR ''-''" and "c \<noteq> CHR ''+''"
    using assms(1) hex_alphabet_props(3) [of c] s by auto
  moreover have "hex_body s = Some (hex_value 0 s)"
    using assms hex_alphabet_props(1) hex_body_digits hex_run_digits by metis
  ultimately show ?thesis using s strip by (simp add: py_int16_def)
qed

lemma py_remove_absent: "x \<in> set pat \<Longrightarrow> x \<notin> set s \<Longrightarrow> py_remove pat s = s"
proof (induction pat s rule: py_remove.induct)
  case (2 pat c cs)
  then have "take (length pat) (c # cs) \<noteq> pat" by (metis in_set_takeD)
  with 2 show ?case by simp
qed simp

text \<open>Reading back the hexadecimal form of a 128-bit identifier gives the identifier.\<close>

lemma uuid_of_hex:
  assumes "u < 2 ^ 128"
  shows "uuid_of_str (uuid_hex u) = Some u"
proof -
  let ?h = "uuid_hex u"
  have h: "\<forall>c\<in>set ?h. c \<in> set hex_alphabet" by (auto simp: uuid_hex_def set_to_hex)
  then have clean: "\<forall>c\<in>set ?h. c \<notin> set '':{}-+xX''" using hex_alphabet_props(3) by blast
  then have colon: "CHR '':'' \<notin> set ?h" by auto
  have "py_remove ''urn:'' ?h = ?h" and "py_remove ''uuid:'' ?h = ?h"
    by (rule py_remove_absent [of "CHR '':''"], simp_all add: colon)+
  moreover have "strip_if (\<lambda>c. c = CHR ''{'' \<or> c = CHR ''}'') ?h = ?h"
    using clean by (intro strip_if_none) auto
  moreover have "filter (\<lambda>c. c \<noteq> CHR ''-'') ?h = ?h"
    using clean by (intro filter_True) auto
  moreover have "length ?h = 32" by (simp add: uuid_hex_def)
  moreover have "py_int16 ?h = Some (int u)"
  proof -
    have "hex_value 0 ?h = u" using assms by (simp add: uuid_hex_def hex_value_to_hex)
    moreover have "?h \<noteq> []" using \<open>length ?h = 32\<close> by auto
    ultimately show ?thesis using py_int16_digits [OF h] by simp
  qed
  ultimately show ?thesis using assms by (simp add: uuid_of_str_def)
qed

lemma uuid_hex_nonempty: "uuid_hex u \<noteq> []"
  by (metis length_to_hex list.size(3) uuid_hex_def zero_neq_numeral)

section \<open>The envelope\<close>

definition ENVELOPE_KEY :: string where
  "ENVELOPE_KEY = ''__envelope__''"

definition ENVELOPE_VERSION :: int where
  "ENVELOPE_VERSION = 1"

definition READABLE_VERSIONS :: "int list" where
  "READABLE_VERSIONS = [1]"

text \<open>
  The three exceptions \<open>unpack\<close> can raise: the two classes of this module, and the
  \<open>OverflowError\<close> that \<open>float()\<close> raises for an integer beyond the range of a double.
  \<open>found\<close> is what the message of a \<open>MalformedEnvelopeError\<close> names: a type or a
  version number, never the content.
\<close>

datatype found =
    NotAMapping string
  | VersionOfType string
  | OlderVersion int
  | BotIdentityOfType string

datatype env_error =
    MalformedEnvelopeError found
  | UnknownEnvelopeVersionError int
  | FloatOverflowError

record envelope =
  env_function :: string
  env_kwargs :: pydict
  correlation_id :: "nat option"
  queued_at :: rat
  bot_id :: "int option"

record py_text =
  float_text :: "string \<Rightarrow> pyfloat option"
  str_of :: "pyval \<Rightarrow> string"

definition pack :: "string \<Rightarrow> pydict \<Rightarrow> nat \<Rightarrow> pyfloat \<Rightarrow> int option \<Rightarrow> pydict" where
  "pack function kwargs cid stamp who =
     (let packed =
        [(ENVELOPE_KEY, PInt ENVELOPE_VERSION),
         (''correlation_id'', PStr (uuid_hex cid)),
         (''queued_at'', PFloat stamp),
         (''function'', PStr function),
         (''kwargs'', PDict kwargs)]
      in case who of None \<Rightarrow> packed | Some b \<Rightarrow> dset ''bot'' (PInt b) packed)"

fun as_uuid :: "pyval \<Rightarrow> nat option" where
  "as_uuid (PUuid u) = Some u"
| "as_uuid (PStr s) = (if s \<noteq> [] then uuid_of_str s else None)"
| "as_uuid _ = None"

text \<open>
  An integer converts to a double unless rounding takes it to \<open>2 ^ 1024\<close>; \<open>float()\<close>
  raises \<open>OverflowError\<close> there, which is not one of the two classes the source catches.
\<close>

definition float_limit :: int where
  "float_limit = 2 ^ 1024 - 2 ^ 970"

fun finite_or_zero :: "pyfloat option \<Rightarrow> rat" where
  "finite_or_zero (Some (Fin q)) = q"
| "finite_or_zero _ = 0"

fun as_time :: "py_text \<Rightarrow> pyval \<Rightarrow> env_error + rat" where
  "as_time T (PBool b) = Inr (if b then 1 else 0)"
| "as_time T (PInt n) =
     (if n = 0 then Inr 0
      else if float_limit \<le> \<bar>n\<bar> then Inl FloatOverflowError
      else Inr (of_int n))"
| "as_time T (PFloat x) = Inr (finite_or_zero (Some x))"
| "as_time T (PStr s) = (if s = [] then Inr 0 else Inr (finite_or_zero (float_text T s)))"
| "as_time T (PBytes s) = (if s = [] then Inr 0 else Inr (finite_or_zero (float_text T s)))"
| "as_time T _ = Inr 0"

definition as_bot_id :: "pydict \<Rightarrow> env_error + int option" where
  "as_bot_id payload =
     (case map_of payload ''bot'' of
        None \<Rightarrow> Inr None
      | Some named \<Rightarrow>
          (case named of
             PInt b \<Rightarrow> if b \<le> 0 then Inl (MalformedEnvelopeError (BotIdentityOfType (type_name named)))
                       else Inr (Some b)
           | _ \<Rightarrow> Inl (MalformedEnvelopeError (BotIdentityOfType (type_name named)))))"

definition py_str :: "py_text \<Rightarrow> pyval \<Rightarrow> string" where
  "py_str T v = (case v of PStr s \<Rightarrow> s | _ \<Rightarrow> str_of T v)"

fun as_kwargs :: "pyval option \<Rightarrow> pydict" where
  "as_kwargs (Some (PDict d)) = d"
| "as_kwargs _ = []"

definition unpack_flat :: "py_text \<Rightarrow> pydict \<Rightarrow> envelope" where
  "unpack_flat T payload =
     \<lparr> env_function = py_str T (dget payload ''function'' (PStr [])),
       env_kwargs = filter (\<lambda>(key, value). key \<noteq> ''function'') payload,
       correlation_id = None, queued_at = 0, bot_id = None \<rparr>"

definition unpack_nested :: "py_text \<Rightarrow> pydict \<Rightarrow> env_error + envelope" where
  "unpack_nested T payload =
     (case as_time T (dget payload ''queued_at'' PNone) of
        Inl e \<Rightarrow> Inl e
      | Inr stamp \<Rightarrow>
          (case as_bot_id payload of
             Inl e \<Rightarrow> Inl e
           | Inr who \<Rightarrow>
               Inr \<lparr> env_function = py_str T (dget payload ''function'' (PStr [])),
                     env_kwargs = as_kwargs (map_of payload ''kwargs''),
                     correlation_id = as_uuid (dget payload ''correlation_id'' PNone),
                     queued_at = stamp, bot_id = who \<rparr>))"

definition unpack_versioned :: "py_text \<Rightarrow> pyval \<Rightarrow> pydict \<Rightarrow> env_error + envelope" where
  "unpack_versioned T version payload =
     (case version of
        PInt v \<Rightarrow>
          if v > ENVELOPE_VERSION then Inl (UnknownEnvelopeVersionError v)
          else if v \<notin> set READABLE_VERSIONS then Inl (MalformedEnvelopeError (OlderVersion v))
          else unpack_nested T payload
      | _ \<Rightarrow> Inl (MalformedEnvelopeError (VersionOfType (type_name version))))"

definition unpack :: "py_text \<Rightarrow> pyval \<Rightarrow> env_error + envelope" where
  "unpack T payload =
     (case payload of
        PDict d \<Rightarrow>
          (case map_of d ENVELOPE_KEY of
             None \<Rightarrow> Inr (unpack_flat T d)
           | Some version \<Rightarrow>
               if version = PNone then Inr (unpack_flat T d) else unpack_versioned T version d)
      | _ \<Rightarrow> Inl (MalformedEnvelopeError (NotAMapping (type_name payload))))"

lemmas env_defs = unpack_def unpack_versioned_def unpack_nested_def unpack_flat_def as_bot_id_def
  pack_def ENVELOPE_KEY_def ENVELOPE_VERSION_def READABLE_VERSIONS_def py_str_def dget_def

section \<open>Properties\<close>

lemma unpack_packed:
  assumes "cid < 2 ^ 128" and "\<forall>b. who = Some b \<longrightarrow> 0 < b"
  shows "unpack T (PDict (pack f kw cid (Fin t) who)) =
    Inr \<lparr> env_function = f, env_kwargs = kw, correlation_id = Some cid, queued_at = t, bot_id = who \<rparr>"
  using assms by (cases who) (simp_all add: env_defs uuid_of_hex uuid_hex_nonempty)

text \<open>
   Round trip: what a producer packs for a call is what the consumer reads back, for every
  method name, every arguments dictionary, every 128-bit correlation identifier, every finite
  timestamp and either no bot or a positive bot identity.
\<close>

theorem unpack_pack:
  assumes "cid < 2 ^ 128" and "\<forall>b. who = Some b \<longrightarrow> 0 < b"
  shows "unpack T (PDict (pack f kw cid (Fin t) who)) =
    Inr \<lparr> env_function = f, env_kwargs = kw, correlation_id = Some cid, queued_at = t, bot_id = who \<rparr>"
  using assms by (rule unpack_packed)

theorem unpack_pack_witness:
  "(5 :: nat) < 2 ^ 128 \<and>
   unpack \<lparr> float_text = (\<lambda>_. None), str_of = (\<lambda>_. []) \<rparr>
     (PDict (pack ''send_message'' [(''chat_id'', PInt 7)] 5 (Fin (3 / 2)) (Some 42))) =
   Inr \<lparr> env_function = ''send_message'', env_kwargs = [(''chat_id'', PInt 7)],
         correlation_id = Some 5, queued_at = 3 / 2, bot_id = Some 42 \<rparr>"
proof -
  have h: "(5 :: nat) < 2 ^ 128" and b: "\<forall>b. Some (42 :: int) = Some b \<longrightarrow> 0 < b" by simp_all
  show ?thesis using h unpack_pack [OF h b] by blast
qed

text \<open>
   A payload is reported as written by a newer version exactly when it is a mapping whose
  envelope key holds an integer above the version this reader writes.  This is the one error the
  consumer answers by leaving the message in flight, so nothing else may be reported as it.
\<close>

theorem unpack_newer_version_iff:
  "unpack T p = Inl (UnknownEnvelopeVersionError v) \<longleftrightarrow>
     (\<exists>d. p = PDict d \<and> map_of d ENVELOPE_KEY = Some (PInt v) \<and> ENVELOPE_VERSION < v)"
proof -
  have "unpack_nested T d \<noteq> Inl (UnknownEnvelopeVersionError v)" for d
  proof -
    have "as_time T x \<noteq> Inl (UnknownEnvelopeVersionError v)" for x
      by (cases "(T, x)" rule: as_time.cases) auto
    then show ?thesis
      by (auto simp: unpack_nested_def as_bot_id_def split: sum.splits option.splits pyval.splits if_splits)
  qed
  then show ?thesis
    by (auto simp: unpack_def unpack_versioned_def split: pyval.splits option.splits if_splits)
qed

text \<open>
  Routing safety: a versioned payload that is read names a bot exactly when it carries the
  \<open>bot\<close> key, the identity is the positive integer written there, and nothing else (a
  boolean, a float, a numeric string, zero) is ever taken for an identity or for its absence.
\<close>

theorem unpack_bot_exact:
  assumes "unpack T (PDict d) = Inr e" and "map_of d ENVELOPE_KEY = Some version" and "version \<noteq> PNone"
  shows "(bot_id e = None \<longleftrightarrow> map_of d ''bot'' = None) \<and>
    (\<forall>b. bot_id e = Some b \<longrightarrow> map_of d ''bot'' = Some (PInt b) \<and> 0 < b)"
  using assms
  by (auto simp: unpack_def unpack_versioned_def unpack_nested_def as_bot_id_def
      split: pyval.splits option.splits if_splits sum.splits)

theorem unpack_bot_exact_witness:
  "\<exists>d e version. unpack \<lparr> float_text = (\<lambda>_. None), str_of = (\<lambda>_. []) \<rparr> (PDict d) = Inr e \<and>
     map_of d ENVELOPE_KEY = Some version \<and> version \<noteq> PNone \<and> map_of d ''bot'' = Some (PInt 42) \<and>
     bot_id e = Some 42"
proof -
  let ?T = "\<lparr> float_text = (\<lambda>_. None), str_of = (\<lambda>_. []) \<rparr>"
  let ?d = "[(ENVELOPE_KEY, PInt 1), (''bot'', PInt 42)]"
  let ?e = "\<lparr> env_function = [], env_kwargs = [], correlation_id = None, queued_at = 0, bot_id = Some 42 \<rparr>"
  have u: "unpack ?T (PDict ?d) = Inr ?e" by (simp add: env_defs)
  have v: "map_of ?d ENVELOPE_KEY = Some (PInt 1)" by simp
  have b: "map_of ?d ''bot'' = Some (PInt 42)" by (simp add: ENVELOPE_KEY_def)
  have "bot_id ?e \<noteq> None" using unpack_bot_exact [OF u v] b by auto
  with u v b show ?thesis by (intro exI [of _ ?d] exI [of _ ?e] exI [of _ "PInt 1"]) simp
qed

text \<open>
   A rolling upgrade: a flat 2.x payload (no envelope key) is always read, as the call it
  names with every other key as an argument, unaddressed and without an identifier.
\<close>

theorem unpack_flat_payload:
  assumes "map_of kw ENVELOPE_KEY = None" and "map_of kw ''function'' = None"
  shows "unpack T (PDict ((''function'', PStr f) # kw)) =
    Inr \<lparr> env_function = f, env_kwargs = kw, correlation_id = None, queued_at = 0, bot_id = None \<rparr>"
proof -
  have "filter (\<lambda>(key, value). key \<noteq> ''function'') kw = kw"
    using assms(2) by (intro filter_True) (force simp: map_of_eq_None_iff)
  with assms(1) show ?thesis by (simp add: env_defs)
qed

theorem unpack_flat_payload_witness:
  "unpack \<lparr> float_text = (\<lambda>_. None), str_of = (\<lambda>_. []) \<rparr>
     (PDict [(''function'', PStr ''send_message''), (''chat_id'', PInt 7)]) =
   Inr \<lparr> env_function = ''send_message'', env_kwargs = [(''chat_id'', PInt 7)],
         correlation_id = None, queued_at = 0, bot_id = None \<rparr>"
  by (rule unpack_flat_payload) (simp_all add: ENVELOPE_KEY_def)

text \<open>
  The timestamp reader is documented to cost the queue latency and never the message.  An
  integer timestamp beyond the range of a double is the exception: \<open>float()\<close> raises
  \<open>OverflowError\<close>, which \<open>_as_time\<close> does not catch, so an otherwise well-formed
  envelope is not read at all.
\<close>

theorem unpack_huge_timestamp_raises:
  assumes "float_limit \<le> \<bar>n\<bar>"
  shows "unpack T (PDict (dset ''queued_at'' (PInt n) (pack f kw cid (Fin t) who))) =
    Inl FloatOverflowError"
proof -
  have "n \<noteq> 0" using assms by (auto simp: float_limit_def)
  with assms show ?thesis by (cases who) (simp_all add: env_defs)
qed

theorem unpack_huge_timestamp_raises_witness:
  "float_limit \<le> \<bar>10 ^ 400 :: int\<bar> \<and>
   unpack \<lparr> float_text = (\<lambda>_. None), str_of = (\<lambda>_. []) \<rparr>
     (PDict (dset ''queued_at'' (PInt (10 ^ 400)) (pack ''send_message'' [] 5 (Fin 0) None))) =
   Inl FloatOverflowError"
proof -
  have h: "float_limit \<le> \<bar>10 ^ 400 :: int\<bar>" by (simp add: float_limit_def)
  show ?thesis using h unpack_huge_timestamp_raises [OF h] by blast
qed

end
