(* ===== verification/BrokerBase.thy ===== *)
theory BrokerBase
  imports Envelope
begin

text \<open>
  The part of the transport contract that is code, \<open>broker/base.py\<close>: how a caller's queue
  argument is read (\<open>named_queues\<close>, \<open>one_queue\<close>), how a broker class resolves its own
  options against the project's settings (\<open>option\<close>, \<open>required\<close>), which queue it
  addresses (\<open>queue\<close>) and its call deadline (\<open>call_timeout\<close>).  A broker class is a record
  of its class attributes; settings are dictionaries; the package-wide defaults are an argument.
\<close>

section \<open>Queue arguments\<close>

datatype queue_arg = NoQueues | OneName string | Names "string list"

fun named_queues :: "queue_arg \<Rightarrow> string list" where
  "named_queues NoQueues = []"
| "named_queues (OneName q) = [q]"
| "named_queues (Names qs) = fromkeys qs"

text \<open>One message off a queue, \<open>broker/models.py\<close>; the handle is opaque.\<close>

record 'h taken =
  tk_payload :: bytes
  tk_handle :: 'h
  tk_queue :: string

datatype multiplexing_error = QueueMultiplexingUnavailable "string list" string

definition one_queue :: "string \<Rightarrow> queue_arg \<Rightarrow> multiplexing_error + string" where
  "one_queue mine queues =
     (let asked = named_queues queues
      in if asked = [] \<or> asked = [mine] then Inr mine
         else Inl (QueueMultiplexingUnavailable asked mine))"

section \<open>Options\<close>

text \<open>\<open>None\<close> is the sentinel \<open>REQUIRED\<close>: the option has no default.\<close>

record broker_class =
  bc_options :: "(string \<times> pyval option) list"
  bc_queue_option :: string
  bc_timeout_option :: string

datatype option_error =
    UndeclaredOption string
  | RequiredInDefaults string
  | DisagreesWithDefaults string pyval pyval
  | RequiredUnset string
  | BadDeadline string pyval

definition blank :: "pyval \<Rightarrow> bool" where
  "blank v = (case v of PNone \<Rightarrow> True | PStr s \<Rightarrow> strip_if is_space s = [] | _ \<Rightarrow> False)"

definition broker_option :: "pydict \<Rightarrow> broker_class \<Rightarrow> pydict \<Rightarrow> string \<Rightarrow> option_error + pyval" where
  "broker_option defaults B settings key =
     (case map_of (bc_options B) key of
        None \<Rightarrow> Inl (UndeclaredOption key)
      | Some declared \<Rightarrow>
          (let resolve = (case declared of
             None \<Rightarrow> (let value = dget settings key PNone
                      in if blank value then Inl (RequiredUnset key) else Inr value)
           | Some d \<Rightarrow> Inr (dget settings key d))
           in case map_of defaults key of
                None \<Rightarrow> resolve
              | Some packaged \<Rightarrow>
                  (case declared of
                     None \<Rightarrow> Inl (RequiredInDefaults key)
                   | Some d \<Rightarrow> if d \<noteq> packaged then Inl (DisagreesWithDefaults key d packaged) else resolve)))"

definition required_options :: "broker_class \<Rightarrow> string list" where
  "required_options B = map fst (filter (\<lambda>(key, declared). declared = None) (bc_options B))"

definition or_empty :: "pyval \<Rightarrow> pyval" where
  "or_empty v = (if truthy v then v else PStr [])"

definition queue_name :: "py_text \<Rightarrow> pydict \<Rightarrow> broker_class \<Rightarrow> pydict \<Rightarrow> option_error + string" where
  "queue_name T defaults B settings =
     (let named = strip_if is_space (py_str T (or_empty (dget settings ''QUEUE'' (PStr []))))
      in if named \<noteq> [] then Inr named
         else if bc_queue_option B = [] then Inr []
         else (case broker_option defaults B settings (bc_queue_option B) of
                 Inl e \<Rightarrow> Inl e
               | Inr v \<Rightarrow> Inr (py_str T (or_empty v))))"

definition call_timeout :: "py_text \<Rightarrow> pydict \<Rightarrow> broker_class \<Rightarrow> pydict \<Rightarrow> option_error + rat" where
  "call_timeout T defaults B settings =
     (case broker_option defaults B settings (bc_timeout_option B) of
        Inl e \<Rightarrow> Inl e
      | Inr raw \<Rightarrow>
          (case float_text T (py_str T raw) of
             Some (Fin t) \<Rightarrow> if t \<le> 0 then Inl (BadDeadline (bc_timeout_option B) raw) else Inr t
           | _ \<Rightarrow> Inl (BadDeadline (bc_timeout_option B) raw)))"

section \<open>Properties\<close>

lemma named_queues_distinct [simp]: "distinct (named_queues qs)"
  by (cases qs) simp_all

lemma one_queue_Inr: "one_queue mine qs = Inr q \<Longrightarrow> q = mine"
  by (auto simp: one_queue_def Let_def split: if_splits)

text \<open>
   A deadline that reaches a driver is always a positive finite number: whatever the project
  configured, \<open>call_timeout\<close> either raises or answers a number above zero that the setting
  itself spells.
\<close>

theorem call_timeout_positive:
  assumes "call_timeout T defaults B settings = Inr t"
  shows "0 < t \<and> (\<exists>raw. broker_option defaults B settings (bc_timeout_option B) = Inr raw \<and>
    float_text T (py_str T raw) = Some (Fin t))"
  using assms by (auto simp: call_timeout_def split: sum.splits option.splits pyfloat.splits if_splits)

theorem call_timeout_positive_witness:
  "call_timeout \<lparr> float_text = (\<lambda>s. if s = ''10'' then Some (Fin 10) else None), str_of = (\<lambda>_. ''10'') \<rparr>
     [(''REDIS_TIMEOUT'', PInt 10)]
     \<lparr> bc_options = [(''REDIS_TIMEOUT'', Some (PInt 10))], bc_queue_option = [],
       bc_timeout_option = ''REDIS_TIMEOUT'' \<rparr> [] = Inr 10 \<and> (0 :: rat) < 10"
proof -
  have c: "call_timeout \<lparr> float_text = (\<lambda>s. if s = ''10'' then Some (Fin 10) else None), str_of = (\<lambda>_. ''10'') \<rparr>
     [(''REDIS_TIMEOUT'', PInt 10)]
     \<lparr> bc_options = [(''REDIS_TIMEOUT'', Some (PInt 10))], bc_queue_option = [],
       bc_timeout_option = ''REDIS_TIMEOUT'' \<rparr> [] = Inr 10"
    by (simp add: call_timeout_def broker_option_def dget_def py_str_def)
  show ?thesis using c call_timeout_positive [OF c] by blast
qed

text \<open>
   A required option is never silently defaulted: resolving one either raises or answers a
  value the project's settings hold under that key, and never a blank one.
\<close>

theorem required_option_is_set:
  assumes "key \<in> set (required_options B)" and "distinct (map fst (bc_options B))"
    and "broker_option defaults B settings key = Inr v"
  shows "map_of settings key = Some v \<and> \<not> blank v"
proof -
  from assms(1) have "(key, None) \<in> set (bc_options B)"
    by (auto simp: required_options_def)
  with assms(2) have "map_of (bc_options B) key = Some None" by simp
  with assms(3) have "dget settings key PNone = v \<and> \<not> blank v"
    by (auto simp: broker_option_def Let_def split: option.splits if_splits)
  then show ?thesis by (auto simp: dget_def blank_def split: option.splits)
qed

theorem required_option_is_set_witness:
  "broker_option [] \<lparr> bc_options = [(''KAFKA_TOPIC'', None)], bc_queue_option = ''KAFKA_TOPIC'',
      bc_timeout_option = [] \<rparr> [(''KAFKA_TOPIC'', PStr ''sends'')] ''KAFKA_TOPIC'' = Inr (PStr ''sends'') \<and>
   map_of [(''KAFKA_TOPIC'', PStr ''sends'')] ''KAFKA_TOPIC'' = Some (PStr ''sends'')"
proof -
  let ?B = "\<lparr> bc_options = [(''KAFKA_TOPIC'', None)], bc_queue_option = ''KAFKA_TOPIC'', bc_timeout_option = [] \<rparr>"
  have r: "''KAFKA_TOPIC'' \<in> set (required_options ?B)" by (simp add: required_options_def)
  have d: "distinct (map fst (bc_options ?B))" by simp
  have o: "broker_option [] ?B [(''KAFKA_TOPIC'', PStr ''sends'')] ''KAFKA_TOPIC'' = Inr (PStr ''sends'')"
    by (simp add: broker_option_def dget_def blank_def strip_if_def is_space_def)
  show ?thesis using o required_option_is_set [OF r d o] by blast
qed

end
