(* ===== verification/Delivery.thy ===== *)
theory Delivery
  imports BrokerBase
begin

text \<open>
  The consumer that moves queued messages to handlers, \<open>consumer/delivery.py\<close>: the books of
  one \<open>Delivery\<close> (sends in flight per queue and per bot, parked messages, finished sends),
  the settlement latch shared by a send's callbacks, and every method that moves them, from
  \<open>dispatch\<close> and \<open>_hand_over\<close> down to \<open>_took_a_slot_back\<close>.

  The handler is project code, so what a call does is an argument: for each call, the reports made
  through callbacks while it ran and whether it returned, raised or was cancelled.  Reports from
  the bot's event loop between calls are steps of their own.  The calls to \<open>broker.ack\<close> are
  collected in \<open>d_acked\<close>.
\<close>

section \<open>Configuration and state\<close>

record dconf =
  c_limit :: nat
  c_per_bot_limit :: nat
  c_defers :: bool
  c_releases :: bool
  c_own_queue :: string
  c_multiplexes :: bool

text \<open>
  The keyword arguments of a handler call.  A callback is named by the settlement latch it
  claims.
\<close>

datatype argument = Arg pyval | OnComplete nat | OnRefused nat

record 'h pending =
  p_envelope :: envelope
  p_call :: "(string \<times> argument) list"
  p_handle :: 'h
  p_queue :: string

abbreviation p_bot :: "'h pending \<Rightarrow> int option" where
  "p_bot p \<equiv> bot_id (p_envelope p)"

text \<open>
  \<open>d_live\<close> holds the settlement latches nobody has claimed, each with what the callbacks of
  its message captured: handle, bot and queue.  \<open>d_finished\<close> is the queue of settlements,
  with whether the message may be acknowledged.
\<close>

type_synonym 'h capture = "'h \<times> int option \<times> string"

record 'h dstate =
  d_queues :: "string list"
  d_asked :: "string list option"
  d_in_flight :: "(string \<times> int) list"
  d_sending :: "(int option \<times> int) list"
  d_parked :: "'h pending list"
  d_finished :: "('h capture \<times> bool) list"
  d_live :: "(nat \<times> 'h capture) list"
  d_token :: nat
  d_acked :: "'h list"
  d_stop :: bool

definition narrowed :: "dconf \<Rightarrow> string list \<Rightarrow> string list option" where
  "narrowed C qs = (if qs = [c_own_queue C] then None else Some qs)"

definition delivery_init :: "dconf \<Rightarrow> queue_arg \<Rightarrow> multiplexing_error + 'h dstate" where
  "delivery_init C queues =
     (let named = named_queues queues;
          qs = (if named = [] then [c_own_queue C] else named)
      in if 1 < length qs \<and> \<not> c_multiplexes C
         then Inl (QueueMultiplexingUnavailable qs [])
         else Inr \<lparr> d_queues = qs, d_asked = narrowed C qs, d_in_flight = map (\<lambda>q. (q, 0)) qs,
                    d_sending = [], d_parked = [], d_finished = [], d_live = [], d_token = 0,
                    d_acked = [], d_stop = False \<rparr>)"

section \<open>The books\<close>

definition counted_under :: "'h dstate \<Rightarrow> string \<Rightarrow> bool" where
  "counted_under s q = dhas (d_in_flight s) q"

definition queue_of :: "'h taken \<Rightarrow> 'h dstate \<Rightarrow> string" where
  "queue_of t s = (if counted_under s (tk_queue t) then tk_queue t else hd (d_queues s))"

definition forget_retired :: "'h dstate \<Rightarrow> 'h dstate" where
  "forget_retired s =
     s\<lparr> d_in_flight := filter (\<lambda>(q, held). q \<in> set (d_queues s) \<or> 0 < held) (d_in_flight s) \<rparr>"

definition in_flight :: "string \<Rightarrow> 'h dstate \<Rightarrow> int" where
  "in_flight q s =
     (if q \<noteq> [] then dget (d_in_flight s) q 0 else sum_list (map snd (d_in_flight s)))"

definition at_capacity :: "dconf \<Rightarrow> string \<Rightarrow> 'h dstate \<Rightarrow> bool" where
  "at_capacity C q s =
     (if c_limit C = 0 then False
      else if q \<noteq> [] then int (c_limit C) \<le> dget (d_in_flight s) q 0
      else (\<forall>q' \<in> set (d_queues s). int (c_limit C) \<le> dget (d_in_flight s) q' 0))"

definition readable :: "dconf \<Rightarrow> 'h dstate \<Rightarrow> string list option" where
  "readable C s =
     (case d_asked s of
        None \<Rightarrow> None
      | Some asked \<Rightarrow> Some (filter (\<lambda>q. \<not> at_capacity C q s) asked))"

definition one_less_sending :: "int option \<Rightarrow> 'h dstate \<Rightarrow> 'h dstate" where
  "one_less_sending b s =
     (let held = dget (d_sending s) b 0 - 1
      in s\<lparr> d_sending := (if 0 < held then dset b held (d_sending s) else ddel b (d_sending s)) \<rparr>)"

definition took_a_slot_back :: "int option \<Rightarrow> string \<Rightarrow> 'h dstate \<Rightarrow> 'h dstate" where
  "took_a_slot_back b q s =
     one_less_sending b (s\<lparr> d_in_flight := dset q (dget (d_in_flight s) q 1 - 1) (d_in_flight s) \<rparr>)"

definition at_its_own_capacity :: "dconf \<Rightarrow> int option \<Rightarrow> 'h dstate \<Rightarrow> bool" where
  "at_its_own_capacity C b s =
     (c_per_bot_limit C \<noteq> 0 \<and> int (c_per_bot_limit C) \<le> dget (d_sending s) b 0)"

definition acknowledge :: "'h \<Rightarrow> 'h dstate \<Rightarrow> 'h dstate" where
  "acknowledge h s = s\<lparr> d_acked := d_acked s @ [h] \<rparr>"

definition take_in_flight_slot :: "string \<Rightarrow> 'h dstate \<Rightarrow> 'h dstate" where
  "take_in_flight_slot q s =
     s\<lparr> d_in_flight := dset q (dget (d_in_flight s) q 0 + 1) (d_in_flight s) \<rparr>"

definition park :: "'h pending \<Rightarrow> 'h dstate \<Rightarrow> 'h dstate" where
  "park p s = (take_in_flight_slot (p_queue p) s)\<lparr> d_parked := d_parked s @ [p] \<rparr>"

section \<open>Settlement\<close>

text \<open>
  A callback claims its latch and queues a settlement; where the latch is already claimed it does
  nothing.
\<close>

definition report :: "nat \<Rightarrow> bool \<Rightarrow> 'h dstate \<Rightarrow> 'h dstate" where
  "report token delivered s =
     (case map_of (d_live s) token of
        None \<Rightarrow> s
      | Some captured \<Rightarrow>
          s\<lparr> d_live := ddel token (d_live s), d_finished := d_finished s @ [(captured, delivered)] \<rparr>)"

definition settle_one :: "'h capture \<times> bool \<Rightarrow> 'h dstate \<Rightarrow> 'h dstate" where
  "settle_one e s =
     (case e of ((h, b, q), delivered) \<Rightarrow>
        let s1 = took_a_slot_back b q s in if delivered then acknowledge h s1 else s1)"

section \<open>Handing over\<close>

datatype outcome = Returned | Raised | Cancelled

text \<open>
  What a handler does during a call, by the latch of the call: the callbacks that were invoked
  while it ran (its own or another message's, from any thread), and how it ended.
\<close>

type_synonym 'h handler = "nat \<Rightarrow> 'h pending \<Rightarrow> (nat \<times> bool) list \<times> outcome"

definition with_callbacks :: "dconf \<Rightarrow> nat \<Rightarrow> 'h pending \<Rightarrow> 'h pending" where
  "with_callbacks C token p =
     (if c_defers C
      then p\<lparr> p_call :=
             (let call = dset ''on_complete'' (OnComplete token) (p_call p)
              in if c_releases C then dset ''on_refused'' (OnRefused token) call else call) \<rparr>
      else p)"

definition begin_send :: "dconf \<Rightarrow> 'h pending \<Rightarrow> bool \<Rightarrow> 'h dstate \<Rightarrow> 'h dstate" where
  "begin_send C p counted s =
     (let s1 = s\<lparr> d_token := Suc (d_token s) \<rparr>
      in if \<not> c_defers C then s1
         else (let s2 = s1\<lparr> d_live := (d_token s, p_handle p, p_bot p, p_queue p) # d_live s1 \<rparr>;
                   s3 = (if counted then s2 else take_in_flight_slot (p_queue p) s2)
               in s3\<lparr> d_sending := dset (p_bot p) (dget (d_sending s3) (p_bot p) 0 + 1) (d_sending s3) \<rparr>))"

text \<open>
  \<open>_hand_over\<close> up to the point where a returned slot makes it look at the parked messages:
  the state, whether the message may be acknowledged, and whether the parked messages are to be
  handed over.
\<close>

definition call_handler ::
  "dconf \<Rightarrow> 'h handler \<Rightarrow> 'h pending \<Rightarrow> bool \<Rightarrow> 'h dstate \<Rightarrow> 'h dstate \<times> bool \<times> bool" where
  "call_handler C H p counted s =
     (let token = d_token s;
          (reports, ended) = H token (with_callbacks C token p);
          s2 = fold (\<lambda>(t, delivered). report t delivered) reports (begin_send C p counted s);
          unsettled = dhas (d_live s2) token;
          given_back = took_a_slot_back (p_bot p) (p_queue p) (s2\<lparr> d_live := ddel token (d_live s2) \<rparr>)
      in case ended of
           Returned \<Rightarrow> (s2, \<not> c_defers C, False)
         | Cancelled \<Rightarrow> if c_defers C \<and> unsettled then (given_back, False, True) else (s2, False, False)
         | Raised \<Rightarrow> if c_defers C \<and> unsettled then (given_back, True, True) else (s2, \<not> c_defers C, False))"

lemma d_parked_report [simp]: "d_parked (report t v s) = d_parked s"
  by (simp add: report_def split: option.splits)

lemma d_parked_reports [simp]: "d_parked (fold (\<lambda>(t, v). report t v) rs s) = d_parked s"
  by (induction rs arbitrary: s) auto

lemma d_parked_simps [simp]:
  "d_parked (took_a_slot_back b q s) = d_parked s"
  "d_parked (take_in_flight_slot q s) = d_parked s"
  "d_parked (begin_send C p counted s) = d_parked s"
  "d_parked (acknowledge h s) = d_parked s"
  by (simp_all add: took_a_slot_back_def one_less_sending_def take_in_flight_slot_def begin_send_def
      acknowledge_def Let_def)

lemma d_parked_call_handler: "d_parked (fst (call_handler C H p counted s)) = d_parked s"
  by (auto simp: call_handler_def Let_def split: outcome.splits prod.splits)

text \<open>
  The walk of \<open>_hand_over_parked\<close> over the messages that were parked.  A message whose bot
  is still at its budget is parked again; one that is handed over may fail, give its slot back
  and walk the messages parked so far before this walk goes on.
\<close>

function parked_loop :: "dconf \<Rightarrow> 'h handler \<Rightarrow> 'h pending list \<Rightarrow> 'h dstate \<Rightarrow> 'h dstate" where
  "parked_loop C H [] s = s"
| "parked_loop C H (p # waiting) s =
     (if at_its_own_capacity C (p_bot p) s
      then parked_loop C H waiting (s\<lparr> d_parked := d_parked s @ [p] \<rparr>)
      else (let r = call_handler C H p True s;
                s2 = (if snd (snd r)
                      then parked_loop C H (d_parked (fst r)) ((fst r)\<lparr> d_parked := [] \<rparr>) else fst r)
            in parked_loop C H waiting (if fst (snd r) then acknowledge (p_handle p) s2 else s2)))"
  by pat_completeness auto

termination
proof (relation "measures [\<lambda>(C, H, ws, s). length ws + length (d_parked s), \<lambda>(C, H, ws, s). length ws]")
  have shrinks: "length (d_parked (parked_loop C H ws s)) \<le> length ws + length (d_parked s)"
    if "parked_loop_dom (C, H, ws, s)" for C and H :: "'h handler" and ws s
    using that
  proof (induction rule: parked_loop.pinduct)
    case (2 C H p waiting s)
    note dom = "2.hyps"
    let ?r = "call_handler C H p True s"
    show ?case
    proof (cases "at_its_own_capacity C (p_bot p) s")
      case True
      with "2.IH"(1) dom show ?thesis by (simp add: parked_loop.psimps)
    next
      case False
      let ?s2 = "if snd (snd ?r)
                 then parked_loop C H (d_parked (fst ?r)) ((fst ?r)\<lparr> d_parked := [] \<rparr>) else fst ?r"
      have "length (d_parked ?s2) \<le> length (d_parked s)"
        using "2.IH"(2) [OF False refl] d_parked_call_handler [of C H p True s] by auto
      with "2.IH"(3) [OF False refl refl] show ?thesis
        using dom False by (auto simp: parked_loop.psimps Let_def)
    qed
  qed (simp add: parked_loop.psimps)
  fix C :: dconf and H :: "'h handler" and p waiting s r s2
  assume r: "r = call_handler C H p True s"
    and s2: "s2 = (if snd (snd r) then parked_loop C H (d_parked (fst r)) ((fst r)\<lparr> d_parked := [] \<rparr>) else fst r)"
    and dom: "snd (snd r) \<Longrightarrow> parked_loop_dom (C, H, d_parked (fst r), (fst r)\<lparr> d_parked := [] \<rparr>)"
  have "length (d_parked s2) \<le> length (d_parked s)"
    using shrinks [OF dom] by (cases "snd (snd r)") (simp_all add: s2 r d_parked_call_handler)
  then show "((C, H, waiting, if fst (snd r) then acknowledge (p_handle p) s2 else s2), C, H, p # waiting, s)
    \<in> measures [\<lambda>(C, H, ws, s). length ws + length (d_parked s), \<lambda>(C, H, ws, s). length ws]"
    by simp
qed (auto simp: d_parked_call_handler)

definition hand_over_parked :: "dconf \<Rightarrow> 'h handler \<Rightarrow> 'h dstate \<Rightarrow> 'h dstate" where
  "hand_over_parked C H s =
     (if d_parked s = [] then s else parked_loop C H (d_parked s) (s\<lparr> d_parked := [] \<rparr>))"

definition hand_over ::
  "dconf \<Rightarrow> 'h handler \<Rightarrow> 'h pending \<Rightarrow> bool \<Rightarrow> 'h dstate \<Rightarrow> 'h dstate \<times> bool" where
  "hand_over C H p counted s =
     (let r = call_handler C H p counted s
      in (if snd (snd r) then hand_over_parked C H (fst r) else fst r, fst (snd r)))"

text \<open>
  The walk, as the source writes it: hand over, and acknowledge where handing over says so.
\<close>

lemma parked_loop_hand_over:
  "parked_loop C H (p # waiting) s =
     (if at_its_own_capacity C (p_bot p) s
      then parked_loop C H waiting (s\<lparr> d_parked := d_parked s @ [p] \<rparr>)
      else (let (s2, ackn) = hand_over C H p True s
            in parked_loop C H waiting (if ackn then acknowledge (p_handle p) s2 else s2)))"
proof -
  have "parked_loop C H (d_parked x) (x\<lparr> d_parked := [] \<rparr>) = hand_over_parked C H x" for x
    by (simp add: hand_over_parked_def)
  then show ?thesis by (simp add: hand_over_def Let_def)
qed

definition collect :: "dconf \<Rightarrow> 'h handler \<Rightarrow> 'h dstate \<Rightarrow> 'h dstate" where
  "collect C H s = hand_over_parked C H (fold settle_one (d_finished s) (s\<lparr> d_finished := [] \<rparr>))"

section \<open>Waiting\<close>

text \<open>
  What other threads do while the consumer waits: callbacks that report, a request to stop, a
  change of the queues served.  A waiting loop is run against a list of such batches, one per
  turn; \<open>None\<close> is the loop still waiting when the list ends.
\<close>

definition serve :: "dconf \<Rightarrow> queue_arg \<Rightarrow> 'h dstate \<Rightarrow> multiplexing_error + 'h dstate" where
  "serve C queues s =
     (let asked = named_queues queues
      in if asked = [] then Inr s
         else if 1 < length asked \<and> \<not> c_multiplexes C then Inl (QueueMultiplexingUnavailable asked [])
         else Inr (s\<lparr> d_in_flight :=
                       fold (\<lambda>q d. if dhas d q then d else dset q 0 d) asked (d_in_flight s),
                     d_queues := asked, d_asked := narrowed C asked \<rparr>))"

datatype elsewhere = Reports nat bool | Stops | Serves queue_arg

fun apply_elsewhere :: "dconf \<Rightarrow> elsewhere \<Rightarrow> 'h dstate \<Rightarrow> 'h dstate" where
  "apply_elsewhere C (Reports token delivered) s = report token delivered s"
| "apply_elsewhere C Stops s = s\<lparr> d_stop := True \<rparr>"
| "apply_elsewhere C (Serves queues) s = (case serve C queues s of Inl _ \<Rightarrow> s | Inr s' \<Rightarrow> s')"

definition next_finished :: "'h dstate \<Rightarrow> 'h dstate" where
  "next_finished s =
     (case d_finished s of [] \<Rightarrow> s | e # es \<Rightarrow> settle_one e (s\<lparr> d_finished := es \<rparr>))"

fun waited_for_room ::
  "dconf \<Rightarrow> int option \<Rightarrow> elsewhere list list \<Rightarrow> 'h dstate \<Rightarrow> ('h dstate \<times> bool) option" where
  "waited_for_room C b feed s =
     (if at_its_own_capacity C b s \<and> \<not> d_stop s
      then (case feed of
              [] \<Rightarrow> None
            | es # feed' \<Rightarrow> waited_for_room C b feed' (next_finished (fold (apply_elsewhere C) es s)))
      else Some (s, \<not> d_stop s))"

fun hold_for_capacity ::
  "dconf \<Rightarrow> 'h handler \<Rightarrow> elsewhere list list \<Rightarrow> 'h dstate \<Rightarrow> 'h dstate option" where
  "hold_for_capacity C H feed s =
     (if at_capacity C [] s \<and> \<not> d_stop s
      then (case feed of
              [] \<Rightarrow> None
            | es # feed' \<Rightarrow>
                (let s1 = fold (apply_elsewhere C) es s
                 in hold_for_capacity C H feed'
                      (if d_finished s1 = [] then s1 else hand_over_parked C H (next_finished s1))))
      else Some s)"

section \<open>Reading and dispatching one message\<close>

text \<open>
  What a consumer is built from beside its own settings: how the bytes decode
  (\<open>wire/serializers.py\<close>), the Telegram method names, the route to a bot's handler if the
  process has one, and the identities of the bots it is configured for.
\<close>

datatype decoding = Decoded pyval | PickleReadRefused | Undecodable

record denv =
  e_text :: py_text
  e_loads :: "bytes \<Rightarrow> decoding"
  e_methods :: "string \<Rightarrow> bool"
  e_route :: "(int \<Rightarrow> bool) option"
  e_configured :: "int option list"

definition CONTROL_KEY :: string where
  "CONTROL_KEY = ''__control__''"

definition is_control :: "pyval \<Rightarrow> bool" where
  "is_control v = (case v of PDict d \<Rightarrow> dhas d CONTROL_KEY | _ \<Rightarrow> False)"

definition decoded :: "denv \<Rightarrow> bytes \<Rightarrow> pyval \<times> bool" where
  "decoded E raw =
     (case e_loads E raw of
        Decoded v \<Rightarrow> (v, True)
      | PickleReadRefused \<Rightarrow> (PNone, False)
      | Undecodable \<Rightarrow> (PNone, True))"

definition read_message :: "denv \<Rightarrow> bytes \<Rightarrow> envelope option \<times> bool" where
  "read_message E raw =
     (let (payload, readable) = decoded E raw
      in if payload = PNone then (None, readable)
         else if is_control payload then (None, True)
         else case unpack (e_text E) payload of
                Inr e \<Rightarrow> (Some e, True)
              | Inl (UnknownEnvelopeVersionError v) \<Rightarrow> (None, False)
              | Inl _ \<Rightarrow> (None, True))"

definition handler_for :: "denv \<Rightarrow> envelope \<Rightarrow> bool" where
  "handler_for E e =
     (case bot_id e of
        None \<Rightarrow> True
      | Some b \<Rightarrow>
          (case e_route E of
             Some route \<Rightarrow> route b
           | None \<Rightarrow> Some b \<in> set (e_configured E)))"

definition build_call :: "envelope \<Rightarrow> (string \<times> argument) list" where
  "build_call e =
     dset ''queued_at'' (Arg (PFloat (Fin (queued_at e))))
       (dset ''correlation_id''
          (Arg (case correlation_id e of None \<Rightarrow> PNone | Some u \<Rightarrow> PUuid u))
          (dset ''function'' (Arg (PStr (env_function e)))
             (map (\<lambda>(k, v). (k, Arg v)) (env_kwargs e))))"

definition dispatch ::
  "dconf \<Rightarrow> denv \<Rightarrow> 'h handler \<Rightarrow> elsewhere list list \<Rightarrow> bytes \<Rightarrow> 'h \<Rightarrow> string \<Rightarrow> 'h dstate
    \<Rightarrow> ('h dstate \<times> bool) option" where
  "dispatch C E H feed raw h on_queue s =
     (let q = (if counted_under s on_queue then on_queue else hd (d_queues s))
      in case read_message E raw of
           (None, ackn) \<Rightarrow> Some (s, ackn)
         | (Some e, _) \<Rightarrow>
             if \<not> e_methods E (env_function e) then Some (s, True)
             else if \<not> handler_for E e then Some (s, False)
             else (let p = \<lparr> p_envelope = e, p_call = build_call e, p_handle = h, p_queue = q \<rparr>
                   in if at_its_own_capacity C (bot_id e) s
                      then (if c_limit C = 0
                            then (case waited_for_room C (bot_id e) feed s of
                                    None \<Rightarrow> None
                                  | Some (s1, got) \<Rightarrow>
                                      if got then Some (hand_over C H p False s1) else Some (s1, False))
                            else Some (park p s, False))
                      else Some (hand_over C H p False s)))"

definition dispatch_taken ::
  "dconf \<Rightarrow> denv \<Rightarrow> 'h handler \<Rightarrow> elsewhere list list \<Rightarrow> 'h taken \<Rightarrow> 'h dstate \<Rightarrow> 'h dstate option" where
  "dispatch_taken C E H feed t s =
     (case dispatch C E H feed (tk_payload t) (tk_handle t) (queue_of t s) s of
        None \<Rightarrow> None
      | Some (s1, ackn) \<Rightarrow> Some (if ackn then acknowledge (tk_handle t) s1 else s1))"

section \<open>The loop\<close>

text \<open>
  One turn of \<open>run\<close>: collect, hold for capacity, and unless stopping, read and dispatch.
  \<open>between\<close> is what other threads do between the capacity gate and the read;
  \<open>answer\<close> is what the transport answers for the queues asked for, \<open>Inl\<close> for a read that
  raised.  The result is the state and whether the loop goes round again, \<open>None\<close> for a turn
  still waiting.
\<close>

definition read_and_dispatch ::
  "dconf \<Rightarrow> denv \<Rightarrow> 'h handler \<Rightarrow> elsewhere list list \<Rightarrow>
   (string list option \<Rightarrow> string + 'h taken option) \<Rightarrow> 'h dstate \<Rightarrow> 'h dstate option" where
  "read_and_dispatch C E H feed answer s =
     (let s1 = forget_retired s; asked = readable C s1
      in if asked = Some [] then Some s1
         else case answer asked of
                Inl _ \<Rightarrow> Some s1
              | Inr None \<Rightarrow> Some s1
              | Inr (Some t) \<Rightarrow> dispatch_taken C E H feed t s1)"

definition run_turn ::
  "dconf \<Rightarrow> denv \<Rightarrow> 'h handler \<Rightarrow> elsewhere list list \<Rightarrow> elsewhere list \<Rightarrow> elsewhere list list \<Rightarrow>
   (string list option \<Rightarrow> string + 'h taken option) \<Rightarrow> 'h dstate \<Rightarrow> ('h dstate \<times> bool) option" where
  "run_turn C E H holding between feed answer s =
     (if d_stop s then Some (collect C H s, False)
      else case hold_for_capacity C H holding (collect C H s) of
             None \<Rightarrow> None
           | Some s1 \<Rightarrow>
               if d_stop s1 then Some (collect C H s1, False)
               else map_option (\<lambda>s2. (s2, True))
                      (read_and_dispatch C E H feed answer (fold (apply_elsewhere C) between s1)))"

text \<open>\<open>consume_pending\<close>, over the list of what the non-blocking reads answer.\<close>

fun consume_pending ::
  "dconf \<Rightarrow> denv \<Rightarrow> 'h handler \<Rightarrow> elsewhere list list \<Rightarrow> 'h taken list \<Rightarrow> 'h dstate \<Rightarrow> 'h dstate option" where
  "consume_pending C E H feed takes s =
     (if d_stop s then Some s
      else (let s1 = collect C H s
            in if at_capacity C [] s1 then Some s1
               else (let s2 = forget_retired s1
                     in if readable C s2 = Some [] then Some s2
                        else case takes of
                               [] \<Rightarrow> Some (collect C H s2)
                             | t # takes' \<Rightarrow>
                                 (case dispatch_taken C E H feed t s2 of
                                    None \<Rightarrow> None
                                  | Some s3 \<Rightarrow> consume_pending C E H feed takes' (collect C H s3)))))"

declare waited_for_room.simps [simp del] hold_for_capacity.simps [simp del] consume_pending.simps [simp del]

end
