(* ===== verification/DeliveryBooks.thy ===== *)
theory DeliveryBooks
  imports Delivery
begin

text \<open>
  The accounting invariant of the consumer and what follows from it.  \<open>books C ws s\<close> says that
  the count of each queue is the sends it has outstanding, finished and parked (with \<open>ws\<close> the
  messages a walk over the parked ones has taken off the deque and not decided yet), and that the
  count of each bot is its sends outstanding and finished.  Every operation of \<open>Delivery\<close> keeps
  it.  \<open>ledger\<close> is the multiset of messages the consumer answers for.
\<close>

section \<open>The invariant\<close>

definition cap_queue :: "'h capture \<Rightarrow> string" where
  "cap_queue c = snd (snd c)"

definition cap_bot :: "'h capture \<Rightarrow> int option" where
  "cap_bot c = fst (snd c)"

lemma cap_simps [simp]: "cap_queue (h, b, q) = q" "cap_bot (h, b, q) = b"
  by (simp_all add: cap_queue_def cap_bot_def)

definition slots_of_queue :: "'h dstate \<Rightarrow> string \<Rightarrow> int" where
  "slots_of_queue s q =
     tally (\<lambda>(t, c). cap_queue c = q) (d_live s) + tally (\<lambda>(c, v). cap_queue c = q) (d_finished s) +
     tally (\<lambda>p. p_queue p = q) (d_parked s)"

definition sends_of_bot :: "'h dstate \<Rightarrow> int option \<Rightarrow> int" where
  "sends_of_bot s b =
     tally (\<lambda>(t, c). cap_bot c = b) (d_live s) + tally (\<lambda>(c, v). cap_bot c = b) (d_finished s)"

definition books :: "dconf \<Rightarrow> 'h pending list \<Rightarrow> 'h dstate \<Rightarrow> bool" where
  "books C ws s \<longleftrightarrow>
     (\<forall>q. dget (d_in_flight s) q 0 = slots_of_queue s q + tally (\<lambda>p. p_queue p = q) ws) \<and>
     (\<forall>b. dget (d_sending s) b 0 = sends_of_bot s b) \<and>
     distinct (map fst (d_in_flight s)) \<and> distinct (map fst (d_live s)) \<and> (\<forall>t\<in>set (map fst (d_live s)). t < d_token s) \<and>
     (\<not> c_defers C \<longrightarrow> ws = [] \<and> d_parked s = [] \<and> d_live s = [] \<and> d_finished s = [])"

lemma slots_nonneg [simp]: "0 \<le> slots_of_queue s q"
  by (simp add: slots_of_queue_def)

lemma sends_nonneg [simp]: "0 \<le> sends_of_bot s b"
  by (simp add: sends_of_bot_def)

lemmas books_defs = books_def slots_of_queue_def sends_of_bot_def

declare dict_simps [simp]

section \<open>Giving slots back\<close>

lemma dget_default: "0 < dget d k (0 :: int) \<Longrightarrow> dget d k 1 = dget d k 0"
  by (auto simp: dget_def split: option.splits)

lemma took_a_slot_back_frame [simp]:
  "d_live (took_a_slot_back b q s) = d_live s" "d_finished (took_a_slot_back b q s) = d_finished s"
  "d_token (took_a_slot_back b q s) = d_token s" "d_queues (took_a_slot_back b q s) = d_queues s"
  "d_asked (took_a_slot_back b q s) = d_asked s" "d_acked (took_a_slot_back b q s) = d_acked s"
  "d_stop (took_a_slot_back b q s) = d_stop s"
  by (simp_all add: took_a_slot_back_def one_less_sending_def Let_def)

lemma distinct_in_flight [simp]:
  "distinct (map fst (d_in_flight s)) \<Longrightarrow> distinct (map fst (d_in_flight (took_a_slot_back b q s)))"
  "distinct (map fst (d_in_flight s)) \<Longrightarrow> distinct (map fst (d_in_flight (take_in_flight_slot q s)))"
  by (simp_all add: took_a_slot_back_def one_less_sending_def take_in_flight_slot_def Let_def distinct_update)

lemma pos_dhas: "0 < dget d k (0 :: int) \<Longrightarrow> dhas d k"
  by (rule ccontr) (simp add: dget_not_dhas)

lemma dhas_took_a_slot_back:
  "0 < dget (d_in_flight s) q 0 \<Longrightarrow> dhas (d_in_flight (took_a_slot_back b q s)) q' = dhas (d_in_flight s) q'"
  using pos_dhas [of "d_in_flight s" q] by (auto simp: took_a_slot_back_def one_less_sending_def Let_def)

lemma took_a_slot_back_counts:
  assumes "0 < dget (d_in_flight s) q 0" and "0 < dget (d_sending s) b 0"
  shows "dget (d_in_flight (took_a_slot_back b q s)) q' 0 =
      dget (d_in_flight s) q' 0 - (if q' = q then 1 else 0)"
    and "dget (d_sending (took_a_slot_back b q s)) b' 0 =
      dget (d_sending s) b' 0 - (if b' = b then 1 else 0)"
  using assms dget_default [OF assms(1)]
  by (auto simp: took_a_slot_back_def one_less_sending_def Let_def)

lemma acknowledge_frame [simp]:
  "books C ws (acknowledge h s) = books C ws s"
  "at_its_own_capacity C b (acknowledge h s) = at_its_own_capacity C b s"
  "d_finished (acknowledge h s) = d_finished s" "d_live (acknowledge h s) = d_live s"
  "d_acked (acknowledge h s) = d_acked s @ [h]"
  by (simp_all add: acknowledge_def books_defs at_its_own_capacity_def)

section \<open>What an operation keeps\<close>

text \<open>
  \<open>answers_for ws s\<close>: the messages the consumer answers for, by handle, those already
  acknowledged included.  \<open>in_budget\<close>: no bot has more sends in flight than it may.
\<close>

definition answers_for :: "'h pending list \<Rightarrow> 'h dstate \<Rightarrow> 'h multiset" where
  "answers_for ws s =
     mset (map (\<lambda>(t, c). fst c) (d_live s)) + mset (map (\<lambda>(c, v). fst c) (d_finished s)) +
     mset (map p_handle (d_parked s)) + mset (map p_handle ws) + mset (d_acked s)"

definition in_budget :: "dconf \<Rightarrow> 'h dstate \<Rightarrow> bool" where
  "in_budget C s \<longleftrightarrow>
     c_per_bot_limit C \<noteq> 0 \<longrightarrow> (\<forall>b. dget (d_sending s) b 0 \<le> int (c_per_bot_limit C))"

definition same_reading :: "'h dstate \<Rightarrow> 'h dstate \<Rightarrow> bool" where
  "same_reading s s' \<longleftrightarrow>
     d_queues s' = d_queues s \<and> d_asked s' = d_asked s \<and>
     (\<forall>q. dhas (d_in_flight s') q = dhas (d_in_flight s) q)"

text \<open>
  \<open>keeps C (ws, s) (ws', s')\<close>: going from the one to the other keeps the books and the bots'
  budgets, takes no slot of any queue, answers for no message anew and leaves the set of queues
  alone.
\<close>

definition keeps :: "dconf \<Rightarrow> 'h pending list \<times> 'h dstate \<Rightarrow> 'h pending list \<times> 'h dstate \<Rightarrow> bool" where
  "keeps C x y \<longleftrightarrow>
     (books C (fst x) (snd x) \<and> in_budget C (snd x) \<longrightarrow>
        books C (fst y) (snd y) \<and> in_budget C (snd y) \<and>
        (\<forall>q. dget (d_in_flight (snd y)) q 0 \<le> dget (d_in_flight (snd x)) q 0) \<and>
        answers_for (fst y) (snd y) \<subseteq># answers_for (fst x) (snd x) \<and> same_reading (snd x) (snd y))"

lemma keepsI:
  assumes "\<And>q. \<lbrakk> books C ws s; in_budget C s \<rbrakk> \<Longrightarrow> dget (d_in_flight s') q 0 \<le> dget (d_in_flight s) q 0"
    and "\<lbrakk> books C ws s; in_budget C s \<rbrakk> \<Longrightarrow> books C ws' s'"
    and "\<lbrakk> books C ws s; in_budget C s \<rbrakk> \<Longrightarrow> in_budget C s'"
    and "\<lbrakk> books C ws s; in_budget C s \<rbrakk> \<Longrightarrow> answers_for ws' s' \<subseteq># answers_for ws s"
    and "\<lbrakk> books C ws s; in_budget C s \<rbrakk> \<Longrightarrow> same_reading s s'"
  shows "keeps C (ws, s) (ws', s')"
  using assms by (simp add: keeps_def)

lemma keeps_refl [simp]: "keeps C x x"
  by (simp add: keeps_def same_reading_def)

lemma same_reading_trans: "\<lbrakk> same_reading x y; same_reading y z \<rbrakk> \<Longrightarrow> same_reading x z"
  by (simp add: same_reading_def)

lemma keeps_trans [trans]: "\<lbrakk> keeps C x y; keeps C y z \<rbrakk> \<Longrightarrow> keeps C x z"
  unfolding keeps_def by (meson order_trans subset_mset.order_trans same_reading_trans)

lemma in_budget_le:
  "\<lbrakk> in_budget C s; \<And>b. dget (d_sending s') b 0 \<le> dget (d_sending s) b 0 \<rbrakk> \<Longrightarrow> in_budget C s'"
  unfolding in_budget_def by (meson order_trans)

section \<open>Every operation keeps the books\<close>

lemma keeps_report: "keeps C (ws, s) (ws, report t v s)"
proof (cases "map_of (d_live s) t")
  case None
  then show ?thesis by (simp add: report_def)
next
  case (Some c)
  show ?thesis
  proof (rule keepsI)
    assume b: "books C ws s" and "in_budget C s"
    then have d: "distinct (map fst (d_live s))" by (simp add: books_def)
    note gone = tally_delete [OF d Some] mset_delete [OF d Some]
    show "books C ws (report t v s)"
      using b gone distinct_delete [OF d, of t]
      by (auto simp: report_def Some books_defs tally_simps delete_keys)
    show "answers_for ws (report t v s) \<subseteq># answers_for ws s"
      by (simp add: report_def Some answers_for_def gone)
  qed (simp_all add: report_def Some in_budget_def same_reading_def)
qed

lemma keeps_reports: "keeps C (ws, s) (ws, fold (\<lambda>(t, v). report t v) rs s)"
proof (induction rs arbitrary: s)
  case (Cons r rs)
  obtain t v where r: "r = (t, v)" by (cases r)
  have "keeps C (ws, s) (ws, report t v s)" by (rule keeps_report)
  also have "keeps C (ws, report t v s) (ws, fold (\<lambda>(t, v). report t v) rs (report t v s))"
    by (rule Cons.IH)
  finally show ?case by (simp add: r)
qed simp

text \<open>A slot given back for a send that was outstanding.\<close>

lemma keeps_give_back:
  assumes "map_of (d_live s) t = Some (h, b, q)"
  shows "keeps C (ws, s) (ws, took_a_slot_back b q (s\<lparr> d_live := ddel t (d_live s) \<rparr>))"
proof (rule keepsI)
  let ?s = "s\<lparr> d_live := ddel t (d_live s) \<rparr>"
  assume b: "books C ws s" and i: "in_budget C s"
  then have d: "distinct (map fst (d_live s))" by (simp add: books_def)
  note gone = tally_delete [OF d assms] mset_delete [OF d assms]
  have pos: "0 < dget (d_in_flight ?s) q 0" "0 < dget (d_sending ?s) b 0"
    using b gone by (auto simp: books_defs add_strict_increasing add_nonneg_nonneg intro: add_pos_nonneg)
  note counts = took_a_slot_back_counts [OF pos]
  show "books C ws (took_a_slot_back b q ?s)"
    using b gone distinct_delete [OF d, of t]
    by (auto simp: books_defs counts delete_keys)
  show "dget (d_in_flight (took_a_slot_back b q ?s)) q' 0 \<le> dget (d_in_flight s) q' 0" for q'
    by (simp add: counts)
  show "in_budget C (took_a_slot_back b q ?s)"
    using i by (rule in_budget_le) (simp add: counts)
  show "answers_for ws (took_a_slot_back b q ?s) \<subseteq># answers_for ws s"
    by (simp add: answers_for_def gone)
  show "same_reading s (took_a_slot_back b q ?s)"
    using dhas_took_a_slot_back [OF pos(1)] by (simp add: same_reading_def)
qed

lemma one_in_sum:
  fixes a b c d :: int
  assumes "0 \<le> a" "0 \<le> b"
  shows "0 < a + (1 + b)" and "0 \<le> c \<Longrightarrow> 0 < a + (1 + b) + c" and "\<lbrakk> 0 \<le> c; 0 \<le> d \<rbrakk> \<Longrightarrow> 0 < a + (1 + b) + c + d"
  using assms by simp_all

lemma keeps_settle_one: "keeps C (ws, s\<lparr> d_finished := (c, v) # es \<rparr>) (ws, settle_one (c, v) (s\<lparr> d_finished := es \<rparr>))"
proof (rule keepsI)
  let ?s = "s\<lparr> d_finished := (c, v) # es \<rparr>" and ?t = "s\<lparr> d_finished := es \<rparr>"
  obtain h b q where c: "c = (h, b, q)" by (cases c)
  assume b: "books C ws ?s" and i: "in_budget C ?s"
  have pos: "0 < dget (d_in_flight ?t) q 0" "0 < dget (d_sending ?t) b 0"
    using b by (auto simp: books_defs tally_simps c intro!: one_in_sum add_nonneg_nonneg)
  note counts = took_a_slot_back_counts [OF pos]
  have one: "settle_one (c, v) ?t =
      (if v then acknowledge h (took_a_slot_back b q ?t) else took_a_slot_back b q ?t)"
    by (simp add: settle_one_def c Let_def)
  have "books C ws (took_a_slot_back b q ?t)"
    using b by (auto simp: books_defs counts tally_simps c)
  then show "books C ws (settle_one (c, v) ?t)" by (simp add: one)
  show "dget (d_in_flight (settle_one (c, v) ?t)) q' 0 \<le> dget (d_in_flight ?s) q' 0" for q'
    using counts by (simp add: one acknowledge_def)
  show "in_budget C (settle_one (c, v) ?t)"
    using i counts by (rule_tac in_budget_le) (auto simp: one acknowledge_def)
  show "answers_for ws (settle_one (c, v) ?t) \<subseteq># answers_for ws ?s"
    unfolding one by (simp add: answers_for_def acknowledge_def c)
  show "same_reading ?s (settle_one (c, v) ?t)"
    using dhas_took_a_slot_back [OF pos(1)] by (simp add: one same_reading_def acknowledge_def)
qed

lemma keeps_next_finished: "keeps C (ws, s) (ws, next_finished s)"
proof (cases "d_finished s")
  case Nil
  then show ?thesis by (simp add: next_finished_def)
next
  case (Cons e es)
  obtain c v where e: "e = (c, v)" by (cases e)
  have "s\<lparr> d_finished := (c, v) # es \<rparr> = s" using Cons e by simp
  with keeps_settle_one [where C = C and ws = ws and s = s and c = c and v = v and es = es] Cons e
  show ?thesis by (simp add: next_finished_def)
qed

lemma keeps_settle_all: "keeps C (ws, s\<lparr> d_finished := es \<rparr>) (ws, fold settle_one es (s\<lparr> d_finished := [] \<rparr>))"
proof (induction es arbitrary: s)
  case (Cons e es)
  obtain c v where e: "e = (c, v)" by (cases e)
  have move: "(settle_one e (s\<lparr> d_finished := fs \<rparr>)) = (settle_one e s)\<lparr> d_finished := fs \<rparr>" for fs
    by (auto simp: e settle_one_def took_a_slot_back_def one_less_sending_def acknowledge_def Let_def
        split: prod.splits)
  have "keeps C (ws, s\<lparr> d_finished := e # es \<rparr>) (ws, settle_one e (s\<lparr> d_finished := es \<rparr>))"
    unfolding e by (rule keeps_settle_one)
  also have "keeps C (ws, settle_one e (s\<lparr> d_finished := es \<rparr>))
      (ws, fold settle_one es (settle_one e (s\<lparr> d_finished := [] \<rparr>)))"
    unfolding move by (rule Cons.IH)
  finally show ?case by simp
qed simp

section \<open>Handing over\<close>

lemma keeps_begin_send:
  assumes "\<not> at_its_own_capacity C (p_bot p) s" and "c_defers C"
  shows "keeps C (p # ws, s) (ws, begin_send C p True s)"
proof (rule keepsI)
  assume b: "books C (p # ws) s" and i: "in_budget C s"
  show "books C ws (begin_send C p True s)"
    using b assms(2) by (auto simp: books_defs begin_send_def Let_def tally_simps less_Suc_eq)
  show "in_budget C (begin_send C p True s)"
    using i assms by (auto simp: in_budget_def begin_send_def Let_def at_its_own_capacity_def)
qed (simp_all add: assms(2) begin_send_def Let_def answers_for_def same_reading_def)

lemma map_of_live_report: "map_of (d_live (report t v s)) k = (if k = t then None else map_of (d_live s) k)"
  by (auto simp: report_def delete_conv' split: option.splits)

lemma map_of_live_reports:
  "map_of (d_live (fold (\<lambda>(t, v). report t v) rs s)) k \<in> {None, map_of (d_live s) k}"
proof (induction rs arbitrary: s)
  case (Cons r rs)
  from Cons.IH [of "report (fst r) (snd r) s"] show ?case
    by (auto simp: map_of_live_report split_def split: if_splits)
qed simp

definition acked_call :: "'h pending \<Rightarrow> 'h dstate \<times> bool \<times> bool \<Rightarrow> 'h dstate" where
  "acked_call p r = (if fst (snd r) then acknowledge (p_handle p) (fst r) else fst r)"

lemma answers_for_ack:
  "answers_for ws (acknowledge h s) = add_mset h (answers_for ws s)"
  by (simp add: answers_for_def acknowledge_def)

lemma keeps_call_handler:
  assumes room: "\<not> at_its_own_capacity C (p_bot p) s"
  shows "keeps C (p # ws, s) (ws, acked_call p (call_handler C H p True s))"
proof (cases "c_defers C")
  case False
  then show ?thesis by (simp add: keeps_def books_def)
next
  case True
  define token where "token = d_token s"
  obtain reports ended where H: "H token (with_callbacks C token p) = (reports, ended)"
    by (metis prod.exhaust)
  define s1 where "s1 = begin_send C p True s"
  define s2 where "s2 = fold (\<lambda>(t, v). report t v) reports s1"
  define given where "given = took_a_slot_back (p_bot p) (p_queue p) (s2\<lparr> d_live := ddel token (d_live s2) \<rparr>)"
  have call: "call_handler C H p True s =
      (case ended of
         Returned \<Rightarrow> (s2, False, False)
       | Cancelled \<Rightarrow> if dhas (d_live s2) token then (given, False, True) else (s2, False, False)
       | Raised \<Rightarrow> if dhas (d_live s2) token then (given, True, True) else (s2, False, False))"
    using True H by (simp add: call_handler_def Let_def token_def s1_def s2_def given_def split: outcome.splits)
  have "keeps C (p # ws, s) (ws, s1)"
    unfolding s1_def by (rule keeps_begin_send [OF room True])
  also have "keeps C (ws, s1) (ws, s2)" unfolding s2_def by (rule keeps_reports)
  finally have s2: "keeps C (p # ws, s) (ws, s2)" .
  have live: "map_of (d_live s2) token = Some (p_handle p, p_bot p, p_queue p)" if "dhas (d_live s2) token"
  proof -
    have "map_of (d_live s1) token = Some (p_handle p, p_bot p, p_queue p)"
      using True by (simp add: s1_def begin_send_def Let_def token_def)
    with map_of_live_reports [of reports s1 token] that
    show ?thesis unfolding s2_def dhas_iff by auto
  qed
  have given: "keeps C (p # ws, s) (ws, given)" if "dhas (d_live s2) token"
    using s2 keeps_give_back [OF live [OF that]] unfolding given_def by (rule keeps_trans)
  have acked: "keeps C (p # ws, s) (ws, acknowledge (p_handle p) given)" if t: "dhas (d_live s2) token"
  proof (rule keepsI)
    assume b: "books C (p # ws) s" and i: "in_budget C s"
    note kept = given [OF t, unfolded keeps_def, simplified, rule_format, OF conjI, OF b i]
    show "books C ws (acknowledge (p_handle p) given)" using kept by simp
    show "in_budget C (acknowledge (p_handle p) given)"
      using kept by (simp add: acknowledge_def in_budget_def)
    show "dget (d_in_flight (acknowledge (p_handle p) given)) q 0 \<le> dget (d_in_flight s) q 0" for q
      using kept by (simp add: acknowledge_def)
    show "same_reading s (acknowledge (p_handle p) given)"
      using kept by (simp add: acknowledge_def same_reading_def)
    have "books C ws s2" "in_budget C s2" "answers_for ws s2 \<subseteq># answers_for (p # ws) s"
      using s2 b i by (simp_all add: keeps_def)
    then have "distinct (map fst (d_live s2))" by (simp add: books_def)
    from mset_delete [OF this live [OF t]]
    have "answers_for ws s2 = answers_for ws (acknowledge (p_handle p) given)"
      by (simp add: answers_for_def acknowledge_def given_def)
    with \<open>answers_for ws s2 \<subseteq># _\<close>
    show "answers_for ws (acknowledge (p_handle p) given) \<subseteq># answers_for (p # ws) s" by simp
  qed
  show ?thesis using s2 given acked by (simp add: call acked_call_def split: outcome.splits)
qed

lemma keeps_unpark: "keeps C (ws, s) (d_parked s @ ws, s\<lparr> d_parked := [] \<rparr>)"
  by (rule keepsI) (auto simp: books_defs tally_simps in_budget_def answers_for_def same_reading_def)

lemma keeps_park_again: "keeps C (p # ws, s) (ws, s\<lparr> d_parked := d_parked s @ [p] \<rparr>)"
  by (rule keepsI) (auto simp: books_defs tally_simps in_budget_def answers_for_def same_reading_def)

lemma keeps_acknowledge:
  "keeps C (ws, s) (ws', s') \<Longrightarrow> keeps C (ws, acknowledge h s) (ws', acknowledge h s')"
  by (simp add: keeps_def answers_for_ack) (simp add: acknowledge_def in_budget_def same_reading_def)

lemma keeps_parked_loop: "keeps C (ws @ extra, s) (extra, parked_loop C H ws s)"
proof (induction C H ws s arbitrary: extra rule: parked_loop.induct)
  case (1 C H s)
  then show ?case by simp
next
  case (2 C H p waiting s)
  show ?case
  proof (cases "at_its_own_capacity C (p_bot p) s")
    case True
    have "keeps C (p # waiting @ extra, s) (waiting @ extra, s\<lparr> d_parked := d_parked s @ [p] \<rparr>)"
      by (rule keeps_park_again)
    also have "keeps C (waiting @ extra, s\<lparr> d_parked := d_parked s @ [p] \<rparr>) (extra, parked_loop C H (p # waiting) s)"
      using "2.IH"(1) [OF True] True by simp
    finally show ?thesis by simp
  next
    case False
    define r where "r = call_handler C H p True s"
    define s2 where "s2 = (if snd (snd r)
        then parked_loop C H (d_parked (fst r)) ((fst r)\<lparr> d_parked := [] \<rparr>) else fst r)"
    have walked: "keeps C (waiting @ extra, fst r) (waiting @ extra, s2)"
    proof (cases "snd (snd r)")
      case True
      note IH = "2.IH"(2) [OF False refl, folded r_def, OF True]
      show ?thesis using keeps_trans [OF keeps_unpark IH] True by (simp add: s2_def)
    qed (simp add: s2_def)
    let ?s3 = "if fst (snd r) then acknowledge (p_handle p) s2 else s2"
    have "keeps C (p # waiting @ extra, s) (waiting @ extra, acked_call p r)"
      unfolding r_def by (rule keeps_call_handler [OF False])
    also have "keeps C (waiting @ extra, acked_call p r) (waiting @ extra, ?s3)"
      using walked keeps_acknowledge [OF walked] by (simp add: acked_call_def)
    also have "keeps C (waiting @ extra, ?s3) (extra, parked_loop C H waiting ?s3)"
      unfolding r_def s2_def by (rule "2.IH"(3) [OF False refl refl])
    also have "parked_loop C H waiting ?s3 = parked_loop C H (p # waiting) s"
      using False by (simp only: parked_loop.simps Let_def if_False r_def s2_def)
    finally show ?thesis by simp
  qed
qed

lemma keeps_hand_over_parked: "keeps C (ws, s) (ws, hand_over_parked C H s)"
  using keeps_trans [OF keeps_unpark keeps_parked_loop]
  by (auto simp: hand_over_parked_def)

lemma keeps_collect: "keeps C (ws, s) (ws, collect C H s)"
proof -
  have "keeps C (ws, s\<lparr> d_finished := d_finished s \<rparr>) (ws, fold settle_one (d_finished s) (s\<lparr> d_finished := [] \<rparr>))"
    by (rule keeps_settle_all)
  from keeps_trans [OF this keeps_hand_over_parked] show ?thesis by (simp add: collect_def)
qed

section \<open>Dispatching and waiting\<close>

text \<open>
  A slot of the queue taken for a message that has just been read; with deferring handlers, handing
  a read message over is taking the slot and handing it over as a parked one.
\<close>

lemma uncounted_is_slot_first:
  assumes "c_defers C"
  shows "call_handler C H p False s = call_handler C H p True (take_in_flight_slot (p_queue p) s)"
proof -
  have "begin_send C p False s = begin_send C p True (take_in_flight_slot (p_queue p) s)"
    using assms by (simp add: begin_send_def take_in_flight_slot_def Let_def)
  then show ?thesis by (simp add: call_handler_def take_in_flight_slot_def Let_def)
qed

lemma at_its_own_capacity_slot [simp]:
  "at_its_own_capacity C b (take_in_flight_slot q s) = at_its_own_capacity C b s"
  by (simp add: at_its_own_capacity_def take_in_flight_slot_def)

text \<open>
  \<open>takes C qs hs s s'\<close>: going from \<open>s\<close> to \<open>s'\<close> keeps the books and the budgets,
  takes no more slots of a queue than \<open>qs\<close> names it, and answers for no more messages than
  those of \<open>hs\<close>.
\<close>

definition takes :: "dconf \<Rightarrow> string list \<Rightarrow> 'h list \<Rightarrow> 'h dstate \<Rightarrow> 'h dstate \<Rightarrow> bool" where
  "takes C qs hs s s' \<longleftrightarrow>
     (books C [] s \<and> in_budget C s \<longrightarrow>
        books C [] s' \<and> in_budget C s' \<and>
        (\<forall>q. dget (d_in_flight s') q 0 \<le> dget (d_in_flight s) q 0 + tally (\<lambda>q'. q' = q) qs) \<and>
        answers_for [] s' \<subseteq># mset hs + answers_for [] s)"

lemma takes_trans:
  assumes "takes C qs hs s s1" and "takes C qs' hs' s1 s2"
  shows "takes C (qs @ qs') (hs @ hs') s s2"
  unfolding takes_def
proof (intro impI conjI allI)
  assume "books C [] s \<and> in_budget C s"
  with assms(1) have 1: "books C [] s1 \<and> in_budget C s1"
    "dget (d_in_flight s1) q 0 \<le> dget (d_in_flight s) q 0 + tally (\<lambda>q'. q' = q) qs"
    "answers_for [] s1 \<subseteq># mset hs + answers_for [] s" for q
    by (simp_all add: takes_def)
  with assms(2) have 2: "books C [] s2" "in_budget C s2"
    "dget (d_in_flight s2) q 0 \<le> dget (d_in_flight s1) q 0 + tally (\<lambda>q'. q' = q) qs'"
    "answers_for [] s2 \<subseteq># mset hs' + answers_for [] s1" for q
    by (simp_all add: takes_def)
  show "books C [] s2" "in_budget C s2" by (rule 2)+
  show "dget (d_in_flight s2) q 0 \<le> dget (d_in_flight s) q 0 + tally (\<lambda>q'. q' = q) (qs @ qs')" for q
    using 1(2) [of q] 2(3) [of q] by (simp add: tally_simps)
  have "mset hs' + answers_for [] s1 \<subseteq># mset hs' + (mset hs + answers_for [] s)"
    using 1(3) by simp
  then show "answers_for [] s2 \<subseteq># mset (hs @ hs') + answers_for [] s"
    using 2(4) by (metis mset_append subset_mset.order_trans union_assoc union_commute)
qed

lemma keeps_is_takes: "keeps C ([], s) ([], s') \<Longrightarrow> takes C [] [] s s'"
  by (simp add: takes_def keeps_def tally_simps)

lemmas takes_keeps = takes_trans [OF _ keeps_is_takes, simplified]
lemmas keeps_takes = takes_trans [OF keeps_is_takes, simplified]

lemma takes_slot:
  assumes "keeps C ([p], take_in_flight_slot (p_queue p) s) ([], s')" and "c_defers C"
  shows "takes C [p_queue p] [p_handle p] s s'"
proof -
  let ?t = "take_in_flight_slot (p_queue p) s"
  have "books C [p] ?t" if "books C [] s"
    using that assms(2) by (auto simp: books_defs take_in_flight_slot_def tally_simps distinct_update)
  moreover have "in_budget C ?t = in_budget C s"
    "answers_for [p] ?t = add_mset (p_handle p) (answers_for [] s)"
    by (simp_all add: in_budget_def take_in_flight_slot_def answers_for_def)
  moreover have "dget (d_in_flight ?t) q 0 = dget (d_in_flight s) q 0 + tally (\<lambda>q'. q' = q) [p_queue p]" for q
    by (simp add: take_in_flight_slot_def tally_simps)
  ultimately show ?thesis using assms(1) by (simp add: takes_def keeps_def)
qed

lemma takes_park: "c_defers C \<Longrightarrow> takes C [p_queue p] [p_handle p] s (park p s)"
  by (rule takes_slot) (simp_all add: park_def keeps_park_again [of C p "[]" "take_in_flight_slot (p_queue p) s", simplified])

lemma takes_more: "takes C [] [] s s' \<Longrightarrow> takes C qs hs s s'"
  unfolding takes_def
  by (auto simp: tally_simps intro: subset_mset.order_trans add_increasing2)

lemma takes_ack: "takes C qs [h] s (acknowledge h s)"
  by (simp add: takes_def answers_for_ack) (simp add: acknowledge_def in_budget_def)

text \<open>Without deferring handlers nothing is counted: a call leaves the books as they were.\<close>

lemma reports_without_live: "d_live s = [] \<Longrightarrow> fold (\<lambda>(t, v). report t v) rs s = s"
  by (induction rs arbitrary: s) (auto simp: report_def)

lemma call_without_deferring:
  assumes "\<not> c_defers C" and "d_live s = []"
  shows "fst (call_handler C H p counted s) = s\<lparr> d_token := Suc (d_token s) \<rparr>"
    and "\<not> snd (snd (call_handler C H p counted s))"
  using assms by (auto simp: call_handler_def begin_send_def Let_def reports_without_live
      split: prod.splits outcome.splits)

definition acked_result :: "'h \<Rightarrow> 'h dstate \<times> bool \<Rightarrow> 'h dstate" where
  "acked_result h r = (if snd r then acknowledge h (fst r) else fst r)"

lemma takes_hand_over:
  assumes room: "\<not> at_its_own_capacity C (p_bot p) s"
  shows "takes C [p_queue p] [p_handle p] s (acked_result (p_handle p) (hand_over C H p False s))"
proof (cases "c_defers C")
  case True
  define r where "r = call_handler C H p True (take_in_flight_slot (p_queue p) s)"
  define s' where "s' = (if snd (snd r) then hand_over_parked C H (fst r) else fst r)"
  have over: "hand_over C H p False s = (s', fst (snd r))"
    by (simp only: hand_over_def uncounted_is_slot_first [OF True] Let_def r_def s'_def)
  have "keeps C ([p], take_in_flight_slot (p_queue p) s) ([], acked_call p r)"
    unfolding r_def by (rule keeps_call_handler) (simp add: room)
  also have "keeps C ([], acked_call p r) ([], acked_result (p_handle p) (s', fst (snd r)))"
    using keeps_hand_over_parked [where C = C and ws = "[]" and s = "fst r" and H = H]
    by (simp add: acked_call_def acked_result_def s'_def keeps_acknowledge)
  finally show ?thesis unfolding over by (rule takes_slot [OF _ True])
next
  case False
  show ?thesis
  proof (cases "d_live s = []")
    case True
    note call = call_without_deferring [OF False True, where H = H and p = p and counted = False]
    have "keeps C ([], s) ([], s\<lparr> d_token := Suc (d_token s) \<rparr>)"
      by (rule keepsI) (auto simp: books_defs in_budget_def answers_for_def same_reading_def less_SucI)
    then show ?thesis
      using keeps_takes [OF _ takes_ack] takes_more [OF keeps_is_takes]
      by (auto simp: hand_over_def Let_def call acked_result_def)
  next
    case False
    with \<open>\<not> c_defers C\<close> show ?thesis by (simp add: takes_def books_def)
  qed
qed

lemma dget_serve [simp]:
  "dget (fold (\<lambda>q d. if dhas d q then d else dset q 0 d) qs d) q 0 = dget d q (0 :: int)"
  by (induction qs arbitrary: d) (auto simp: dget_not_dhas)

lemma distinct_serve [simp]:
  "distinct (map fst d) \<Longrightarrow>
   distinct (map fst (fold (\<lambda>q d. if dhas d q then d else dset q 0 d) qs d))"
  by (induction qs arbitrary: d) (auto simp: distinct_update)

lemma takes_elsewhere: "takes C [] [] s (apply_elsewhere C e s)"
proof (cases e)
  case (Serves queues)
  then show ?thesis
    by (auto simp: takes_def serve_def Let_def books_defs in_budget_def answers_for_def tally_simps split: sum.splits)
qed (auto intro!: keeps_is_takes keeps_report keepsI
    simp: books_defs in_budget_def answers_for_def same_reading_def)

lemma takes_elsewheres: "takes C [] [] s (fold (apply_elsewhere C) es s)"
proof (induction es arbitrary: s)
  case (Cons e es)
  from takes_trans [OF takes_elsewhere Cons.IH] show ?case by simp
qed (simp add: takes_def tally_simps)

lemma takes_refl: "takes C [] [] s s"
  by (simp add: takes_def tally_simps)

lemma takes_waited_for_room:
  "waited_for_room C b feed s = Some (s', got) \<Longrightarrow>
   takes C [] [] s s' \<and> (got \<longrightarrow> \<not> at_its_own_capacity C b s')"
proof (induction C b feed s rule: waited_for_room.induct)
  case (1 C b feed s)
  show ?case
  proof (cases "at_its_own_capacity C b s \<and> \<not> d_stop s")
    case True
    with "1.prems" obtain es feed' where feed: "feed = es # feed'"
      by (auto simp: waited_for_room.simps [of C b feed s] split: list.splits)
    let ?s = "next_finished (fold (apply_elsewhere C) es s)"
    have "takes C [] [] s' s''" if "takes C [] [] s' ?s" "takes C [] [] ?s s''" for s' s''
      using takes_trans [OF that] by simp
    moreover have "takes C [] [] s ?s"
      by (rule takes_keeps [OF takes_elsewheres keeps_next_finished])
    moreover have "waited_for_room C b feed' ?s = Some (s', got)"
      using "1.prems" True by (simp add: feed waited_for_room.simps [of C b "es # feed'" s])
    ultimately show ?thesis using "1.IH" [OF True feed] by blast
  next
    case False
    with "1.prems" show ?thesis by (auto simp: waited_for_room.simps [of C b feed s] takes_refl split: if_splits)
  qed
qed

text \<open>As long as nobody changes the queues served, waiting leaves them alone as well.\<close>

definition no_serves :: "elsewhere list \<Rightarrow> bool" where
  "no_serves es \<longleftrightarrow> (\<forall>e \<in> set es. \<forall>queues. e \<noteq> Serves queues)"

lemma keeps_elsewheres: "no_serves es \<Longrightarrow> keeps C (ws, s) (ws, fold (apply_elsewhere C) es s)"
proof (induction es arbitrary: s)
  case (Cons e es)
  have "keeps C (ws, s) (ws, s\<lparr> d_stop := True \<rparr>)"
    by (rule keepsI) (auto simp: books_defs in_budget_def answers_for_def same_reading_def)
  then have "keeps C (ws, s) (ws, apply_elsewhere C e s)"
    using Cons.prems keeps_report by (cases e) (auto simp: no_serves_def)
  also have "keeps C (ws, apply_elsewhere C e s) (ws, fold (apply_elsewhere C) es (apply_elsewhere C e s))"
    using Cons by (simp add: no_serves_def)
  finally show ?case by simp
qed simp

lemma hold_step:
  assumes "hold_for_capacity C H feed s = Some s'" and "at_capacity C [] s \<and> \<not> d_stop s"
  obtains es feed' where "feed = es # feed'"
    "hold_for_capacity C H feed' (if d_finished (fold (apply_elsewhere C) es s) = []
       then fold (apply_elsewhere C) es s
       else hand_over_parked C H (next_finished (fold (apply_elsewhere C) es s))) = Some s'"
proof -
  from assms obtain es feed' where feed: "feed = es # feed'"
    by (auto simp: hold_for_capacity.simps [of C H feed s] split: list.splits)
  with assms that show thesis
    by (simp add: hold_for_capacity.simps [of C H "es # feed'" s] Let_def split del: if_split)
qed

lemma keeps_hold_for_capacity:
  "\<lbrakk> hold_for_capacity C H feed s = Some s'; \<forall>es \<in> set feed. no_serves es \<rbrakk> \<Longrightarrow> keeps C ([], s) ([], s')"
proof (induction C H feed s rule: hold_for_capacity.induct)
  case (1 C H feed s)
  show ?case
  proof (cases "at_capacity C [] s \<and> \<not> d_stop s")
    case True
    obtain es feed' where feed: "feed = es # feed'"
      and rest: "hold_for_capacity C H feed' (if d_finished (fold (apply_elsewhere C) es s) = []
       then fold (apply_elsewhere C) es s
       else hand_over_parked C H (next_finished (fold (apply_elsewhere C) es s))) = Some s'"
      using "1.prems"(1) True by (rule hold_step)
    define s1 where "s1 = fold (apply_elsewhere C) es s"
    let ?s = "if d_finished s1 = [] then s1 else hand_over_parked C H (next_finished s1)"
    have "keeps C ([], s) ([], s1)"
      unfolding s1_def using "1.prems"(2) by (intro keeps_elsewheres) (simp add: feed)
    also have "keeps C ([], s1) ([], ?s)"
      using keeps_trans [OF keeps_next_finished keeps_hand_over_parked] by auto
    also have "keeps C ([], ?s) ([], s')"
      using "1.prems"(2) by (intro "1.IH" [OF True feed s1_def rest [folded s1_def]]) (simp add: feed)
    finally show ?thesis .
  next
    case False
    with "1.prems" show ?thesis by (auto simp: hold_for_capacity.simps [of C H feed s] split: if_splits)
  qed
qed

lemma takes_hold_for_capacity:
  "hold_for_capacity C H feed s = Some s' \<Longrightarrow>
   takes C [] [] s s' \<and> (d_stop s' \<or> \<not> at_capacity C [] s')"
proof (induction C H feed s rule: hold_for_capacity.induct)
  case (1 C H feed s)
  show ?case
  proof (cases "at_capacity C [] s \<and> \<not> d_stop s")
    case True
    obtain es feed' where feed: "feed = es # feed'"
      and rest: "hold_for_capacity C H feed' (if d_finished (fold (apply_elsewhere C) es s) = []
       then fold (apply_elsewhere C) es s
       else hand_over_parked C H (next_finished (fold (apply_elsewhere C) es s))) = Some s'"
      using "1.prems"(1) True by (rule hold_step)
    define s1 where "s1 = fold (apply_elsewhere C) es s"
    let ?s = "if d_finished s1 = [] then s1 else hand_over_parked C H (next_finished s1)"
    have "takes C [] [] s s1" unfolding s1_def by (rule takes_elsewheres)
    then have "takes C [] [] s ?s"
      using takes_keeps [OF _ keeps_trans [OF keeps_next_finished keeps_hand_over_parked]] by auto
    then have "takes C [] [] s s''" if "takes C [] [] ?s s''" for s''
      using takes_trans [OF _ that] by simp
    then show ?thesis using "1.IH" [OF True feed s1_def rest [folded s1_def]] by blast
  next
    case False
    with "1.prems" show ?thesis
      by (auto simp: hold_for_capacity.simps [of C H feed s] takes_refl split: if_splits)
  qed
qed

lemma dget_filter_zero:
  assumes "distinct (map fst d)" and "\<And>q v. \<lbrakk> (q, v) \<in> set d; \<not> P (q, v) \<rbrakk> \<Longrightarrow> v = 0"
  shows "dget (filter P d) q 0 = dget d q (0 :: int)"
  using assms
proof (induction d)
  case (Cons e d)
  obtain k v where e: "e = (k, v)" by (cases e)
  have "dget (filter P d) q 0 = dget d q 0" using Cons by auto
  moreover have "dget d k 0 = 0" using Cons.prems(1) e by (intro dget_not_dhas) (simp add: dhas_def)
  moreover have "v = 0" if "\<not> P e" using Cons.prems(2) [of k v] that e by simp
  ultimately show ?case using e by auto
qed simp

lemma dget_in: "\<lbrakk> distinct (map fst d); (q, v) \<in> set d \<rbrakk> \<Longrightarrow> dget d q w = v"
  by (simp add: dget_def)

lemma books_in_flight_nonneg: "books C ws s \<Longrightarrow> 0 \<le> dget (d_in_flight s) q 0"
  by (simp add: books_defs)

lemma dget_forget_retired:
  assumes b: "books C [] s"
  shows "dget (d_in_flight (forget_retired s)) q 0 = dget (d_in_flight s) q 0"
proof -
  have d: "distinct (map fst (d_in_flight s))" using b by (simp add: books_def)
  have zero: "v = 0" if "(q, v) \<in> set (d_in_flight s)"
    "\<not> (case (q, v) of (q, held) \<Rightarrow> q \<in> set (d_queues s) \<or> 0 < held)" for q v
    using books_in_flight_nonneg [OF b, of q] dget_in [OF d that(1), of 0] that(2) by simp
  have "dget (filter (\<lambda>(q, held). q \<in> set (d_queues s) \<or> 0 < held) (d_in_flight s)) q 0 =
      dget (d_in_flight s) q 0"
    using d by (rule dget_filter_zero) (rule zero)
  then show ?thesis by (simp add: forget_retired_def)
qed

lemma takes_forget_retired: "takes C [] [] s (forget_retired s)"
proof -
  note kept = dget_forget_retired [of C s]
  have "distinct (map fst (d_in_flight (forget_retired s)))" if "distinct (map fst (d_in_flight s))"
    using that by (simp add: forget_retired_def distinct_map_filter)
  moreover have "d_sending (forget_retired s) = d_sending s" "d_live (forget_retired s) = d_live s"
    "d_finished (forget_retired s) = d_finished s" "d_parked (forget_retired s) = d_parked s"
    "d_acked (forget_retired s) = d_acked s" "d_token (forget_retired s) = d_token s"
    by (simp_all add: forget_retired_def)
  ultimately show ?thesis
    using kept by (auto simp: takes_def tally_simps in_budget_def answers_for_def) (auto simp: books_defs)
qed

lemma takes_dispatch:
  assumes "dispatch C E H feed raw h q s = Some r"
  shows "takes C [if counted_under s q then q else hd (d_queues s)] [h] s (acked_result h r)"
proof -
  define q' where "q' = (if counted_under s q then q else hd (d_queues s))"
  have same: "takes C [q'] [h] s (acked_result h (s, v))" for v
    by (auto simp: acked_result_def takes_ack intro: takes_more takes_refl)
  obtain e v where read: "read_message E raw = (e, v)" by (cases "read_message E raw")
  show ?thesis
  proof (cases e)
    case None
    with assms read same show ?thesis by (auto simp: dispatch_def Let_def q'_def)
  next
    case (Some e)
    define p where "p = \<lparr> p_envelope = e, p_call = build_call e, p_handle = h, p_queue = q' \<rparr>"
    have over: "takes C [q'] [h] s1 (acked_result h (hand_over C H p False s1))"
      if "\<not> at_its_own_capacity C (bot_id e) s1" for s1
      using takes_hand_over [of C p s1 H] that by (simp add: p_def)
    consider (same) v where "r = (s, v)"
      | (direct) "\<not> at_its_own_capacity C (bot_id e) s" "r = hand_over C H p False s"
      | (parked) "at_its_own_capacity C (bot_id e) s" "r = (park p s, False)"
      | (waited) s1 got where "waited_for_room C (bot_id e) feed s = Some (s1, got)"
          "r = (if got then hand_over C H p False s1 else (s1, False))"
      using assms read Some
      by (auto simp: dispatch_def Let_def p_def q'_def split: if_splits option.splits prod.splits)
    then show ?thesis
    proof cases
      case same
      then show ?thesis using \<open>\<And>v. takes C [q'] [h] s (acked_result h (s, v))\<close> by (simp add: q'_def)
    next
      case direct
      then show ?thesis using over by (simp add: q'_def)
    next
      case parked
      show ?thesis
      proof (cases "c_defers C")
        case True
        from takes_park [OF this, of p s] parked show ?thesis by (simp add: acked_result_def p_def q'_def)
      next
        case False
        then have "\<not> (books C [] s)"
          using parked(1) by (auto simp: at_its_own_capacity_def books_defs tally_simps)
        then show ?thesis by (simp add: takes_def)
      qed
    next
      case waited
      note w = takes_waited_for_room [OF waited(1)]
      show ?thesis
      proof (cases got)
        case True
        with w waited(2) takes_trans [of C "[]" "[]" s s1 "[q']" "[h]"] over show ?thesis by (simp add: q'_def)
      next
        case False
        with w waited(2) takes_more [of C s s1] show ?thesis by (simp add: acked_result_def)
      qed
    qed
  qed
qed

lemma takes_dispatch_taken:
  assumes "dispatch_taken C E H feed t s = Some s'"
  shows "takes C [queue_of t s] [tk_handle t] s s'"
proof -
  obtain r where r: "dispatch C E H feed (tk_payload t) (tk_handle t) (queue_of t s) s = Some r"
    and s': "s' = acked_result (tk_handle t) r"
    using assms by (auto simp: dispatch_taken_def acked_result_def split: option.splits prod.splits)
  have "(if counted_under s (queue_of t s) then queue_of t s else hd (d_queues s)) = queue_of t s"
    by (simp add: queue_of_def)
  with takes_dispatch [OF r] show ?thesis by (simp add: s')
qed

end
