(* ===== verification/DeliveryRuns.thy ===== *)
theory DeliveryRuns
  imports DeliveryBooks
begin

text \<open>
  Runs of a consumer, as sequences of the steps its loop is made of, interleaved with what other
  threads do, and the properties of every run: the books are exact, no bot exceeds its budget, no
  message is acknowledged more often than it was taken, a parked message always waits for a send of
  its own bot, a queue's bound holds over a turn, and what becomes of each payload.
\<close>

declare dict_simps [simp]

section \<open>Runs\<close>

inductive delivery_run :: "dconf \<Rightarrow> denv \<Rightarrow> 'h dstate \<Rightarrow> 'h taken list \<Rightarrow> 'h dstate \<Rightarrow> bool"
  for C :: dconf and E :: denv and s0 :: "'h dstate" where
  run_start: "delivery_run C E s0 [] s0"
| run_elsewhere: "delivery_run C E s0 ts s \<Longrightarrow> delivery_run C E s0 ts (apply_elsewhere C e s)"
| run_collect: "delivery_run C E s0 ts s \<Longrightarrow> delivery_run C E s0 ts (collect C H s)"
| run_hold:
    "\<lbrakk> delivery_run C E s0 ts s; hold_for_capacity C H feed s = Some s' \<rbrakk> \<Longrightarrow> delivery_run C E s0 ts s'"
| run_forget: "delivery_run C E s0 ts s \<Longrightarrow> delivery_run C E s0 ts (forget_retired s)"
| run_dispatch:
    "\<lbrakk> delivery_run C E s0 ts s; dispatch_taken C E H feed t s = Some s' \<rbrakk>
      \<Longrightarrow> delivery_run C E s0 (ts @ [t]) s'"

lemma run_elsewheres:
  "delivery_run C E s0 ts s \<Longrightarrow> delivery_run C E s0 ts (fold (apply_elsewhere C) es s)"
  by (induction es arbitrary: s) (auto intro: run_elsewhere)

text \<open>A turn of the loop and a drain are such runs.\<close>

lemma read_and_dispatch_run:
  assumes "delivery_run C E s0 ts s" and "read_and_dispatch C E H feed answer s = Some s'"
  shows "\<exists>ts'. delivery_run C E s0 ts' s'"
  using assms run_forget [OF assms(1)]
  by (auto simp: read_and_dispatch_def Let_def split: if_splits sum.splits option.splits intro: run_dispatch)

lemma run_turn_run:
  assumes "delivery_run C E s0 ts s" and "run_turn C E H holding between feed answer s = Some (s', again)"
  shows "\<exists>ts'. delivery_run C E s0 ts' s'"
proof (cases "d_stop s")
  case True
  with assms show ?thesis by (auto simp: run_turn_def intro: run_collect)
next
  case False
  with assms(2) obtain s1 where s1: "hold_for_capacity C H holding (collect C H s) = Some s1"
    by (auto simp: run_turn_def split: option.splits)
  have r1: "delivery_run C E s0 ts s1" by (rule run_hold [OF run_collect [OF assms(1)] s1])
  show ?thesis
  proof (cases "d_stop s1")
    case True
    with assms(2) False s1 show ?thesis by (auto simp: run_turn_def intro: run_collect [OF r1])
  next
    case go: False
    with assms(2) False s1 have "read_and_dispatch C E H feed answer (fold (apply_elsewhere C) between s1) = Some s'"
      by (auto simp: run_turn_def)
    then show ?thesis by (rule read_and_dispatch_run [OF run_elsewheres [OF r1]])
  qed
qed

lemma consume_pending_run:
  assumes "delivery_run C E s0 ts s" and "consume_pending C E H feed answers s = Some s'"
  shows "\<exists>ts'. delivery_run C E s0 ts' s'"
  using assms
proof (induction C E H feed answers s arbitrary: ts rule: consume_pending.induct)
  case (1 C E H feed answers s)
  define s1 where "s1 = collect C H s"
  define s2 where "s2 = forget_retired s1"
  have r1: "delivery_run C E s0 ts s1" unfolding s1_def by (rule run_collect [OF "1.prems"(1)])
  have r2: "delivery_run C E s0 ts s2" unfolding s2_def by (rule run_forget [OF r1])
  consider "s' = s" | "s' = s1" | "s' = s2" | "s' = collect C H s2"
    | (step) t answers' s3 where "answers = t # answers'" "\<not> d_stop s" "\<not> at_capacity C [] s1"
        "readable C s2 \<noteq> Some []" "dispatch_taken C E H feed t s2 = Some s3"
        "consume_pending C E H feed answers' (collect C H s3) = Some s'"
    using "1.prems"(2)
    by (auto simp: consume_pending.simps [of C E H feed answers s] Let_def s1_def s2_def
        split: if_splits list.splits option.splits)
  then show ?case
  proof cases
    case step
    show ?thesis
      by (rule "1.IH" [OF step(2) s1_def step(3) s2_def step(4,1,5) run_collect [OF run_dispatch [OF r2 step(5)]] step(6)])
  qed (use "1.prems"(1) r1 r2 run_collect [OF r2] in blast)+
qed

section \<open>The books along a run\<close>

lemma run_takes: "delivery_run C E s0 ts s \<Longrightarrow> \<exists>qs. takes C qs (map tk_handle ts) s0 s"
proof (induction rule: delivery_run.induct)
  case run_start
  show ?case using takes_refl by fastforce
next
  case (run_elsewhere ts s e)
  then show ?case using takes_trans [OF _ takes_elsewhere] by fastforce
next
  case (run_collect ts s H)
  then show ?case using takes_keeps [OF _ keeps_collect] by fastforce
next
  case (run_hold ts s H feed s')
  then show ?case using takes_trans [OF _ conjunct1 [OF takes_hold_for_capacity [OF run_hold.hyps(2)]]]
    by fastforce
next
  case (run_forget ts s)
  then show ?case using takes_trans [OF _ takes_forget_retired] by fastforce
next
  case (run_dispatch ts s H feed t s')
  then show ?case using takes_trans [OF _ takes_dispatch_taken [OF run_dispatch.hyps(2)]] by fastforce
qed

lemma distinct_named_queues: "distinct (named_queues q)"
  by (cases q) simp_all

lemma books_init: "delivery_init C q = Inr s \<Longrightarrow> books C [] s \<and> in_budget C s \<and> answers_for [] s = {#}"
  by (auto simp: delivery_init_def Let_def books_defs tally_simps in_budget_def answers_for_def dget_def
      map_of_map comp_def distinct_named_queues split: if_splits option.splits
      dest!: map_of_SomeD)

lemma run_books:
  assumes "delivery_init C q = Inr s0" and "delivery_run C E s0 ts s"
  shows "books C [] s" and "in_budget C s" and "answers_for [] s \<subseteq># mset (map tk_handle ts)"
  using run_takes [OF assms(2)] books_init [OF assms(1)] by (auto simp: takes_def)

section \<open>Parked messages\<close>

text \<open>
  \<open>parked_full\<close>: the bot of every parked message is at its own budget, and nothing is parked
  where no queue bound is set.
\<close>

definition parked_full :: "dconf \<Rightarrow> 'h dstate \<Rightarrow> bool" where
  "parked_full C s \<longleftrightarrow>
     (\<forall>p \<in> set (d_parked s). at_its_own_capacity C (p_bot p) s) \<and> (c_limit C = 0 \<longrightarrow> d_parked s = [])"

lemma parked_fullI:
  assumes "parked_full C s" and "d_parked s' = d_parked s"
    and "\<And>b. dget (d_sending s) b 0 \<le> dget (d_sending s') b 0"
  shows "parked_full C s'"
  using assms(1,2) order_trans [OF _ assms(3)] by (auto simp: parked_full_def at_its_own_capacity_def)

lemma d_sending_report [simp]: "d_sending (report t v s) = d_sending s"
  by (simp add: report_def split: option.splits)

lemma d_sending_reports [simp]: "d_sending (fold (\<lambda>(t, v). report t v) rs s) = d_sending s"
  by (induction rs arbitrary: s) auto

lemma d_sending_simps [simp]:
  "d_sending (acknowledge h s) = d_sending s" "d_sending (take_in_flight_slot q s) = d_sending s"
  by (simp_all add: acknowledge_def take_in_flight_slot_def)

text \<open>A call never leaves a bot with fewer sends: what it gives back is the slot it took.\<close>

lemma d_sending_call_handler:
  "dget (d_sending s) b 0 \<le> dget (d_sending (fst (call_handler C H p counted s))) b 0"
proof -
  let ?s1 = "begin_send C p counted s"
  have "dget (d_sending s) b 0 \<le> dget (d_sending ?s1) b 0"
    by (simp add: begin_send_def Let_def take_in_flight_slot_def)
  moreover have given: "dget (d_sending s) b 0 \<le> dget (d_sending (took_a_slot_back (p_bot p) q s')) b 0"
    if "c_defers C" and "d_sending s' = d_sending ?s1" for q s'
    using that by (simp add: took_a_slot_back_def one_less_sending_def begin_send_def Let_def take_in_flight_slot_def)
  ultimately show ?thesis
    by (auto simp: call_handler_def Let_def split: prod.splits outcome.splits intro!: given)
qed

lemma parked_full_loop:
  "parked_full C s \<Longrightarrow> (c_limit C = 0 \<Longrightarrow> ws = []) \<Longrightarrow> parked_full C (parked_loop C H ws s)"
proof (induction C H ws s rule: parked_loop.induct)
  case (1 C H s)
  then show ?case by simp
next
  case (2 C H p waiting s)
  have lim: "c_limit C \<noteq> 0" using "2.prems"(2) by auto
  show ?case
  proof (cases "at_its_own_capacity C (p_bot p) s")
    case True
    with "2.prems"(1) lim have "parked_full C (s\<lparr> d_parked := d_parked s @ [p] \<rparr>)"
      by (auto simp: parked_full_def at_its_own_capacity_def)
    with "2.IH"(1) [OF True] True lim show ?thesis by simp
  next
    case False
    define r where "r = call_handler C H p True s"
    define s2 where "s2 = (if snd (snd r)
        then parked_loop C H (d_parked (fst r)) ((fst r)\<lparr> d_parked := [] \<rparr>) else fst r)"
    define s3 where "s3 = (if fst (snd r) then acknowledge (p_handle p) s2 else s2)"
    have "parked_full C (fst r)" unfolding r_def
      by (rule parked_fullI [OF "2.prems"(1) d_parked_call_handler d_sending_call_handler])
    moreover have "parked_full C (parked_loop C H (d_parked (fst r)) ((fst r)\<lparr> d_parked := [] \<rparr>))"
      if "snd (snd r)"
      using "2.IH"(2) [OF False refl, folded r_def, OF that] lim by (simp add: parked_full_def)
    ultimately have "parked_full C s2" by (simp add: s2_def)
    then have "parked_full C s3" by (auto simp: s3_def intro: parked_fullI)
    then have "parked_full C (parked_loop C H waiting s3)"
      using "2.IH"(3) [OF False r_def s2_def, folded s3_def] lim by simp
    moreover have "parked_loop C H waiting s3 = parked_loop C H (p # waiting) s"
      using False by (simp only: parked_loop.simps Let_def if_False r_def s2_def s3_def)
    ultimately show ?thesis by simp
  qed
qed

lemma parked_full_hand_over_parked:
  "(c_limit C = 0 \<Longrightarrow> d_parked s = []) \<Longrightarrow> parked_full C (hand_over_parked C H s)"
  by (auto simp: hand_over_parked_def intro!: parked_full_loop) (auto simp: parked_full_def)

lemma d_parked_settle_one [simp]: "d_parked (settle_one e s) = d_parked s"
  by (simp add: settle_one_def Let_def split: prod.splits)

lemma d_parked_settle_all [simp]: "d_parked (fold settle_one es s) = d_parked s"
  by (induction es arbitrary: s) auto

lemma d_parked_next_finished [simp]: "d_parked (next_finished s) = d_parked s"
  by (simp add: next_finished_def split: list.splits)

lemma parked_full_collect: "parked_full C s \<Longrightarrow> parked_full C (collect C H s)"
  unfolding collect_def by (rule parked_full_hand_over_parked) (simp add: parked_full_def)

lemma parked_full_elsewhere: "parked_full C s \<Longrightarrow> parked_full C (apply_elsewhere C e s)"
  by (erule parked_fullI; cases e) (auto simp: serve_def Let_def split: sum.splits)

lemma parked_full_elsewheres: "parked_full C s \<Longrightarrow> parked_full C (fold (apply_elsewhere C) es s)"
  by (induction es arbitrary: s) (auto intro: parked_full_elsewhere)

lemma parked_full_hold:
  "\<lbrakk> hold_for_capacity C H feed s = Some s'; parked_full C s \<rbrakk> \<Longrightarrow> parked_full C s'"
proof (induction C H feed s rule: hold_for_capacity.induct)
  case (1 C H feed s)
  show ?case
  proof (cases "at_capacity C [] s \<and> \<not> d_stop s")
    case True
    obtain es feed' where feed: "feed = es # feed'"
      and rest: "hold_for_capacity C H feed' (if d_finished (fold (apply_elsewhere C) es s) = []
       then fold (apply_elsewhere C) es s
       else hand_over_parked C H (next_finished (fold (apply_elsewhere C) es s))) = Some s'"
      using "1.prems"(1) True by (rule hold_step)
    define s1 where "s1 = fold (apply_elsewhere C) es s"
    have "parked_full C s1" unfolding s1_def by (rule parked_full_elsewheres [OF "1.prems"(2)])
    moreover from this have "parked_full C (hand_over_parked C H (next_finished s1))"
      by (intro parked_full_hand_over_parked) (simp add: parked_full_def)
    ultimately have "parked_full C (if d_finished s1 = [] then s1 else hand_over_parked C H (next_finished s1))"
      by simp
    with "1.IH" [OF True feed s1_def rest [folded s1_def]] show ?thesis .
  next
    case False
    with "1.prems" show ?thesis by (auto simp: hold_for_capacity.simps [of C H feed s] split: if_splits)
  qed
qed

lemma parked_full_hand_over:
  assumes "parked_full C s"
  shows "parked_full C (fst (hand_over C H p counted s))"
proof -
  have "parked_full C (fst (call_handler C H p counted s))"
    by (rule parked_fullI [OF assms d_parked_call_handler d_sending_call_handler])
  moreover from this have "parked_full C (hand_over_parked C H (fst (call_handler C H p counted s)))"
    by (intro parked_full_hand_over_parked) (simp add: parked_full_def)
  ultimately show ?thesis by (simp add: hand_over_def Let_def)
qed

lemma parked_full_ack [simp]: "parked_full C (acknowledge h s) = parked_full C s"
  by (simp add: parked_full_def)

lemma d_parked_elsewhere [simp]: "d_parked (apply_elsewhere C e s) = d_parked s"
  by (cases e) (auto simp: serve_def Let_def split: sum.splits)

lemma d_parked_elsewheres [simp]: "d_parked (fold (apply_elsewhere C) es s) = d_parked s"
  by (induction es arbitrary: s) auto

lemma d_parked_waited: "waited_for_room C b feed s = Some (s', got) \<Longrightarrow> d_parked s' = d_parked s"
proof (induction C b feed s rule: waited_for_room.induct)
  case (1 C b feed s)
  then show ?case by (auto simp: waited_for_room.simps [of C b feed s] split: if_splits list.splits)
qed

lemma parked_full_dispatch:
  assumes "dispatch C E H feed raw h q s = Some r" and "parked_full C s"
  shows "parked_full C (fst r)"
proof -
  have waited: "parked_full C s1" if "waited_for_room C b feed s = Some (s1, got)" "c_limit C = 0" for b s1 got
    using d_parked_waited [OF that(1)] assms(2) that(2) by (simp add: parked_full_def)
  have parked: "parked_full C (park \<lparr> p_envelope = e, p_call = c, p_handle = h, p_queue = q' \<rparr> s)"
    if "at_its_own_capacity C (bot_id e) s" "0 < c_limit C" for e c q'
    using assms(2) that by (auto simp: parked_full_def park_def at_its_own_capacity_def)
  have over: "parked_full C (fst (hand_over C H p False s1))" if "parked_full C s1" for p s1
    by (rule parked_full_hand_over [OF that])
  from assms show ?thesis
    by (auto simp: dispatch_def Let_def split: option.splits prod.splits if_splits
        intro: waited parked over over [OF waited])
qed

lemma run_parked_full:
  assumes "delivery_run C E s0 ts s" and "parked_full C s0"
  shows "parked_full C s"
  using assms
proof (induction rule: delivery_run.induct)
  case (run_forget ts s)
  then show ?case by (auto simp: forget_retired_def parked_full_def at_its_own_capacity_def)
next
  case (run_dispatch ts s H feed t s')
  then obtain r where "dispatch C E H feed (tk_payload t) (tk_handle t) (queue_of t s) s = Some r"
    and "s' = acked_result (tk_handle t) r"
    by (auto simp: dispatch_taken_def acked_result_def split: option.splits prod.splits)
  with parked_full_dispatch [OF this(1) run_dispatch.IH] run_dispatch.prems show ?case
    by (simp add: acked_result_def)
qed (auto intro: parked_full_elsewhere parked_full_collect parked_full_hold)

section \<open>A small consumer\<close>

text \<open>
  Two queues of at most two messages, one send per bot, handlers that report later; payloads of two
  bots.  The runs below are evaluated on it.
\<close>

definition demo_conf :: dconf where
  "demo_conf = \<lparr> c_limit = 2, c_per_bot_limit = 1, c_defers = True, c_releases = True,
                 c_own_queue = ''main'', c_multiplexes = True \<rparr>"

definition demo_payload :: "bytes \<Rightarrow> decoding" where
  "demo_payload raw = Decoded (PDict [(''function'', PStr ''send_message''),
     (ENVELOPE_KEY, PInt 1), (''bot'', PInt (if raw = ''seven'' then 7 else 42))])"

definition demo_env :: denv where
  "demo_env = \<lparr> e_text = \<lparr> float_text = (\<lambda>_. None), str_of = (\<lambda>_. []) \<rparr>, e_loads = demo_payload,
                e_methods = (\<lambda>m. m = ''send_message''), e_route = None, e_configured = [Some 7, Some 42] \<rparr>"

definition demo_quiet :: "nat handler" where
  "demo_quiet token p = ([], Returned)"

definition demo_start :: "nat dstate" where
  "demo_start = \<lparr> d_queues = [''main'', ''vip''], d_asked = Some [''main'', ''vip''],
     d_in_flight = [(''main'', 0), (''vip'', 0)], d_sending = [], d_parked = [], d_finished = [],
     d_live = [], d_token = 0, d_acked = [], d_stop = False \<rparr>"

definition demo_message :: "bytes \<Rightarrow> nat \<Rightarrow> nat taken" where
  "demo_message raw n = \<lparr> tk_payload = raw, tk_handle = n, tk_queue = ''main'' \<rparr>"

definition demo_dispatched :: "nat taken \<Rightarrow> nat dstate \<Rightarrow> nat dstate" where
  "demo_dispatched t s =
     (case dispatch_taken demo_conf demo_env demo_quiet [] t s of None \<Rightarrow> s | Some s' \<Rightarrow> s')"

lemma demo_init: "delivery_init demo_conf (Names [''main'', ''vip'']) = Inr demo_start"
  by code_simp

definition demo_parked :: "nat dstate" where
  "demo_parked = demo_dispatched (demo_message ''seven'' 1) (demo_dispatched (demo_message ''seven'' 0) demo_start)"

lemma demo_run:
  "delivery_run demo_conf demo_env demo_start [demo_message ''seven'' 0, demo_message ''seven'' 1] demo_parked"
proof -
  let ?s = "demo_dispatched (demo_message ''seven'' 0) demo_start"
  have 1: "dispatch_taken demo_conf demo_env demo_quiet [] (demo_message ''seven'' 0) demo_start = Some ?s"
    by code_simp
  have 2: "dispatch_taken demo_conf demo_env demo_quiet [] (demo_message ''seven'' 1) ?s = Some demo_parked"
    by code_simp
  show ?thesis using run_dispatch [OF run_dispatch [OF run_start 1] 2] by simp
qed

lemma demo_parked_handles:
  "map p_handle (d_parked demo_parked) = [1]" "map fst (d_live demo_parked) = [0]"
  by code_simp+

section \<open>The bound of a queue\<close>

text \<open>
  \<open>reads_named C s\<close>: what the consumer asks the transport for is what it serves, every queue it
  serves has a name and a count, and no count is kept under the empty name.
\<close>

definition reads_named :: "dconf \<Rightarrow> 'h dstate \<Rightarrow> bool" where
  "reads_named C s \<longleftrightarrow>
     d_queues s \<noteq> [] \<and> d_asked s = narrowed C (d_queues s) \<and> [] \<notin> set (d_queues s) \<and>
     (\<forall>q \<in> set (d_queues s). dhas (d_in_flight s) q) \<and> \<not> dhas (d_in_flight s) []"

lemma reads_named_same: "\<lbrakk> same_reading s s'; reads_named C s \<rbrakk> \<Longrightarrow> reads_named C s'"
  by (simp add: reads_named_def same_reading_def)

definition in_bound :: "dconf \<Rightarrow> 'h dstate \<Rightarrow> bool" where
  "in_bound C s \<longleftrightarrow> (\<forall>q. dget (d_in_flight s) q 0 \<le> int (c_limit C))"

text \<open>
  What a transport answers: a message off one of the queues it was asked for, and off its own queue,
  which it need not name, where it was asked for none.
\<close>

definition answers_asked :: "dconf \<Rightarrow> (string list option \<Rightarrow> string + 'h taken option) \<Rightarrow> bool" where
  "answers_asked C answer \<longleftrightarrow>
     (\<forall>asked t. answer asked = Inr (Some t) \<longrightarrow>
        (case asked of None \<Rightarrow> tk_queue t \<in> {c_own_queue C, []} | Some qs \<Rightarrow> tk_queue t \<in> set qs))"

lemma dhas_forget_retired:
  "dhas (d_in_flight (forget_retired s)) q \<Longrightarrow> dhas (d_in_flight s) q"
  "\<lbrakk> q \<in> set (d_queues s); dhas (d_in_flight s) q \<rbrakk> \<Longrightarrow> dhas (d_in_flight (forget_retired s)) q"
  by (auto simp: forget_retired_def dhas_def)

lemma forget_retired_reading [simp]:
  "d_queues (forget_retired s) = d_queues s" "d_asked (forget_retired s) = d_asked s"
  by (simp_all add: forget_retired_def)

lemma reads_named_forget: "reads_named C s \<Longrightarrow> reads_named C (forget_retired s)"
  by (auto simp: reads_named_def intro: dhas_forget_retired(2) dest: dhas_forget_retired(1))

text \<open>A read made while some queue has room is answered by a message whose queue has room.\<close>

lemma read_has_room:
  assumes named: "reads_named C s" and limit: "c_limit C \<noteq> 0" and room: "\<not> at_capacity C [] s"
    and answer: "answers_asked C answer" "answer (readable C s) = Inr (Some t)"
  shows "dget (d_in_flight s) (queue_of t s) 0 < int (c_limit C)"
proof (cases "d_asked s")
  case None
  with named have queues: "d_queues s = [c_own_queue C]" by (auto simp: reads_named_def narrowed_def split: if_splits)
  have "tk_queue t \<in> {c_own_queue C, []}"
    using answer None by (auto simp: answers_asked_def readable_def split: option.splits)
  then have "queue_of t s = c_own_queue C"
    using named queues by (auto simp: queue_of_def counted_under_def reads_named_def)
  with room limit queues show ?thesis by (simp add: at_capacity_def)
next
  case (Some asked)
  with named have asked: "asked = d_queues s" by (auto simp: reads_named_def narrowed_def split: if_splits)
  have t: "tk_queue t \<in> set asked" "\<not> at_capacity C (tk_queue t) s"
    using answer Some by (fastforce simp: answers_asked_def readable_def split: option.splits)+
  then have "queue_of t s = tk_queue t" "tk_queue t \<noteq> []"
    using named asked by (auto simp: queue_of_def counted_under_def reads_named_def)
  with t(2) limit show ?thesis by (simp add: at_capacity_def)
qed

lemma at_capacity_forget: "books C [] s \<Longrightarrow> at_capacity C [] (forget_retired s) = at_capacity C [] s"
proof -
  assume "books C [] s"
  then have "dget (d_in_flight (forget_retired s)) q 0 = dget (d_in_flight s) q 0" for q
    using dget_forget_retired by blast
  then show ?thesis by (simp add: at_capacity_def)
qed

text \<open>Reports and a request to stop take no slot, so they cannot close the gate.\<close>

lemma gate_stays_open:
  assumes "keeps C ([], s) ([], s')" "books C [] s" "in_budget C s" "\<not> at_capacity C [] s"
  shows "\<not> at_capacity C [] s'"
  using assms by (fastforce simp: keeps_def at_capacity_def same_reading_def intro: order_trans split: if_splits)

lemma read_and_dispatch_bound:
  assumes "books C [] s" "in_budget C s" "reads_named C s" "in_bound C s" "c_limit C \<noteq> 0"
    and "\<not> at_capacity C [] s" and answer: "answers_asked C answer"
    and turn: "read_and_dispatch C E H feed answer s = Some s'"
  shows "in_bound C s'"
proof -
  define f where "f = forget_retired s"
  have f: "takes C [] [] s f" unfolding f_def by (rule takes_forget_retired)
  then have bf: "books C [] f" "in_budget C f" "in_bound C f"
    using assms(1,2,4) by (auto simp: takes_def in_bound_def tally_simps intro: order_trans)
  have room: "\<not> at_capacity C [] f" using assms(6) at_capacity_forget [OF assms(1)] by (simp add: f_def)
  have named: "reads_named C f" unfolding f_def by (rule reads_named_forget [OF assms(3)])
  consider "s' = f" | (took) t where "answer (readable C f) = Inr (Some t)" "dispatch_taken C E H feed t f = Some s'"
    using turn by (auto simp: read_and_dispatch_def f_def Let_def split: if_splits sum.splits option.splits)
  then show ?thesis
  proof cases
    case took
    note room = read_has_room [OF named assms(5) room answer took(1)]
    have "dget (d_in_flight s') q 0 \<le> dget (d_in_flight f) q 0 + (if queue_of t f = q then 1 else 0)" for q
      using takes_dispatch_taken [OF took(2)] bf by (simp add: takes_def tally_simps)
    then have "dget (d_in_flight s') q 0 \<le> int (c_limit C)" for q
      using room bf(3) by (cases "queue_of t f = q") (force simp: in_bound_def intro: order_trans)+
    then show ?thesis by (simp add: in_bound_def)
  qed (simp add: bf(3))
qed

text \<open>The small consumer again: one queue at its bound, and a transport that has a message on each.\<close>

definition demo_answer :: "string list option \<Rightarrow> string + nat taken option" where
  "demo_answer asked =
     (case asked of
        None \<Rightarrow> Inr (Some \<lparr> tk_payload = ''other'', tk_handle = 2, tk_queue = [] \<rparr>)
      | Some qs \<Rightarrow> if ''vip'' \<in> set qs then Inr (Some \<lparr> tk_payload = ''other'', tk_handle = 2, tk_queue = ''vip'' \<rparr>)
                  else Inr None)"

lemma demo_answer_ok: "answers_asked demo_conf demo_answer"
  by (auto simp: answers_asked_def demo_answer_def split: option.splits if_splits)

lemma demo_parked_books:
  "d_in_flight demo_parked = [(''main'', 2), (''vip'', 0)]" "d_queues demo_parked = [''main'', ''vip'']"
  "d_asked demo_parked = Some [''main'', ''vip'']" "d_stop demo_parked = False"
  by code_simp+

lemma demo_parked_ok: "reads_named demo_conf demo_parked" "in_bound demo_conf demo_parked"
  by (auto simp: reads_named_def in_bound_def demo_parked_books narrowed_def demo_conf_def)

definition demo_turned :: "elsewhere list \<Rightarrow> nat dstate" where
  "demo_turned between =
     (case run_turn demo_conf demo_env demo_quiet [] between [] demo_answer demo_parked of
        None \<Rightarrow> demo_parked | Some (s, again) \<Rightarrow> s)"

definition demo_forged :: "nat pending" where
  "demo_forged =
     (let e = \<lparr> env_function = ''send_message'',
                env_kwargs = [(''function'', PStr ''log_out''), (''on_complete'', PNone), (''text'', PStr ''hi'')],
                correlation_id = None, queued_at = 0, bot_id = None \<rparr>
      in \<lparr> p_envelope = e, p_call = build_call e, p_handle = 0, p_queue = ''main'' \<rparr>)"

section \<open>The gate\<close>

lemma d_finished_call_handler:
  "\<exists>more. d_finished (fst (call_handler C H p counted s)) = d_finished s @ more"
proof -
  have one: "\<exists>more. d_finished (report t v s) = d_finished s @ more" for t v and s :: "'a dstate"
    by (simp add: report_def split: option.splits)
  have all: "\<exists>more. d_finished (fold (\<lambda>(t, v). report t v) rs s) = d_finished s @ more" for rs and s :: "'a dstate"
  proof (induction rs arbitrary: s)
    case (Cons r rs)
    obtain t v where r: "r = (t, v)" by (cases r)
    obtain more where "d_finished (report t v s) = d_finished s @ more" using one by blast
    with Cons.IH [of "report t v s"] show ?case by (auto simp: r)
  qed simp
  have "d_finished (begin_send C p counted s) = d_finished s"
    by (simp add: begin_send_def take_in_flight_slot_def Let_def)
  with all [of _ "begin_send C p counted s"] show ?thesis
    by (auto simp: call_handler_def Let_def split: prod.splits outcome.splits)
qed

lemma d_finished_parked_loop: "\<exists>more. d_finished (parked_loop C H ws s) = d_finished s @ more"
proof (induction C H ws s rule: parked_loop.induct)
  case (2 C H p waiting s)
  show ?case
  proof (cases "at_its_own_capacity C (p_bot p) s")
    case True
    with "2.IH"(1) [OF True] show ?thesis by simp
  next
    case False
    define r where "r = call_handler C H p True s"
    define s2 where "s2 = (if snd (snd r)
        then parked_loop C H (d_parked (fst r)) ((fst r)\<lparr> d_parked := [] \<rparr>) else fst r)"
    define s3 where "s3 = (if fst (snd r) then acknowledge (p_handle p) s2 else s2)"
    obtain m1 where "d_finished (fst r) = d_finished s @ m1" unfolding r_def using d_finished_call_handler by blast
    moreover have "\<exists>m. d_finished s2 = d_finished (fst r) @ m"
      using "2.IH"(2) [OF False refl, folded r_def] by (auto simp: s2_def)
    moreover have "d_finished s3 = d_finished s2" by (simp add: s3_def)
    moreover have "\<exists>m. d_finished (parked_loop C H waiting s3) = d_finished s3 @ m"
      using "2.IH"(3) [OF False r_def s2_def, folded s3_def] .
    moreover have "parked_loop C H waiting s3 = parked_loop C H (p # waiting) s"
      using False by (simp only: parked_loop.simps Let_def if_False r_def s2_def s3_def)
    ultimately show ?thesis by auto
  qed
qed simp

lemma d_finished_hand_over_parked: "\<exists>more. d_finished (hand_over_parked C H s) = d_finished s @ more"
  using d_finished_parked_loop [of C H "d_parked s" "s\<lparr> d_parked := [] \<rparr>"] by (simp add: hand_over_parked_def)

lemma d_finished_settle_one [simp]: "d_finished (settle_one e s) = d_finished s"
  by (simp add: settle_one_def Let_def split: prod.splits)

lemma hold_opens:
  assumes "d_finished s = pre @ ((h, b, q), v) # post" and "books C [] s" and "in_budget C s"
    and "q \<in> set (d_queues s)" and "dget (d_in_flight s) q 0 \<le> int (c_limit C)"
    and "length pre < length feed" and "set feed \<subseteq> {[]}"
  shows "\<exists>s'. hold_for_capacity C H feed s = Some s'"
  using assms
proof (induction pre arbitrary: s post feed)
  case Nil
  obtain feed' where feed: "feed = [] # feed'" using Nil.prems(6,7) by (cases feed) auto
  let ?t = "next_finished s" and ?u = "hand_over_parked C H (next_finished s)"
  have t: "?t = settle_one ((h, b, q), v) (s\<lparr> d_finished := post \<rparr>)"
    using Nil.prems(1) by (simp add: next_finished_def)
  have kept: "keeps C ([], ?t) ([], ?u)" "keeps C ([], s) ([], ?t)"
    by (rule keeps_hand_over_parked keeps_next_finished)+
  have pos: "0 < dget (d_in_flight s) q 0" "0 < dget (d_sending s) b 0"
    using Nil.prems(1,2) by (auto simp: books_defs tally_simps intro!: one_in_sum)
  have "dget (d_in_flight ?t) q 0 = dget (d_in_flight s) q 0 - 1"
    using took_a_slot_back_counts(1) [of "s\<lparr> d_finished := post \<rparr>" q b q] pos
    by (simp add: t settle_one_def acknowledge_def Let_def)
  moreover have "dget (d_in_flight ?u) q 0 \<le> dget (d_in_flight ?t) q 0" "d_queues ?u = d_queues s"
    using kept Nil.prems(2,3) by (auto simp: keeps_def same_reading_def)
  ultimately have "dget (d_in_flight ?u) q 0 < int (c_limit C)" "q \<in> set (d_queues ?u)"
    using Nil.prems(4,5) by simp_all
  then have "\<not> at_capacity C [] ?u" unfolding at_capacity_def by (metis linorder_not_le)
  then have "hold_for_capacity C H feed' ?u = Some ?u" by (subst hold_for_capacity.simps) simp
  then show ?case using Nil.prems(1) by (simp add: hold_for_capacity.simps [of C H "[] # feed'" s] feed Let_def)
next
  case (Cons e pre)
  obtain feed' where feed: "feed = [] # feed'" using Cons.prems(6,7) by (cases feed) auto
  let ?t = "next_finished s" and ?u = "hand_over_parked C H (next_finished s)"
  have "keeps C ([], s) ([], ?u)" by (rule keeps_trans [OF keeps_next_finished keeps_hand_over_parked])
  then have u: "books C [] ?u" "in_budget C ?u" "d_queues ?u = d_queues s"
    "dget (d_in_flight ?u) q 0 \<le> dget (d_in_flight s) q 0"
    using Cons.prems(2,3) by (auto simp: keeps_def same_reading_def)
  have "d_finished ?t = pre @ ((h, b, q), v) # post"
    using Cons.prems(1) by (simp add: next_finished_def)
  with d_finished_hand_over_parked [of C H ?t] obtain more where
    "d_finished ?u = pre @ ((h, b, q), v) # post @ more" by auto
  from Cons.IH [OF this u(1,2)] u(3,4) Cons.prems(4-7) feed
  have "\<exists>s'. hold_for_capacity C H feed' ?u = Some s'" by simp
  then show ?case using Cons.prems(1) by (auto simp: hold_for_capacity.simps [of C H "[] # feed'" s] feed Let_def)
qed

section \<open>Properties\<close>

text \<open>
  C5.  The books are exact on every run.  Whatever the handlers do and whenever other threads report,
  stop the consumer or change its queues, the count of each queue is the number of its sends
  outstanding, finished and not collected, and parked; the count of each bot is its sends
  outstanding and finished.  In particular no count ever goes below zero or drifts.
\<close>

theorem delivery_books_exact:
  assumes "delivery_init C queues = Inr s0" and "delivery_run C E s0 ts s"
  shows "dget (d_in_flight s) q 0 = slots_of_queue s q \<and> dget (d_sending s) b 0 = sends_of_bot s b"
  using run_books(1) [OF assms] by (simp add: books_def tally_simps)

theorem delivery_books_exact_witness:
  "dget (d_in_flight demo_parked) ''main'' 0 = 2 \<and>
   dget (d_in_flight demo_parked) ''main'' 0 = slots_of_queue demo_parked ''main'' \<and>
   dget (d_sending demo_parked) (Some 7) 0 = sends_of_bot demo_parked (Some 7)"
proof -
  have "dget (d_in_flight demo_parked) ''main'' 0 = 2" by code_simp
  with delivery_books_exact [OF demo_init demo_run] show ?thesis by blast
qed

text \<open>
  C6.  With a budget per bot, no bot ever has more sends in flight than its budget, on any run.
\<close>

theorem delivery_bot_budget:
  assumes "delivery_init C queues = Inr s0" and "delivery_run C E s0 ts s" and "c_per_bot_limit C \<noteq> 0"
  shows "sends_of_bot s b \<le> int (c_per_bot_limit C)"
proof -
  have "sends_of_bot s b = dget (d_sending s) b 0"
    using run_books(1) [OF assms(1,2)] by (simp add: books_def)
  with run_books(2) [OF assms(1,2)] assms(3) show ?thesis by (simp add: in_budget_def)
qed

theorem delivery_bot_budget_witness:
  "c_per_bot_limit demo_conf \<noteq> 0 \<and> sends_of_bot demo_parked (Some 7) \<le> int (c_per_bot_limit demo_conf)"
proof -
  have "c_per_bot_limit demo_conf \<noteq> 0" by code_simp
  with delivery_bot_budget [OF demo_init demo_run] show ?thesis by blast
qed

text \<open>
  C4.  No message is acknowledged more often than it was taken.  On every run, the handles
  acknowledged, together with those of the sends outstanding, finished and parked, are among the
  handles taken, counted with multiplicity: a message still held has not been acknowledged, and a
  handler that reports, then raises, or reports twice, settles its message once.
\<close>

theorem delivery_settles_once:
  assumes "delivery_init C queues = Inr s0" and "delivery_run C E s0 ts s"
  shows "mset (d_acked s) + mset (map (\<lambda>(t, c). fst c) (d_live s)) +
         mset (map (\<lambda>(c, v). fst c) (d_finished s)) + mset (map p_handle (d_parked s))
         \<subseteq># mset (map tk_handle ts)"
  using run_books(3) [OF assms] by (simp add: answers_for_def ac_simps)

theorem delivery_settles_once_witness:
  "mset (d_acked demo_parked) + mset (map (\<lambda>(t, c). fst c) (d_live demo_parked)) +
   mset (map (\<lambda>(c, v). fst c) (d_finished demo_parked)) + mset (map p_handle (d_parked demo_parked))
   \<subseteq># {#0, 1#}"
  using delivery_settles_once [OF demo_init demo_run] by (simp add: demo_message_def)

text \<open>
   A parked message waits for a send of its own bot.  On every run the bot of each parked message
  is at its budget and has a send outstanding or finished, so a slot coming back is what hands the
  message over, a message read later cannot overtake one parked for the same bot, and nothing is
  parked for a bot that has room.
\<close>

theorem parked_waits_for_its_own_bot:
  assumes "delivery_init C queues = Inr s0" and "delivery_run C E s0 ts s" and "p \<in> set (d_parked s)"
  shows "at_its_own_capacity C (p_bot p) s \<and> 0 < sends_of_bot s (p_bot p)"
proof -
  have "parked_full C s0"
    using assms(1) by (auto simp: delivery_init_def parked_full_def Let_def split: if_splits)
  then have full: "at_its_own_capacity C (p_bot p) s"
    using run_parked_full [OF assms(2)] assms(3) by (simp add: parked_full_def)
  moreover have "sends_of_bot s (p_bot p) = dget (d_sending s) (p_bot p) 0"
    using run_books(1) [OF assms(1,2)] by (simp add: books_def)
  ultimately show ?thesis by (simp add: at_its_own_capacity_def)
qed

theorem parked_waits_for_its_own_bot_witness:
  "at_its_own_capacity demo_conf (p_bot (hd (d_parked demo_parked))) demo_parked \<and>
   0 < sends_of_bot demo_parked (p_bot (hd (d_parked demo_parked)))"
proof -
  have "hd (d_parked demo_parked) \<in> set (d_parked demo_parked)"
    using demo_parked_handles(1) by (intro hd_in_set) auto
  then show ?thesis by (rule parked_waits_for_its_own_bot [OF demo_init demo_run])
qed

text \<open>
  C15. The bound of a queue.  On a state of any run in which no queue is over \<open>MAX_IN_FLIGHT\<close>, a
  turn of the loop leaves no queue over it, whatever finishes, is handed over or fails meanwhile,
  provided the transport answers off the queues it was asked for and nobody changes the set of
  queues between the gate and the read.
\<close>

theorem turn_keeps_queue_bound:
  assumes "delivery_init C queues = Inr s0" and "delivery_run C E s0 ts s"
    and "reads_named C s" and "in_bound C s" and "c_limit C \<noteq> 0"
    and "answers_asked C answer" and "\<forall>es \<in> set holding. no_serves es" and "no_serves between"
    and "run_turn C E H holding between feed answer s = Some (s', again)"
  shows "in_bound C s'"
proof -
  have collected: "keeps C ([], s) ([], collect C H s)" by (rule keeps_collect)
  have kept: "books C [] x \<and> in_budget C x \<and> reads_named C x \<and> in_bound C x" if "keeps C ([], s) ([], x)" for x
    using that run_books [OF assms(1,2)] assms(3,4) reads_named_same [of s x C]
    by (auto simp: keeps_def in_bound_def intro: order_trans)
  show ?thesis
  proof (cases "d_stop s")
    case True
    with assms(9) kept [OF collected] show ?thesis by (simp add: run_turn_def)
  next
    case False
    with assms(9) obtain s1 where s1: "hold_for_capacity C H holding (collect C H s) = Some s1"
      by (auto simp: run_turn_def split: option.splits)
    have k1: "keeps C ([], s) ([], s1)"
      by (rule keeps_trans [OF collected keeps_hold_for_capacity [OF s1 assms(7)]])
    show ?thesis
    proof (cases "d_stop s1")
      case True
      with assms(9) False s1 have "s' = collect C H s1" by (simp add: run_turn_def)
      with kept [OF keeps_trans [OF k1 keeps_collect]] show ?thesis by simp
    next
      case go: False
      define s2 where "s2 = fold (apply_elsewhere C) between s1"
      have k2: "keeps C ([], s1) ([], s2)" unfolding s2_def by (rule keeps_elsewheres [OF assms(8)])
      have "read_and_dispatch C E H feed answer s2 = Some s'"
        using assms(9) False s1 go by (auto simp: run_turn_def s2_def)
      moreover have "\<not> at_capacity C [] s2"
        using gate_stays_open [OF k2] kept [OF k1] takes_hold_for_capacity [OF s1] go by blast
      ultimately show ?thesis
        using read_and_dispatch_bound [of C s2 answer E H feed s'] kept [OF keeps_trans [OF k1 k2]] assms(5,6)
        by blast
    qed
  qed
qed

theorem turn_keeps_queue_bound_witness:
  "d_in_flight (demo_turned []) = [(''main'', 2), (''vip'', 1)] \<and> in_bound demo_conf (demo_turned [])"
proof -
  have turn: "run_turn demo_conf demo_env demo_quiet [] [] [] demo_answer demo_parked = Some (demo_turned [], True)"
    by code_simp
  have "c_limit demo_conf \<noteq> 0" by code_simp
  moreover have "d_in_flight (demo_turned []) = [(''main'', 2), (''vip'', 1)]" by code_simp
  ultimately show ?thesis
    using turn_keeps_queue_bound [OF demo_init demo_run demo_parked_ok _ demo_answer_ok _ _ turn]
    by (simp add: no_serves_def)
qed

text \<open>
  The condition on \<open>serve\<close> is needed.  Where another thread narrows the consumer to its own
  queue after the gate has opened for another one, the read is not narrowed to the queues with
  room: \<open>readable\<close> answers \<open>None\<close> without a capacity check, the transport reads the
  consumer's own queue, and that queue goes over its bound.
\<close>

theorem serve_after_the_gate_exceeds_the_bound:
  "delivery_run demo_conf demo_env demo_start [demo_message ''seven'' 0, demo_message ''seven'' 1] demo_parked \<and>
   in_bound demo_conf demo_parked \<and> answers_asked demo_conf demo_answer \<and>
   run_turn demo_conf demo_env demo_quiet [] [Serves (OneName ''main'')] [] demo_answer demo_parked =
     Some (demo_turned [Serves (OneName ''main'')], True) \<and>
   c_limit demo_conf = 2 \<and> in_flight ''main'' (demo_turned [Serves (OneName ''main'')]) = 3"
proof (intro conjI)
  show "in_bound demo_conf demo_parked" by (rule demo_parked_ok)
  show "answers_asked demo_conf demo_answer" by (rule demo_answer_ok)
  show "delivery_run demo_conf demo_env demo_start [demo_message ''seven'' 0, demo_message ''seven'' 1] demo_parked"
    by (rule demo_run)
qed code_simp+

text \<open>
  C19.  A payload cannot forge a call.  Whatever keyword arguments a queued payload carries, the call
  made with a deferring handler has the function the envelope names (the one that was checked
  against the Telegram methods), the envelope's correlation id and timestamp, and the consumer's own
  completion and refusal callbacks.
\<close>

theorem payload_cannot_forge_the_call:
  assumes "c_defers C" and "c_releases C" and "p_call p = build_call (p_envelope p)"
  shows "map_of (p_call (with_callbacks C token p)) ''function'' = Some (Arg (PStr (env_function (p_envelope p)))) \<and>
         map_of (p_call (with_callbacks C token p)) ''queued_at'' =
           Some (Arg (PFloat (Fin (queued_at (p_envelope p))))) \<and>
         map_of (p_call (with_callbacks C token p)) ''correlation_id'' =
           Some (Arg (case correlation_id (p_envelope p) of None \<Rightarrow> PNone | Some u \<Rightarrow> PUuid u)) \<and>
         map_of (p_call (with_callbacks C token p)) ''on_complete'' = Some (OnComplete token) \<and>
         map_of (p_call (with_callbacks C token p)) ''on_refused'' = Some (OnRefused token) \<and>
         (\<forall>k. k \<notin> {''function'', ''queued_at'', ''correlation_id'', ''on_complete'', ''on_refused''} \<longrightarrow>
            map_of (p_call (with_callbacks C token p)) k = map_option Arg (map_of (env_kwargs (p_envelope p)) k))"
  using assms by (simp add: with_callbacks_def build_call_def update_conv' Let_def map_of_map case_prod_unfold
      map_of_map [unfolded case_prod_unfold])

theorem payload_cannot_forge_the_call_witness:
  "map_of (env_kwargs (p_envelope demo_forged)) ''function'' = Some (PStr ''log_out'') \<and>
   map_of (p_call (with_callbacks demo_conf 3 demo_forged)) ''function'' = Some (Arg (PStr ''send_message'')) \<and>
   map_of (p_call (with_callbacks demo_conf 3 demo_forged)) ''on_complete'' = Some (OnComplete 3)"
proof -
  have "c_defers demo_conf" "c_releases demo_conf" "p_call demo_forged = build_call (p_envelope demo_forged)"
    "map_of (env_kwargs (p_envelope demo_forged)) ''function'' = Some (PStr ''log_out'')"
    "env_function (p_envelope demo_forged) = ''send_message''"
    by code_simp+
  with payload_cannot_forge_the_call [of demo_conf demo_forged 3] show ?thesis by simp
qed

text \<open>
  C18. The gate opens.  If a send of a queue this consumer serves has finished, and that queue is not
  over its bound, then \<open>hold_for_capacity\<close> returns after at most as many turns as there are
  settlements before it, with nothing more happening elsewhere and whatever the handlers of the
  parked messages do.
\<close>

theorem gate_opens_when_a_send_finishes:
  assumes "delivery_init C queues = Inr s0" and "delivery_run C E s0 ts s"
    and "d_finished s = before @ ((h, b, q), v) # after" and "q \<in> set (d_queues s)"
    and "dget (d_in_flight s) q 0 \<le> int (c_limit C)"
  shows "\<exists>s'. hold_for_capacity C H (replicate (Suc (length before)) []) s = Some s'"
  by (rule hold_opens [OF assms(3) run_books(1,2) [OF assms(1,2)] assms(4,5)]) auto

theorem gate_opens_when_a_send_finishes_witness:
  "\<exists>s'. hold_for_capacity demo_conf demo_quiet [[]] (report 0 True demo_parked) = Some s'"
proof -
  have run: "delivery_run demo_conf demo_env demo_start [demo_message ''seven'' 0, demo_message ''seven'' 1]
      (report 0 True demo_parked)"
    using run_elsewhere [OF demo_run, of "Reports 0 True"] by simp
  have "d_finished (report 0 True demo_parked) = [] @ ((0, Some 7, ''main''), True) # []"
    "''main'' \<in> set (d_queues (report 0 True demo_parked))"
    "dget (d_in_flight (report 0 True demo_parked)) ''main'' 0 \<le> int (c_limit demo_conf)"
    by code_simp+
  from gate_opens_when_a_send_finishes [OF demo_init run this] show ?thesis by simp
qed

text \<open>
   What becomes of an unreadable payload.  The consumer leaves a message in flight because of its
  bytes in exactly two cases: the configuration refuses to read a pickle, or the payload is an
  envelope of a newer version than this reader knows.  Everything else that is not an envelope is
  acknowledged, so it cannot come back for ever.
\<close>

theorem left_in_flight_iff:
  "fst (read_message E raw) = None \<and> \<not> snd (read_message E raw) \<longleftrightarrow>
     e_loads E raw = PickleReadRefused \<or>
     (\<exists>d v. e_loads E raw = Decoded (PDict d) \<and> \<not> dhas d CONTROL_KEY \<and>
            unpack (e_text E) (PDict d) = Inl (UnknownEnvelopeVersionError v))"
proof (cases "e_loads E raw")
  case (Decoded p)
  have newer: "\<exists>d. p = PDict d" if "unpack (e_text E) p = Inl (UnknownEnvelopeVersionError v)" for v
    using that by (cases p) (simp_all add: unpack_def)
  show ?thesis
    using Decoded newer
    by (auto simp: read_message_def decoded_def is_control_def Let_def split: sum.splits env_error.splits pyval.splits if_splits)
qed (simp_all add: read_message_def decoded_def Let_def)

text \<open>
  A message for a bot this process does not serve is neither delivered by another bot nor
  acknowledged: \<open>dispatch\<close> calls no handler, changes nothing and answers that the message
  stays in flight.
\<close>

theorem foreign_bot_left_in_flight:
  assumes "read_message E raw = (Some e, True)" and "e_methods E (env_function e)"
    and "bot_id e = Some b" and "e_route E = None" and "Some b \<notin> set (e_configured E)"
  shows "dispatch C E H feed raw h q s = Some (s, False)"
  using assms by (simp add: dispatch_def handler_for_def Let_def)

theorem foreign_bot_left_in_flight_witness:
  "dispatch demo_conf (demo_env\<lparr> e_configured := [Some 42] \<rparr>) demo_quiet [] ''seven'' 0 ''main'' demo_start =
     Some (demo_start, False)"
proof -
  let ?E = "demo_env\<lparr> e_configured := [Some 42] \<rparr>"
  let ?e = "\<lparr> env_function = ''send_message'', env_kwargs = [], correlation_id = None, queued_at = 0, bot_id = Some 7 \<rparr>"
  have "read_message ?E ''seven'' = (Some ?e, True)" "e_methods ?E (env_function ?e)" "e_route ?E = None"
    "Some 7 \<notin> set (e_configured ?E)"
    by code_simp+
  then show ?thesis by (intro foreign_bot_left_in_flight [where e = ?e and b = 7]) simp_all
qed

end
