(* ===== verification/Throttling.thy ===== *)
theory Throttling
  imports Envelope "HOL-Library.List_Lexorder" "HOL-Library.Char_ord"
begin

text \<open>
  The pacing of outgoing calls, \<open>producer/throttling.py\<close>: the bucket that hands out slots
  (\<open>TokenBucket\<close>), the three budgets of a bot with their bounded maps of chats
  (\<open>RateLimiter\<close>), and the registry that keeps one limiter per token
  (\<open>_LimiterRegistry\<close>).

  A time is a rational number of seconds; rounding of floats is not modelled.  Each reading of the
  clock is an argument of the operation that makes it.  Buckets are shared objects: the maps hold
  their identities and a store holds their state, so a bucket dropped from a map while a caller
  still waits on it is represented.
\<close>

declare dict_simps [simp]

section \<open>The bucket\<close>

record bucket =
  b_rate :: rat
  b_capacity :: rat
  b_interval :: rat
  b_burst :: rat
  b_next_free :: rat

datatype limiter_error = RateMustBePositive | UnknownKeys "string list"

definition token_bucket :: "rat \<Rightarrow> rat option \<Rightarrow> rat \<Rightarrow> limiter_error + bucket" where
  "token_bucket rate capacity now =
     (if rate \<le> 0 then Inl RateMustBePositive
      else (let cap = (case capacity of Some c \<Rightarrow> c | None \<Rightarrow> max rate 1);
                interval = 1 / rate;
                burst = max 0 ((cap - 1) * interval)
            in Inr \<lparr> b_rate = rate, b_capacity = cap, b_interval = interval, b_burst = burst,
                     b_next_free = now - burst \<rparr>))"

definition is_idle :: "rat \<Rightarrow> bucket \<Rightarrow> bool" where
  "is_idle now b = (b_next_free b \<le> now - b_burst b)"

text \<open>
  \<open>acquire\<close>, in its two halves: the claim under the lock, and the wait, computed from a
  second reading of the clock.
\<close>

definition claim :: "rat \<Rightarrow> bucket \<Rightarrow> rat \<times> bucket" where
  "claim now b =
     (let slot = max (b_next_free b) (now - b_burst b) in (slot, b\<lparr> b_next_free := slot + b_interval b \<rparr>))"

definition admitted :: "rat \<Rightarrow> rat \<Rightarrow> rat" where
  "admitted slot later = (let wait = slot - later in if 0 < wait then later + wait else later)"

text \<open>A sequence of calls, each with the two clock readings it makes: slots and admissions.\<close>

fun acquire_all :: "bucket \<Rightarrow> (rat \<times> rat) list \<Rightarrow> (rat \<times> rat) list" where
  "acquire_all b [] = []"
| "acquire_all b ((now, later) # calls) =
     (let (slot, b') = claim now b in (slot, admitted slot later) # acquire_all b' calls)"

section \<open>The limiter of one bot\<close>

definition MAX_TRACKED_CHATS :: nat where
  "MAX_TRACKED_CHATS = 4096"

definition EVICTION_CANDIDATES :: nat where
  "EVICTION_CANDIDATES = 8"

record limiter =
  l_overall :: "nat option"
  l_per_chat_rate :: rat
  l_group_rate :: rat
  l_group_capacity :: "rat option"
  l_chats :: "(int \<times> nat) list"
  l_groups :: "(int \<times> nat) list"
  l_store :: "(nat \<times> bucket) list"
  l_next :: nat

definition new_bucket ::
  "rat \<Rightarrow> rat option \<Rightarrow> rat \<Rightarrow> limiter \<Rightarrow> limiter_error + nat option \<times> limiter" where
  "new_bucket rate capacity now L =
     (if rate = 0 then Inr (None, L)
      else case token_bucket rate capacity now of
             Inl e \<Rightarrow> Inl e
           | Inr b \<Rightarrow> Inr (Some (l_next L), L\<lparr> l_store := dset (l_next L) b (l_store L), l_next := Suc (l_next L) \<rparr>))"

definition rate_limiter :: "rat \<Rightarrow> rat \<Rightarrow> rat \<Rightarrow> rat \<Rightarrow> limiter_error + limiter" where
  "rate_limiter overall per_chat per_minute now =
     (let blank = \<lparr> l_overall = None, l_per_chat_rate = per_chat,
                    l_group_rate = (if per_minute \<noteq> 0 then per_minute / 60 else 0),
                    l_group_capacity = (if per_minute \<noteq> 0 then Some per_minute else None),
                    l_chats = [], l_groups = [], l_store = [], l_next = 0 \<rparr>
      in case new_bucket overall None now blank of
           Inl e \<Rightarrow> Inl e
         | Inr (made, L) \<Rightarrow> Inr (L\<lparr> l_overall := made \<rparr>))"

definition idle_in :: "rat \<Rightarrow> (nat \<times> bucket) list \<Rightarrow> nat \<Rightarrow> bool" where
  "idle_in now store i = (case map_of store i of None \<Rightarrow> False | Some b \<Rightarrow> is_idle now b)"

text \<open>\<open>OrderedDict.move_to_end(key, last=...)\<close> of a key the dictionary has.\<close>

definition move_to_end :: "bool \<Rightarrow> int \<Rightarrow> (int \<times> nat) list \<Rightarrow> (int \<times> nat) list" where
  "move_to_end last_end key chats =
     (case map_of chats key of
        None \<Rightarrow> chats
      | Some b \<Rightarrow> if last_end then ddel key chats @ [(key, b)] else (key, b) # ddel key chats)"

fun first_index :: "('a \<Rightarrow> bool) \<Rightarrow> 'a list \<Rightarrow> nat option" where
  "first_index P [] = None"
| "first_index P (x # xs) = (if P x then Some 0 else map_option Suc (first_index P xs))"

definition evict_one :: "(nat \<Rightarrow> bool) \<Rightarrow> (int \<times> nat) list \<Rightarrow> (int \<times> nat) list" where
  "evict_one idle chats =
     (let n = min EVICTION_CANDIDATES (length chats);
          candidates = take n chats;
          evict = (case first_index (\<lambda>(key, b). idle b) candidates of None \<Rightarrow> 0 | Some i \<Rightarrow> i);
          kept = take evict candidates @ drop (Suc evict) candidates
      in fold (\<lambda>(key, b) d. move_to_end False key (dset key b d)) (rev kept) (drop n chats))"

lemma length_move_to_end: "length (move_to_end l k d) \<le> length d"
proof (cases "map_of d k")
  case (Some b)
  then have "length (ddel k d) < length d"
  proof (induction d)
    case (Cons e d)
    then show ?case using length_delete_le [of k d] by (auto split: if_splits)
  qed simp
  with Some show ?thesis by (simp add: move_to_end_def)
qed (simp add: move_to_end_def)

lemma length_put_back:
  "length (fold (\<lambda>(key, b) d. move_to_end False key (dset key b d)) kept d) \<le> length kept + length d"
proof (induction kept arbitrary: d)
  case (Cons e kept)
  obtain k b where e: "e = (k, b)" by (cases e)
  have "length (dset k b d) \<le> Suc (length d)" by (induction d) auto
  with length_move_to_end [of False k "dset k b d"] Cons.IH [of "move_to_end False k (dset k b d)"]
  show ?case by (simp add: e)
qed simp

lemma first_index_less: "first_index P xs = Some i \<Longrightarrow> i < length xs \<and> P (xs ! i) \<and> (\<forall>j < i. \<not> P (xs ! j))"
proof (induction xs arbitrary: i)
  case (Cons x xs)
  then show ?case by (fastforce split: if_splits simp: nth_Cons' less_Suc_eq_0_disj)
qed simp

lemma length_evict_one: "chats \<noteq> [] \<Longrightarrow> length (evict_one idle chats) < length chats"
proof -
  assume ne: "chats \<noteq> []"
  define n where "n = min EVICTION_CANDIDATES (length chats)"
  define i where "i = (case first_index (\<lambda>(key, b). idle b) (take n chats) of None \<Rightarrow> 0 | Some i \<Rightarrow> i)"
  have "0 < n" using ne by (simp add: n_def EVICTION_CANDIDATES_def)
  have "i < length (take n chats)"
  proof (cases "first_index (\<lambda>(key, b). idle b) (take n chats)")
    case None
    with \<open>0 < n\<close> ne show ?thesis by (simp add: i_def)
  next
    case (Some j)
    with first_index_less [OF Some] show ?thesis by (simp add: i_def)
  qed
  define kept where "kept = length (take i (take n chats) @ drop (Suc i) (take n chats))"
  have "kept < n" using \<open>i < length (take n chats)\<close> by (auto simp: kept_def min_def)
  moreover have "length (evict_one idle chats) \<le> kept + (length chats - n)"
    unfolding evict_one_def Let_def n_def [symmetric] i_def [symmetric]
    using length_put_back [of "rev (take i (take n chats) @ drop (Suc i) (take n chats))" "drop n chats"]
    by (simp add: kept_def)
  moreover have "n \<le> length chats" by (simp add: n_def)
  ultimately show ?thesis by linarith
qed

function evict :: "(nat \<Rightarrow> bool) \<Rightarrow> (int \<times> nat) list \<Rightarrow> (int \<times> nat) list" where
  "evict idle chats = (if MAX_TRACKED_CHATS < length chats then evict idle (evict_one idle chats) else chats)"
  by pat_completeness auto
termination
  by (relation "measure (\<lambda>(idle, chats). length chats)") (auto simp: MAX_TRACKED_CHATS_def intro!: length_evict_one)

declare evict.simps [simp del]

datatype budget = Chats | Groups

fun buckets_of :: "budget \<Rightarrow> limiter \<Rightarrow> (int \<times> nat) list" where
  "buckets_of Chats L = l_chats L"
| "buckets_of Groups L = l_groups L"

fun set_buckets :: "budget \<Rightarrow> (int \<times> nat) list \<Rightarrow> limiter \<Rightarrow> limiter" where
  "set_buckets Chats m L = L\<lparr> l_chats := m \<rparr>"
| "set_buckets Groups m L = L\<lparr> l_groups := m \<rparr>"

definition for_key ::
  "budget \<Rightarrow> int \<Rightarrow> rat \<Rightarrow> rat option \<Rightarrow> rat \<Rightarrow> limiter \<Rightarrow> limiter_error + nat option \<times> limiter" where
  "for_key which key rate capacity now L =
     (case map_of (buckets_of which L) key of
        Some b \<Rightarrow> Inr (Some b, set_buckets which (move_to_end True key (buckets_of which L)) L)
      | None \<Rightarrow>
          (case new_bucket rate capacity now L of
             Inl e \<Rightarrow> Inl e
           | Inr (None, L') \<Rightarrow> Inr (None, L')
           | Inr (Some b, L') \<Rightarrow>
               (let chats = evict (idle_in now (l_store L')) (dset key b (buckets_of which L'))
                in Inr (Some b, set_buckets which (move_to_end True key chats) L'))))"

definition is_group :: "int \<Rightarrow> bool" where
  "is_group chat_id = (chat_id < 0)"

text \<open>
  \<open>int(text)\<close> for ASCII text: surrounding whitespace, a sign, digits with single underscores
  between them.
\<close>

definition digit_value :: "char \<Rightarrow> nat option" where
  "digit_value c = (let n = of_char c :: nat in if 48 \<le> n \<and> n \<le> 57 then Some (n - 48) else None)"

fun digits_run :: "bool \<Rightarrow> nat \<Rightarrow> string \<Rightarrow> nat option" where
  "digits_run after_digit acc [] = (if after_digit then Some acc else None)"
| "digits_run after_digit acc (c # cs) =
     (if c = CHR ''_'' then (if after_digit \<and> cs \<noteq> [] then digits_run False acc cs else None)
      else case digit_value c of None \<Rightarrow> None | Some d \<Rightarrow> digits_run True (10 * acc + d) cs)"

definition py_int10 :: "string \<Rightarrow> int option" where
  "py_int10 s =
     (case strip_if is_space s of
        [] \<Rightarrow> None
      | c # cs \<Rightarrow>
          if c = CHR ''-'' then map_option (\<lambda>n. - int n) (digits_run False 0 cs)
          else if c = CHR ''+'' then map_option int (digits_run False 0 cs)
          else map_option int (digits_run False 0 (c # cs)))"

fun chat_key :: "pyval \<Rightarrow> int option" where
  "chat_key (PInt n) = Some n"
| "chat_key (PStr s) = py_int10 s"
| "chat_key _ = None"

text \<open>The buckets a send draws on, in the order it waits for them.\<close>

definition select_buckets :: "pyval \<Rightarrow> rat \<Rightarrow> limiter \<Rightarrow> limiter_error + nat list \<times> limiter" where
  "select_buckets chat_id now L =
     (let overall = (case l_overall L of None \<Rightarrow> [] | Some b \<Rightarrow> [b])
      in case chat_key chat_id of
           None \<Rightarrow> Inr (overall, L)
         | Some key \<Rightarrow>
             (case for_key Chats key (l_per_chat_rate L) None now L of
                Inl e \<Rightarrow> Inl e
              | Inr (per_chat, L1) \<Rightarrow>
                  (case (if is_group key then for_key Groups key (l_group_rate L1) (l_group_capacity L1) now L1
                         else Inr (None, L1)) of
                     Inl e \<Rightarrow> Inl e
                   | Inr (per_group, L2) \<Rightarrow>
                       Inr (overall @ (case per_chat of None \<Rightarrow> [] | Some b \<Rightarrow> [b]) @
                              (case per_group of None \<Rightarrow> [] | Some b \<Rightarrow> [b]), L2))))"

text \<open>Claiming from the buckets in turn, with one clock reading and one wait each.\<close>

fun claim_each :: "nat list \<Rightarrow> (rat \<times> rat) list \<Rightarrow> limiter \<Rightarrow> rat list \<times> limiter" where
  "claim_each (b # bs) ((now, later) # clock) L =
     (case map_of (l_store L) b of
        None \<Rightarrow> claim_each bs clock L
      | Some bucket \<Rightarrow>
          (let (slot, bucket') = claim now bucket;
               (rest, L') = claim_each bs clock (L\<lparr> l_store := dset b bucket' (l_store L) \<rparr>)
           in (admitted slot later # rest, L')))"
| "claim_each _ _ L = ([], L)"

definition acquire_send ::
  "pyval \<Rightarrow> rat \<Rightarrow> (rat \<times> rat) list \<Rightarrow> limiter \<Rightarrow> limiter_error + rat list \<times> limiter" where
  "acquire_send chat_id now clock L =
     (case select_buckets chat_id now L of Inl e \<Rightarrow> Inl e | Inr (bs, L') \<Rightarrow> Inr (claim_each bs clock L'))"

section \<open>The registry of limiters\<close>

text \<open>
  A bot's settings, as far as pacing reads them: the limits, and the record they come from, if they
  come from one (a row of the database or a section of the settings, by its alias).  A limiter is
  named by the order it was built in.
\<close>

record pacing =
  pc_limits :: "(string \<times> rat) list"
  pc_record :: "(bool \<times> string) option"

record registry =
  g_limiters :: "(string \<times> nat) list"
  g_numbers :: "(string \<times> (string \<times> rat) list) list"
  g_owners :: "(string \<times> string option) list"
  g_told :: "string list"
  g_built :: "limiter list"

definition KNOWN_RATE_LIMIT_KEYS :: "string list" where
  "KNOWN_RATE_LIMIT_KEYS = [''overall_per_second'', ''per_chat_per_second'', ''group_per_minute'']"

definition build_rate_limiter :: "pacing \<Rightarrow> rat \<Rightarrow> limiter_error + limiter option" where
  "build_rate_limiter settings now =
     (let limits = pc_limits settings
      in if limits = [] then Inr None
         else (let unknown = sort (filter (\<lambda>k. k \<notin> set KNOWN_RATE_LIMIT_KEYS) (map fst limits))
               in if unknown \<noteq> [] then Inl (UnknownKeys unknown)
                  else map_sum id Some
                         (rate_limiter (dget limits ''overall_per_second'' 30)
                            (dget limits ''per_chat_per_second'' 1) (dget limits ''group_per_minute'' 20) now)))"

definition numbers :: "pacing \<Rightarrow> (string \<times> rat) list" where
  "numbers settings = sort_key fst (pc_limits settings)"

definition owner_of :: "pacing \<Rightarrow> string option" where
  "owner_of settings =
     map_option (\<lambda>(provided, alias). (if provided then ''row:'' else ''section:'') @ alias) (pc_record settings)"

definition registry_empty :: registry where
  "registry_empty = \<lparr> g_limiters = [], g_numbers = [], g_owners = [], g_told = [], g_built = [] \<rparr>"

definition may_rebuild :: "string \<Rightarrow> string option \<Rightarrow> registry \<Rightarrow> bool" where
  "may_rebuild token who G = (let held = dget (g_owners G) token None in held = None \<or> held = who)"

definition registry_get ::
  "string \<Rightarrow> pacing \<Rightarrow> rat \<Rightarrow> registry \<Rightarrow> limiter_error + nat option \<times> registry" where
  "registry_get token settings now G =
     (let asked = numbers settings; who = owner_of settings; known = dhas (g_owners G) token
      in if known \<and> map_of (g_numbers G) token = Some asked
         then (let G' = (if who \<noteq> None \<and> dget (g_owners G) token None = None
                         then G\<lparr> g_owners := dset token who (g_owners G) \<rparr> else G)
               in Inr (map_of (g_limiters G') token, G'))
         else if known \<and> \<not> may_rebuild token who G
         then Inr (map_of (g_limiters G) token,
                   if token \<in> set (g_told G) then G else G\<lparr> g_told := token # g_told G \<rparr>)
         else case build_rate_limiter settings now of
                Inl e \<Rightarrow> Inl e
              | Inr made \<Rightarrow>
                  (let G' = G\<lparr> g_numbers := dset token asked (g_numbers G), g_owners := dset token who (g_owners G) \<rparr>
                   in case made of
                        None \<Rightarrow> Inr (None, G'\<lparr> g_limiters := ddel token (g_limiters G') \<rparr>)
                      | Some L \<Rightarrow>
                          (let i = length (g_built G')
                           in Inr (Some i, G'\<lparr> g_limiters := dset token i (g_limiters G'),
                                              g_built := g_built G' @ [L] \<rparr>))))"

definition registry_clear :: "registry \<Rightarrow> registry" where
  "registry_clear G = G\<lparr> g_limiters := [], g_numbers := [], g_owners := [], g_told := [] \<rparr>"

section \<open>Slots\<close>

lemma claim_slot:
  assumes "claim now b = (slot, b')"
  shows "b_next_free b \<le> slot" and "now - b_burst b \<le> slot" and "b_next_free b' = slot + b_interval b"
    and "b_interval b' = b_interval b" and "b_burst b' = b_burst b"
  using assms by (auto simp: claim_def Let_def)

text \<open>Slots are at least an interval apart, in the order of the calls.\<close>

lemma slots_spaced:
  "0 \<le> b_interval b \<Longrightarrow>
   sorted_wrt (\<lambda>x y. fst x + b_interval b \<le> fst y) (acquire_all b calls) \<and>
   (\<forall>x \<in> set (acquire_all b calls). b_next_free b \<le> fst x)"
proof (induction b calls rule: acquire_all.induct)
  case (2 b now later calls)
  obtain slot b' where c: "claim now b = (slot, b')" by (cases "claim now b")
  note s = claim_slot [OF c]
  have IH: "sorted_wrt (\<lambda>x y. fst x + b_interval b \<le> fst y) (acquire_all b' calls)"
    "\<forall>x \<in> set (acquire_all b' calls). slot + b_interval b \<le> fst x"
    using "2.IH" [OF c [symmetric] refl] "2.prems" s by auto
  with s "2.prems" show ?case by (force simp: c)
qed simp

lemma slots_not_too_early:
  "(slot, adm) \<in> set (acquire_all b calls) \<Longrightarrow>
   \<exists>now later. (now, later) \<in> set calls \<and> adm = admitted slot later \<and> now - b_burst b \<le> slot"
proof (induction b calls rule: acquire_all.induct)
  case (2 b now later calls)
  obtain slot' b' where c: "claim now b = (slot', b')" by (cases "claim now b")
  note s = claim_slot [OF c]
  from "2.prems" consider "slot = slot'" "adm = admitted slot' later" | "(slot, adm) \<in> set (acquire_all b' calls)"
    by (auto simp: c)
  then show ?case
  proof cases
    case 1
    with s(2) show ?thesis by auto
  next
    case 2
    with "2.IH" [OF c [symmetric] refl] s(5) show ?thesis by auto
  qed
qed simp

lemma spaced_count:
  fixes lo hi d :: rat
  assumes "sorted_wrt (\<lambda>x y. fst x + d \<le> fst y) xs" and "\<forall>x \<in> set xs. lo \<le> fst x \<and> fst x \<le> hi" and "xs \<noteq> []"
  shows "(of_nat (length xs) - 1) * d \<le> hi - lo"
  using assms
proof (induction xs arbitrary: lo)
  case (Cons x xs)
  show ?case
  proof (cases "xs = []")
    case True
    with Cons.prems(2) show ?thesis by auto
  next
    case False
    have "(of_nat (length xs) - 1) * d \<le> hi - (fst x + d)"
      using Cons.prems by (intro Cons.IH) (auto simp: False)
    moreover have "lo \<le> fst x" using Cons.prems(2) by simp
    ultimately show ?thesis by (simp add: algebra_simps)
  qed
qed simp

lemma bucket_shape:
  assumes "token_bucket rate capacity t0 = Inr b"
  shows "0 < rate" and "b_interval b = 1 / rate" and "b_burst b = max 0 ((b_capacity b - 1) * (1 / rate))"
    and "b_next_free b = t0 - b_burst b"
  using assms by (auto simp: token_bucket_def Let_def split: if_splits)

lemma burst_times_rate:
  assumes "token_bucket rate capacity t0 = Inr b"
  shows "rate * b_burst b = max 0 (b_capacity b - 1)"
  using bucket_shape(1,3) [OF assms] by (simp add: max_def zero_le_divide_iff)

text \<open>Calls all made at one instant on a fresh bucket take consecutive slots.\<close>

lemma burst_slots:
  assumes "0 \<le> b_interval b" and "now - b_burst b \<le> b_next_free b"
  shows "map fst (acquire_all b (replicate n (now, now))) = map (\<lambda>k. b_next_free b + of_nat k * b_interval b) [0..<n]"
  using assms
proof (induction n arbitrary: b)
  case (Suc n)
  have c: "claim now b = (b_next_free b, b\<lparr> b_next_free := b_next_free b + b_interval b \<rparr>)"
    using Suc.prems(2) by (simp add: claim_def Let_def max_def)
  have "map fst (acquire_all (b\<lparr> b_next_free := b_next_free b + b_interval b \<rparr>) (replicate n (now, now))) =
      map (\<lambda>k. b_next_free b + b_interval b + of_nat k * b_interval b) [0..<n]"
    using Suc.IH [of "b\<lparr> b_next_free := b_next_free b + b_interval b \<rparr>"] Suc.prems by simp
  then show ?case by (simp add: c upt_rec [of 0 "Suc n"] map_Suc_upt [symmetric] algebra_simps del: upt_Suc)
qed simp

lemma length_filter_from: "length (filter (\<lambda>k. m \<le> k) [0..<n]) = n - (m :: nat)"
  by (induction n) (auto simp: Suc_diff_le)

section \<open>Eviction\<close>

lemma first_index_None: "first_index P xs = None \<longleftrightarrow> (\<forall>x \<in> set xs. \<not> P x)"
  by (induction xs) auto

lemma move_new_front: "k \<notin> fst ` set d \<Longrightarrow> move_to_end False k (dset k b d) = (k, b) # d"
proof -
  assume k: "k \<notin> fst ` set d"
  then have "dset k b d = d @ [(k, b)]" by (induction d) auto
  moreover have "map_of (d @ [(k, b)]) k = Some b"
    using k map_of_eq_None_iff [of d k] by (simp add: map_add_def)
  moreover have "ddel k (d @ [(k, b)]) = d" using k by (induction d) auto
  ultimately show ?thesis by (simp add: move_to_end_def)
qed

lemma dset_absent: "k \<notin> fst ` set d \<Longrightarrow> dset k b d = d @ [(k, b)]"
  by (induction d) auto

lemma move_new_back: "k \<notin> fst ` set d \<Longrightarrow> move_to_end True k (d @ [(k, b)]) = d @ [(k, b)]"
proof -
  assume k: "k \<notin> fst ` set d"
  then have "ddel k (d @ [(k, b)]) = d" by (induction d) auto
  then show ?thesis using k map_of_eq_None_iff [of d k] by (simp add: move_to_end_def map_add_def)
qed

text \<open>Putting the other candidates back leaves them where they were.\<close>

lemma put_back:
  "distinct (map fst (kept @ rest)) \<Longrightarrow>
   fold (\<lambda>(key, b) d. move_to_end False key (dset key b d)) (rev kept) rest = kept @ rest"
proof (induction kept)
  case (Cons e kept)
  obtain k b where e: "e = (k, b)" by (cases e)
  have "k \<notin> fst ` set (kept @ rest)" using Cons.prems by (auto simp: e)
  with Cons show ?case by (simp add: e move_new_front)
qed simp

lemma distinct_without_nth:
  assumes "distinct xs" and "i < length xs"
  shows "distinct (take i xs @ drop (Suc i) xs)"
proof -
  have "distinct (take i xs @ xs ! i # drop (Suc i) xs)"
    using assms by (simp flip: id_take_nth_drop)
  then show ?thesis by auto
qed

lemma evict_one_removes:
  assumes "distinct (map fst chats)" and "EVICTION_CANDIDATES \<le> length chats"
  obtains i where "i < EVICTION_CANDIDATES" and "evict_one idle chats = take i chats @ drop (Suc i) chats"
    and "idle (snd (chats ! i)) \<or> i = 0 \<and> (\<forall>j < EVICTION_CANDIDATES. \<not> idle (snd (chats ! j)))"
proof -
  define n where "n = EVICTION_CANDIDATES"
  define cs where "cs = take n chats"
  have len: "length cs = n" using assms(2) by (simp add: cs_def n_def)
  define i where "i = (case first_index (\<lambda>(key, b). idle b) cs of None \<Rightarrow> 0 | Some i \<Rightarrow> i)"
  have i: "i < n \<and> (idle (snd (chats ! i)) \<or> i = 0 \<and> (\<forall>j < n. \<not> idle (snd (chats ! j))))"
  proof (cases "first_index (\<lambda>(key, b). idle b) cs")
    case None
    then have busy: "\<not> idle (snd x)" if "x \<in> set cs" for x
      using that by (auto simp: first_index_None split_def)
    have "\<not> idle (snd (chats ! j))" if "j < n" for j
    proof -
      have "cs ! j \<in> set cs" using that len by simp
      from busy [OF this] that show ?thesis by (simp add: cs_def)
    qed
    with None show ?thesis by (simp add: i_def n_def EVICTION_CANDIDATES_def)
  next
    case (Some j)
    with first_index_less [OF Some] len show ?thesis by (auto simp: i_def cs_def split_def)
  qed
  have kept: "take i cs @ drop (Suc i) cs @ drop n chats = take i chats @ drop (Suc i) chats"
  proof -
    have "take i (cs @ r) @ drop (Suc i) (cs @ r) = take i cs @ drop (Suc i) cs @ r" for r
      using i len by simp
    from this [of "drop n chats"] show ?thesis by (simp add: cs_def)
  qed
  have "evict_one idle chats =
      fold (\<lambda>(key, b) d. move_to_end False key (dset key b d)) (rev (take i cs @ drop (Suc i) cs)) (drop n chats)"
    using assms(2) by (simp add: evict_one_def Let_def cs_def i_def n_def min_def)
  also have "\<dots> = (take i cs @ drop (Suc i) cs) @ drop n chats"
  proof (rule put_back)
    have "distinct (map fst (take i chats @ drop (Suc i) chats))"
      using distinct_without_nth [OF assms(1), of i] i assms(2) by (simp add: n_def take_map drop_map)
    then show "distinct (map fst ((take i cs @ drop (Suc i) cs) @ drop n chats))" using kept by simp
  qed
  finally show thesis using that [of i] i kept by (simp add: n_def)
qed

section \<open>Ownership of a token's pacing\<close>

text \<open>
  What one ask can change about another record's token: nothing but the note that the disagreement
  was reported.
\<close>

lemma registry_get_foreign:
  assumes "dget (g_owners G) token None = Some who" and "owner_of settings \<noteq> Some who"
    and "registry_get token settings now G = Inr (answer, G')"
  shows "answer = map_of (g_limiters G) token \<and> g_limiters G' = g_limiters G \<and> g_numbers G' = g_numbers G \<and>
         g_owners G' = g_owners G"
proof -
  have "dhas (g_owners G) token" using assms(1) by (auto simp: dhas_iff dget_def split: option.splits)
  with assms show ?thesis
    by (auto simp: registry_get_def may_rebuild_def Let_def split: if_splits)
qed

lemma registry_get_other_token:
  assumes "registry_get token' settings now G = Inr (answer, G')" and "token' \<noteq> token"
  shows "map_of (g_limiters G') token = map_of (g_limiters G) token \<and>
         dget (g_owners G') token None = dget (g_owners G) token None"
  using assms
  by (auto simp: registry_get_def Let_def update_conv' delete_conv' split: if_splits sum.splits option.splits)

text \<open>A sequence of asks; one that raises leaves the registry as it was.\<close>

fun asks :: "(string \<times> pacing \<times> rat) list \<Rightarrow> registry \<Rightarrow> registry" where
  "asks [] G = G"
| "asks ((token, settings, now) # rest) G =
     asks rest (case registry_get token settings now G of Inl _ \<Rightarrow> G | Inr (_, G') \<Rightarrow> G')"

lemma asks_foreign:
  assumes "dget (g_owners G) token None = Some who"
    and "\<forall>(token', settings, now) \<in> set calls. token' = token \<longrightarrow> owner_of settings \<noteq> Some who"
  shows "map_of (g_limiters (asks calls G)) token = map_of (g_limiters G) token \<and>
         dget (g_owners (asks calls G)) token None = Some who"
  using assms
proof (induction calls G rule: asks.induct)
  case (2 token' settings now rest G)
  define G' where "G' = (case registry_get token' settings now G of Inl _ \<Rightarrow> G | Inr (_, G') \<Rightarrow> G')"
  have kept: "map_of (g_limiters G') token = map_of (g_limiters G) token \<and> dget (g_owners G') token None = Some who"
  proof (cases "registry_get token' settings now G")
    case (Inl e)
    with "2.prems"(1) show ?thesis by (simp add: G'_def)
  next
    case (Inr r)
    obtain answer G1 where r: "r = (answer, G1)" by (cases r)
    show ?thesis
    proof (cases "token' = token")
      case True
      have "owner_of settings \<noteq> Some who" using "2.prems"(2) True by simp
      with registry_get_foreign [OF "2.prems"(1), of settings now answer G1] Inr r True "2.prems"(1)
      show ?thesis by (simp add: G'_def)
    next
      case False
      with registry_get_other_token [of token' settings now G answer G1 token] Inr r "2.prems"(1)
      show ?thesis by (simp add: G'_def)
    qed
  qed
  have "map_of (g_limiters (asks rest G')) token = map_of (g_limiters G') token \<and>
      dget (g_owners (asks rest G')) token None = Some who"
    unfolding G'_def by (rule "2.IH") (use kept "2.prems"(2) in \<open>auto simp: G'_def\<close>)
  with kept show ?case by (simp add: G'_def)
qed simp

section \<open>Properties\<close>

text \<open>
  C20.  The rate a bucket promises.  Whatever the calls and their clock readings, the number of calls
  admitted within any window is at most the rate times the window plus the burst capacity (at least
  one), the window widened by the longest time a call spent between its claim and its own second
  look at the clock.  The slots are claimed in the order of the calls, so admission is first come,
  first served.
\<close>

theorem bucket_rate_bound:
  assumes "token_bucket rate capacity t0 = Inr b" and "a \<le> z" and "0 \<le> lag"
    and "\<forall>(now, later) \<in> set calls. later \<le> now + lag"
  shows "of_nat (length (filter (\<lambda>(slot, adm). a \<le> adm \<and> adm \<le> z) (acquire_all b calls)))
           \<le> rate * (z - a + lag) + max 1 (b_capacity b)"
proof -
  note b = bucket_shape [OF assms(1)]
  define xs where "xs = filter (\<lambda>(slot, adm). a \<le> adm \<and> adm \<le> z) (acquire_all b calls)"
  note burst = burst_times_rate [OF assms(1)]
  have in_range: "a - lag - b_burst b \<le> fst x \<and> fst x \<le> z" if "x \<in> set xs" for x
  proof -
    obtain slot adm where x: "x = (slot, adm)" by (cases x)
    with that have "(slot, adm) \<in> set (acquire_all b calls)" and adm: "a \<le> adm" "adm \<le> z"
      by (auto simp: xs_def)
    then obtain now later where call: "(now, later) \<in> set calls" and "adm = admitted slot later"
      and early: "now - b_burst b \<le> slot"
      using slots_not_too_early by blast
    then have "slot \<le> adm" "adm = slot \<or> adm = later" by (auto simp: admitted_def Let_def)
    moreover have "later \<le> now + lag" using assms(4) call by blast
    moreover have "0 \<le> b_burst b" by (simp add: b(3))
    ultimately show ?thesis using adm early assms(3) by (auto simp: x)
  qed
  show ?thesis
  proof (cases "xs = []")
    case True
    then show ?thesis using b(1) assms(2,3) by (simp add: xs_def [symmetric] add_nonneg_nonneg)
  next
    case False
    have "sorted_wrt (\<lambda>x y. fst x + b_interval b \<le> fst y) xs"
      unfolding xs_def using slots_spaced [of b calls] b(1,2) by (intro sorted_wrt_filter) simp
    from spaced_count [OF this _ False, of "a - lag - b_burst b" z] in_range
    have "(of_nat (length xs) - 1) * (1 / rate) \<le> z - (a - lag - b_burst b)" by (simp add: b(2))
    then have "of_nat (length xs) - 1 \<le> rate * (z - a + lag) + rate * b_burst b"
      using b(1) by (simp add: field_simps)
    then show ?thesis by (simp add: burst xs_def max_def split: if_splits)
  qed
qed

definition demo_bucket :: bucket where
  "demo_bucket = \<lparr> b_rate = 1, b_capacity = 2, b_interval = 1, b_burst = 1, b_next_free = 9 \<rparr>"

theorem bucket_rate_bound_witness:
  "token_bucket 1 (Some 2) 10 = Inr demo_bucket \<and>
   (of_nat (length (filter (\<lambda>(slot, adm). 10 \<le> adm \<and> adm \<le> 11)
      (acquire_all demo_bucket [(10, 10), (10, 10), (10, 10), (10, 10)]))) :: rat)
     \<le> 1 * (11 - 10 + 0) + max 1 (b_capacity demo_bucket)"
proof -
  have b: "token_bucket 1 (Some 2) 10 = Inr demo_bucket" by (simp add: token_bucket_def demo_bucket_def)
  from b bucket_rate_bound [OF b, of 10 11 0 "[(10, 10), (10, 10), (10, 10), (10, 10)]"] show ?thesis by simp
qed

text \<open>
   The burst a fresh bucket gives.  Of \<open>n\<close> calls made at once, exactly
  \<open>n - max 1 (floor capacity)\<close> have to sleep: the burst goes through, a fraction of a slot
  buys nothing, and the first call is admitted whatever the capacity.
\<close>

theorem burst_admits_capacity:
  assumes "token_bucket rate capacity now = Inr b"
  shows "length (filter (\<lambda>(slot, adm). now < slot) (acquire_all b (replicate n (now, now)))) =
         n - max 1 (nat \<lfloor>b_capacity b\<rfloor>)"
proof -
  note b = bucket_shape [OF assms]
  let ?m = "max 1 (nat \<lfloor>b_capacity b\<rfloor>)"
  have waits: "now < b_next_free b + of_nat k * b_interval b \<longleftrightarrow> ?m \<le> k" for k
  proof -
    have "now < b_next_free b + of_nat k * b_interval b \<longleftrightarrow> b_burst b < of_nat k / rate"
      by (simp add: b(2,4) algebra_simps)
    also have "\<dots> \<longleftrightarrow> max 0 (b_capacity b - 1) < of_nat k"
      using burst_times_rate [OF assms] b(1) by (simp add: pos_less_divide_eq mult.commute)
    also have "\<dots> \<longleftrightarrow> 0 < k \<and> b_capacity b < of_nat (Suc k)" by (auto simp: max_def)
    also have "\<dots> \<longleftrightarrow> 0 < k \<and> \<lfloor>b_capacity b\<rfloor> < int (Suc k)" by (simp only: floor_less_iff of_int_of_nat_eq)
    also have "\<dots> \<longleftrightarrow> ?m \<le> k" by auto
    finally show ?thesis .
  qed
  have "map fst (acquire_all b (replicate n (now, now))) = map (\<lambda>k. b_next_free b + of_nat k * b_interval b) [0..<n]"
    using b by (intro burst_slots) auto
  then have "filter (\<lambda>slot. now < slot) (map fst (acquire_all b (replicate n (now, now)))) =
      map (\<lambda>k. b_next_free b + of_nat k * b_interval b) (filter (\<lambda>k. ?m \<le> k) [0..<n])"
    by (simp add: filter_map comp_def waits)
  from arg_cong [OF this, of length]
  have "length (filter (\<lambda>(slot, adm). now < slot) (acquire_all b (replicate n (now, now)))) =
      length (filter (\<lambda>k. ?m \<le> k) [0..<n])"
    by (simp add: filter_map comp_def split_def)
  also have "\<dots> = n - ?m" by (rule length_filter_from)
  finally show ?thesis .
qed

theorem burst_admits_capacity_witness:
  "token_bucket 1 (Some 2) 10 = Inr demo_bucket \<and>
   length (filter (\<lambda>(slot, adm). 10 < slot) (acquire_all demo_bucket (replicate 5 (10, 10)))) = 3"
proof -
  have b: "token_bucket 1 (Some 2) 10 = Inr demo_bucket" by (simp add: token_bucket_def demo_bucket_def)
  have "b_capacity demo_bucket = 2" by (simp add: demo_bucket_def)
  with b burst_admits_capacity [OF b, of 5] show ?thesis by simp
qed

text \<open>
   What the bounded map forgets.  Using a chat's budget leaves the map at most at its cap, with
  that chat as the most recently used entry and every other entry either kept, in its order, or the
  one evicted; the evicted entry is among the eight least recently used, and it owes no wait unless
  all eight do, in which case it is the least recently used one.
\<close>

theorem for_key_keeps_the_cap:
  assumes "distinct (map fst (buckets_of which L))" and "length (buckets_of which L) \<le> MAX_TRACKED_CHATS"
    and "for_key which key rate capacity now L = Inr (Some b, L')"
  shows "length (buckets_of which L') \<le> MAX_TRACKED_CHATS \<and> distinct (map fst (buckets_of which L')) \<and>
         last (buckets_of which L') = (key, b) \<and>
         (butlast (buckets_of which L') = ddel key (buckets_of which L) \<or>
          (\<exists>i < EVICTION_CANDIDATES.
             butlast (buckets_of which L') = take i (buckets_of which L) @ drop (Suc i) (buckets_of which L) \<and>
             (idle_in now (l_store L') (snd (buckets_of which L ! i)) \<or>
              i = 0 \<and> (\<forall>j < EVICTION_CANDIDATES. \<not> idle_in now (l_store L') (snd (buckets_of which L ! j))))))"
proof (cases "map_of (buckets_of which L) key")
  case (Some b')
  with assms(3) have b: "b' = b" and L': "L' = set_buckets which (move_to_end True key (buckets_of which L)) L"
    by (auto simp: for_key_def)
  have "buckets_of which L' = ddel key (buckets_of which L) @ [(key, b)]"
    using Some b by (cases which) (simp_all add: L' move_to_end_def)
  moreover from this have "length (buckets_of which L') \<le> length (buckets_of which L)"
    using length_move_to_end [of True key "buckets_of which L"] by (cases which) (simp_all add: L')
  ultimately show ?thesis using assms(1,2) distinct_delete [OF assms(1), of key] by (simp add: delete_keys)
next
  case None
  let ?old = "buckets_of which L"
  have new: "key \<notin> fst ` set ?old" using None by (simp add: map_of_eq_None_iff)
  obtain L1 where L1: "new_bucket rate capacity now L = Inr (Some b, L1)"
    and L': "L' = set_buckets which (move_to_end True key (evict (idle_in now (l_store L1)) (dset key b (buckets_of which L1)))) L1"
    using assms(3) None by (auto simp: for_key_def Let_def split: sum.splits option.splits)
  have same: "buckets_of which L1 = ?old"
    using L1 by (cases which) (auto simp: new_bucket_def split: if_splits sum.splits)
  define idle where "idle = idle_in now (l_store L')"
  have idle: "idle_in now (l_store L1) = idle" by (cases which) (simp_all add: idle_def L')
  have L'': "buckets_of which L' = move_to_end True key (evict idle (?old @ [(key, b)]))"
    using same idle dset_absent [OF new, of b] by (cases which) (simp_all add: L')
  show ?thesis
  proof (cases "length ?old = MAX_TRACKED_CHATS")
    case False
    then have "buckets_of which L' = ?old @ [(key, b)]"
      using assms(2) move_new_back [OF new, of b] by (simp add: L'' evict.simps)
    with False assms(1,2) new show ?thesis by simp
  next
    case True
    let ?chats = "?old @ [(key, b)]"
    have "distinct (map fst ?chats)" "EVICTION_CANDIDATES \<le> length ?chats"
      using assms(1) new True by (auto simp: MAX_TRACKED_CHATS_def EVICTION_CANDIDATES_def)
    then obtain i where i: "i < EVICTION_CANDIDATES"
      and one: "evict_one idle ?chats = take i ?chats @ drop (Suc i) ?chats"
      and why: "idle (snd (?chats ! i)) \<or> i = 0 \<and> (\<forall>j < EVICTION_CANDIDATES. \<not> idle (snd (?chats ! j)))"
      by (rule evict_one_removes)
    let ?kept = "take i ?old @ drop (Suc i) ?old"
    have small: "j < length ?old" if "j < EVICTION_CANDIDATES" for j
      using that True by (simp add: MAX_TRACKED_CHATS_def EVICTION_CANDIDATES_def)
    have one': "evict_one idle ?chats = ?kept @ [(key, b)]" using one small [OF i] by simp
    have len: "length (?kept @ [(key, b)]) = MAX_TRACKED_CHATS" using small [OF i] True by simp
    have "evict idle ?chats = ?kept @ [(key, b)]"
      using True len by (simp add: evict.simps [of idle ?chats] one' evict.simps [of idle "?kept @ [(key, b)]"] del: append_assoc)
    moreover have "key \<notin> fst ` set ?kept" using new set_take_subset [of i ?old] set_drop_subset [of "Suc i" ?old] by auto
    ultimately have b': "buckets_of which L' = ?kept @ [(key, b)]" by (simp add: L'' move_new_back del: append_assoc)
    have "distinct (map fst ?kept)"
      using distinct_without_nth [OF assms(1), of i] small [OF i] by (simp add: take_map drop_map)
    moreover have "idle (snd (?old ! i)) \<or> i = 0 \<and> (\<forall>j < EVICTION_CANDIDATES. \<not> idle (snd (?old ! j)))"
      using why i small by (auto simp: nth_append)
    ultimately show ?thesis
      using b' i len \<open>key \<notin> fst ` set ?kept\<close> unfolding idle_def by (auto simp del: append_assoc simp: butlast_append)
  qed
qed

theorem for_key_keeps_the_cap_witness:
  "for_key Chats 5 1 None 10
     \<lparr> l_overall = None, l_per_chat_rate = 1, l_group_rate = 0, l_group_capacity = None, l_chats = [(3, 0), (5, 1)],
       l_groups = [], l_store = [(0, demo_bucket), (1, demo_bucket)], l_next = 2 \<rparr> =
   Inr (Some 1, \<lparr> l_overall = None, l_per_chat_rate = 1, l_group_rate = 0, l_group_capacity = None,
       l_chats = [(3, 0), (5, 1)], l_groups = [], l_store = [(0, demo_bucket), (1, demo_bucket)], l_next = 2 \<rparr>) \<and>
   length (buckets_of Chats \<lparr> l_overall = None, l_per_chat_rate = 1, l_group_rate = 0, l_group_capacity = None,
       l_chats = [(3, 0), (5, 1)], l_groups = [], l_store = [(0, demo_bucket), (1, demo_bucket)], l_next = 2 \<rparr>)
     \<le> MAX_TRACKED_CHATS"
proof -
  let ?L = "\<lparr> l_overall = None, l_per_chat_rate = 1, l_group_rate = 0, l_group_capacity = None,
       l_chats = [(3 :: int, 0 :: nat), (5, 1)], l_groups = [], l_store = [(0, demo_bucket), (1, demo_bucket)], l_next = 2 \<rparr>"
  have used: "for_key Chats 5 1 None 10 ?L = Inr (Some 1, ?L)" by (simp add: for_key_def move_to_end_def)
  have "distinct (map fst (buckets_of Chats ?L))" "length (buckets_of Chats ?L) \<le> MAX_TRACKED_CHATS"
    by (simp_all add: MAX_TRACKED_CHATS_def)
  from for_key_keeps_the_cap [OF this used] used show ?thesis by blast
qed

text \<open>
   One token, one decision.  Once a record owns the pacing of a token, no sequence of asks by
  other records, for this token or any other, rebuilds its limiter or takes the token over; the
  limiter they are answered with is the owner's.  The owner's decision not to pace is kept the same
  way.
\<close>

theorem token_pacing_is_owned:
  assumes "dget (g_owners G) token None = Some who"
    and "\<forall>(token', settings, now) \<in> set calls. token' = token \<longrightarrow> owner_of settings \<noteq> Some who"
    and "owner_of settings \<noteq> Some who"
    and "registry_get token settings now (asks calls G) = Inr (answer, G')"
  shows "answer = map_of (g_limiters G) token \<and> dget (g_owners G') token None = Some who"
  using asks_foreign [OF assms(1,2)] registry_get_foreign [OF _ assms(3,4)] by simp

definition demo_pacing :: "bool \<Rightarrow> rat \<Rightarrow> pacing" where
  "demo_pacing provided rate = \<lparr> pc_limits = [(''overall_per_second'', rate)], pc_record = Some (provided, ''shop'') \<rparr>"

definition demo_registry :: registry where
  "demo_registry = asks [(''tok'', demo_pacing True 30, 0)] registry_empty"

theorem token_pacing_is_owned_witness:
  "map_of (g_limiters demo_registry) ''tok'' = Some 0 \<and>
   (\<exists>G'. registry_get ''tok'' (demo_pacing False 7) 9 (asks [(''tok'', demo_pacing False 5, 3)] demo_registry) =
           Inr (Some 0, G') \<and> dget (g_owners G') ''tok'' None = Some ''row:shop'')"
proof -
  have held: "dget (g_owners demo_registry) ''tok'' None = Some ''row:shop''"
    "map_of (g_limiters demo_registry) ''tok'' = Some 0" by code_simp+
  have other: "owner_of (demo_pacing False r) \<noteq> Some ''row:shop''" for r
    by (simp add: demo_pacing_def owner_of_def)
  have "\<not> isl (registry_get ''tok'' (demo_pacing False 7) 9 (asks [(''tok'', demo_pacing False 5, 3)] demo_registry))"
    by code_simp
  then obtain r where "registry_get ''tok'' (demo_pacing False 7) 9 (asks [(''tok'', demo_pacing False 5, 3)] demo_registry) = Inr r"
    by (metis sum.collapse(2))
  moreover obtain answer G' where "r = (answer, G')" by (cases r)
  ultimately have got: "registry_get ''tok'' (demo_pacing False 7) 9 (asks [(''tok'', demo_pacing False 5, 3)] demo_registry) =
      Inr (answer, G')" by simp
  from token_pacing_is_owned [OF held(1) _ other got] held(2) got show ?thesis by (simp add: other)
qed

end
