(* ===== verification/BrokerContract.thy ===== *)
theory BrokerContract
  imports BrokerBase
begin

text \<open>
  The contract every transport answers, \<open>broker/base.py\<close>: what publishing, taking, settling,
  releasing and reclaiming promise of the messages waiting on the queue and of those held.  The
  operations are a record, so that runs of them are a definition; the promises are the assumptions
  of the locale \<open>broker_contract\<close>, and its lemmas are what a consumer may rely on whichever
  transport it is given: no message is lost or duplicated, and messages are taken in the order they
  were published.
\<close>

record ('s, 'h) transport =
  t_publish :: "bytes list \<Rightarrow> 's \<Rightarrow> 's"
  t_take :: "'s \<Rightarrow> 'h taken option \<times> 's"
  t_ack :: "'h \<Rightarrow> 's \<Rightarrow> 's"
  t_release :: "'h \<Rightarrow> 's \<Rightarrow> 's"
  t_reclaim :: "'s \<Rightarrow> nat \<times> 's"

datatype 'h broker_op = Publish "bytes list" | Take | Ack 'h | Release 'h | Reclaim

text \<open>What is held, oldest first: each message's handle and payload.\<close>

type_synonym 'h holding = "('h \<times> bytes) list"

text \<open>Dropping the first entry a handle names, and the payload it settles.\<close>

fun drop_first :: "'h \<Rightarrow> 'h holding \<Rightarrow> 'h holding" where
  "drop_first h [] = []"
| "drop_first h (e # es) = (if fst e = h then es else e # drop_first h es)"

definition settles :: "'h \<Rightarrow> 'h holding \<Rightarrow> bytes list" where
  "settles h held = (case map_of held h of None \<Rightarrow> [] | Some p \<Rightarrow> [p])"

lemma drop_first_settles: "mset (map snd held) = mset (map snd (drop_first h held)) + mset (settles h held)"
  by (induction held) (auto simp: settles_def)

text \<open>
  A run of operations: the state it ends in, and what was published, taken and settled on the way.
\<close>

record 's history =
  y_state :: 's
  y_published :: "bytes list"
  y_taken :: "bytes list"
  y_settled :: "bytes list"

definition run_op ::
  "('s, 'h) transport \<Rightarrow> ('s \<Rightarrow> 'h holding) \<Rightarrow> 'h broker_op \<Rightarrow> 's history \<Rightarrow> 's history" where
  "run_op B held op y =
     (case op of
        Publish ps \<Rightarrow> y\<lparr> y_state := t_publish B ps (y_state y), y_published := y_published y @ ps \<rparr>
      | Take \<Rightarrow>
          (case t_take B (y_state y) of
             (None, s) \<Rightarrow> y\<lparr> y_state := s \<rparr>
           | (Some t, s) \<Rightarrow> y\<lparr> y_state := s, y_taken := y_taken y @ [tk_payload t] \<rparr>)
      | Ack h \<Rightarrow> y\<lparr> y_state := t_ack B h (y_state y), y_settled := y_settled y @ settles h (held (y_state y)) \<rparr>
      | Release h \<Rightarrow> y\<lparr> y_state := t_release B h (y_state y) \<rparr>
      | Reclaim \<Rightarrow> y\<lparr> y_state := snd (t_reclaim B (y_state y)) \<rparr>)"

definition run_ops ::
  "('s, 'h) transport \<Rightarrow> ('s \<Rightarrow> 'h holding) \<Rightarrow> 'h broker_op list \<Rightarrow> 's \<Rightarrow> 's history" where
  "run_ops B held ops s =
     fold (run_op B held) ops \<lparr> y_state = s, y_published = [], y_taken = [], y_settled = [] \<rparr>"

definition publishes_only :: "(bytes \<Rightarrow> bool) \<Rightarrow> 'h broker_op \<Rightarrow> bool" where
  "publishes_only good op = (case op of Publish ps \<Rightarrow> list_all good ps | _ \<Rightarrow> True)"

definition forward_only :: "'h broker_op \<Rightarrow> bool" where
  "forward_only op = (case op of Release _ \<Rightarrow> False | Reclaim \<Rightarrow> False | _ \<Rightarrow> True)"

locale broker_contract =
  fixes B :: "('s, 'h) transport"
    and waiting :: "'s \<Rightarrow> bytes list"
    and held :: "'s \<Rightarrow> 'h holding"
    and sound :: "'s \<Rightarrow> bool"
    and good :: "bytes \<Rightarrow> bool"
  assumes publish_sound: "\<lbrakk> sound s; list_all good ps \<rbrakk> \<Longrightarrow> sound (t_publish B ps s)"
    and publish_waiting: "sound s \<Longrightarrow> waiting (t_publish B ps s) = waiting s @ ps"
    and publish_held: "sound s \<Longrightarrow> held (t_publish B ps s) = held s"
    and take_empty: "\<lbrakk> sound s; waiting s = [] \<rbrakk> \<Longrightarrow>
          \<exists>s'. t_take B s = (None, s') \<and> waiting s' = [] \<and> held s' = held s \<and> sound s'"
    and take_first: "\<lbrakk> sound s; waiting s = p # ps \<rbrakk> \<Longrightarrow>
          \<exists>t s'. t_take B s = (Some t, s') \<and> tk_payload t = p \<and> waiting s' = ps \<and>
                 held s' = held s @ [(tk_handle t, p)] \<and> sound s'"
    and ack_sound: "sound s \<Longrightarrow> sound (t_ack B h s)"
    and ack_waiting: "sound s \<Longrightarrow> waiting (t_ack B h s) = waiting s"
    and ack_held: "sound s \<Longrightarrow> held (t_ack B h s) = drop_first h (held s)"
    and release_sound: "sound s \<Longrightarrow> sound (t_release B h s)"
    and release_keeps: "sound s \<Longrightarrow>
          mset (waiting (t_release B h s)) + mset (map snd (held (t_release B h s))) =
          mset (waiting s) + mset (map snd (held s))"
    and reclaim_sound: "sound s \<Longrightarrow> sound (snd (t_reclaim B s))"
    and reclaim_waiting: "sound s \<Longrightarrow> waiting (snd (t_reclaim B s)) = map snd (held s) @ waiting s"
    and reclaim_held: "sound s \<Longrightarrow> held (snd (t_reclaim B s)) = []"
    and reclaim_count: "sound s \<Longrightarrow> fst (t_reclaim B s) = length (held s)"
begin

lemma take_cases:
  assumes "sound s"
  obtains (nothing) s' where "waiting s = []" "t_take B s = (None, s')" "waiting s' = []" "held s' = held s" "sound s'"
  | (first) p ps t s' where "waiting s = p # ps" "t_take B s = (Some t, s')" "tk_payload t = p" "waiting s' = ps"
      "held s' = held s @ [(tk_handle t, p)]" "sound s'"
proof (cases "waiting s")
  case Nil
  from take_empty [OF assms Nil] that(1) [OF Nil] show thesis by blast
next
  case (Cons p ps)
  from take_first [OF assms Cons] that(2) [OF Cons] show thesis by blast
qed

text \<open>One operation moves messages between waiting, held and settled and loses none.\<close>

definition balanced :: "bytes multiset \<Rightarrow> 's history \<Rightarrow> bool" where
  "balanced start y \<longleftrightarrow>
     sound (y_state y) \<and>
     start + mset (y_published y) =
       mset (waiting (y_state y)) + mset (map snd (held (y_state y))) + mset (y_settled y)"

lemma run_op_balanced:
  assumes "balanced start y" and "publishes_only good op"
  shows "balanced start (run_op B held op y)"
proof -
  have s: "sound (y_state y)" using assms(1) by (simp add: balanced_def)
  show ?thesis
  proof (cases op)
    case (Publish ps)
    with assms s show ?thesis
      by (simp add: balanced_def run_op_def publishes_only_def publish_sound publish_waiting publish_held ac_simps)
  next
    case Take
    from s show ?thesis
    proof (cases rule: take_cases)
      case nothing
      with assms Take show ?thesis by (simp add: balanced_def run_op_def)
    next
      case (first p ps t s')
      with assms Take show ?thesis by (simp add: balanced_def run_op_def)
    qed
  next
    case (Ack h)
    with assms s drop_first_settles [of "held (y_state y)" h] show ?thesis
      by (simp add: balanced_def run_op_def ack_sound ack_waiting ack_held ac_simps)
  next
    case (Release h)
    with assms s release_keeps [OF s, of h] show ?thesis
      by (simp add: balanced_def run_op_def release_sound)
  next
    case Reclaim
    with assms s show ?thesis
      by (simp add: balanced_def run_op_def reclaim_sound reclaim_waiting reclaim_held ac_simps)
  qed
qed

lemma run_ops_balanced:
  assumes "sound s" and "list_all (publishes_only good) ops"
  shows "balanced (mset (waiting s) + mset (map snd (held s))) (run_ops B held ops s)"
proof -
  have "balanced start (fold (run_op B held) ops y)" if "balanced start y" for start y
    using that assms(2) by (induction ops arbitrary: y) (auto intro: run_op_balanced)
  then show ?thesis unfolding run_ops_def by (simp add: balanced_def assms(1))
qed

text \<open>Conservation: every message is waiting, held or settled, and exactly once.\<close>

lemma conserves:
  assumes "sound s" and "waiting s = []" and "held s = []" and "list_all (publishes_only good) ops"
  shows "mset (y_published (run_ops B held ops s)) =
         mset (waiting (y_state (run_ops B held ops s))) + mset (map snd (held (y_state (run_ops B held ops s)))) +
         mset (y_settled (run_ops B held ops s))"
  using run_ops_balanced [OF assms(1,4)] assms(2,3) by (simp add: balanced_def)

text \<open>Order: without releases and reclaims, messages are taken in the order they were published.\<close>

lemma first_in_first_out:
  assumes "sound s" and "waiting s = []" and "list_all (publishes_only good) ops" and "list_all forward_only ops"
  shows "y_taken (run_ops B held ops s) @ waiting (y_state (run_ops B held ops s)) = y_published (run_ops B held ops s)"
proof -
  define fifo where "fifo y \<longleftrightarrow> sound (y_state y) \<and> y_taken y @ waiting (y_state y) = y_published y" for y :: "'s history"
  have one: "fifo (run_op B held op y)" if "fifo y" "publishes_only good op" "forward_only op" for op y
  proof (cases op)
    case Take
    have s: "sound (y_state y)" using that(1) by (simp add: fifo_def)
    then show ?thesis
    proof (cases rule: take_cases)
      case nothing
      with that Take show ?thesis by (simp add: fifo_def run_op_def)
    next
      case (first p ps t s')
      with that Take show ?thesis by (simp add: fifo_def run_op_def)
    qed
  qed (use that in \<open>auto simp: fifo_def run_op_def publishes_only_def forward_only_def publish_sound
      publish_waiting ack_sound ack_waiting\<close>)
  have "fifo (fold (run_op B held) ops y)" if "fifo y" for y
    using that assms(3,4) by (induction ops arbitrary: y) (auto intro: one)
  then show ?thesis unfolding run_ops_def using assms(1,2) by (simp add: fifo_def)
qed

end

end
