(* ===== verification/MemoryBroker.thy ===== *)
theory MemoryBroker
  imports BrokerContract
begin

text \<open>
  The transport that lives in the process, \<open>testing/broker.py\<close>: a deque of waiting payloads,
  a dictionary of what is in flight by handle, and the counter handles come from.  It is shown to
  answer the contract of the transports; the properties follow from the contract.
\<close>

declare dict_simps [simp]

section \<open>State and operations\<close>

record memory =
  m_waiting :: "bytes list"
  m_inflight :: "(int \<times> bytes) list"
  m_handles :: int

datatype memory_error =
    NotAHandle string
  | Multiplexing multiplexing_error
  | WorkerDepthUnavailable string

definition memory_init :: memory where
  "memory_init = \<lparr> m_waiting = [], m_inflight = [], m_handles = 1 \<rparr>"

definition messages :: "memory \<Rightarrow> bytes list" where
  "messages s = m_waiting s"

definition memory_publish :: "bytes list \<Rightarrow> memory \<Rightarrow> memory" where
  "memory_publish payloads s =
     (if payloads = [] then s else s\<lparr> m_waiting := m_waiting s @ payloads \<rparr>)"

text \<open>\<open>_issue\<close>; called only where something waits.\<close>

definition issue :: "memory \<Rightarrow> int taken \<times> memory" where
  "issue s =
     (let payload = hd (m_waiting s); handle = m_handles s
      in (\<lparr> tk_payload = payload, tk_handle = handle, tk_queue = [] \<rparr>,
          s\<lparr> m_waiting := tl (m_waiting s), m_handles := handle + 1,
             m_inflight := dset handle payload (m_inflight s) \<rparr>))"

text \<open>
  \<open>take\<close>: \<open>arriving\<close> are the payloads other threads publish before the wait is over.
\<close>

definition memory_take ::
  "string \<Rightarrow> queue_arg \<Rightarrow> bytes list \<Rightarrow> memory \<Rightarrow> memory_error + int taken option \<times> memory" where
  "memory_take mine queues arriving s =
     (case one_queue mine queues of
        Inl e \<Rightarrow> Inl (Multiplexing e)
      | Inr _ \<Rightarrow>
          (let s' = (if m_waiting s = [] then memory_publish arriving s else s)
           in if m_waiting s' = [] then Inr (None, s')
              else (let (t, s'') = issue s' in Inr (Some t, s''))))"

definition memory_take_nowait ::
  "string \<Rightarrow> queue_arg \<Rightarrow> memory \<Rightarrow> memory_error + int taken option \<times> memory" where
  "memory_take_nowait mine queues s =
     (case one_queue mine queues of
        Inl e \<Rightarrow> Inl (Multiplexing e)
      | Inr _ \<Rightarrow> if m_waiting s \<noteq> [] then (let (t, s') = issue s in Inr (Some t, s')) else Inr (None, s))"

fun as_handle :: "pyval \<Rightarrow> memory_error + int" where
  "as_handle (PInt n) = Inr n"
| "as_handle v = Inl (NotAHandle (type_name v))"

definition memory_ack :: "pyval \<Rightarrow> memory \<Rightarrow> memory_error + memory" where
  "memory_ack handle s =
     (case as_handle handle of
        Inl e \<Rightarrow> Inl e
      | Inr h \<Rightarrow> Inr (s\<lparr> m_inflight := ddel h (m_inflight s) \<rparr>))"

definition memory_release :: "pyval \<Rightarrow> memory \<Rightarrow> memory_error + memory" where
  "memory_release handle s =
     (case as_handle handle of
        Inl e \<Rightarrow> Inl e
      | Inr h \<Rightarrow>
          (case map_of (m_inflight s) h of
             None \<Rightarrow> Inr s
           | Some payload \<Rightarrow>
               Inr (s\<lparr> m_inflight := ddel h (m_inflight s), m_waiting := payload # m_waiting s \<rparr>)))"

definition memory_reclaim :: "string \<Rightarrow> queue_arg \<Rightarrow> memory \<Rightarrow> memory_error + nat \<times> memory" where
  "memory_reclaim mine queues s =
     (case one_queue mine queues of
        Inl e \<Rightarrow> Inl (Multiplexing e)
      | Inr _ \<Rightarrow>
          Inr (length (m_inflight s),
               s\<lparr> m_waiting := fold (\<lambda>payload waiting. payload # waiting) (rev (map snd (m_inflight s))) (m_waiting s),
                  m_inflight := [] \<rparr>))"

definition memory_discard :: "bool \<Rightarrow> memory \<Rightarrow> bool \<times> memory" where
  "memory_discard if_empty s =
     (if if_empty \<and> (m_waiting s \<noteq> [] \<or> m_inflight s \<noteq> []) then (False, s)
      else (True, s\<lparr> m_waiting := [], m_inflight := [] \<rparr>))"

definition memory_depth :: "memory \<Rightarrow> nat" where
  "memory_depth s = length (m_waiting s)"

definition memory_inflight_depth :: "string option \<Rightarrow> memory \<Rightarrow> memory_error + nat" where
  "memory_inflight_depth worker s =
     (case worker of Some w \<Rightarrow> Inl (WorkerDepthUnavailable w) | None \<Rightarrow> Inr (length (m_inflight s)))"

section \<open>The contract\<close>

text \<open>Handles in flight are distinct and older than the next one.\<close>

definition memory_sound :: "memory \<Rightarrow> bool" where
  "memory_sound s \<longleftrightarrow> distinct (map fst (m_inflight s)) \<and> (\<forall>h \<in> fst ` set (m_inflight s). h < m_handles s)"

definition or_same :: "'s \<Rightarrow> 'e + 's \<Rightarrow> 's" where
  "or_same s r = (case r of Inl _ \<Rightarrow> s | Inr s' \<Rightarrow> s')"

definition memory_transport :: "string \<Rightarrow> (memory, int) transport" where
  "memory_transport mine =
     \<lparr> t_publish = memory_publish,
       t_take = (\<lambda>s. or_same (None, s) (memory_take_nowait mine NoQueues s)),
       t_ack = (\<lambda>h s. or_same s (memory_ack (PInt h) s)),
       t_release = (\<lambda>h s. or_same s (memory_release (PInt h) s)),
       t_reclaim = (\<lambda>s. or_same (0, s) (memory_reclaim mine NoQueues s)) \<rparr>"

lemma one_queue_none [simp]: "one_queue mine NoQueues = Inr mine"
  by (simp add: one_queue_def)

lemma dset_fresh: "h \<notin> fst ` set d \<Longrightarrow> dset h p d = d @ [(h, p)]"
  by (induction d) auto

lemma ddel_drop_first: "distinct (map fst d) \<Longrightarrow> ddel h d = drop_first h d"
  by (induction d) auto

lemma keys_ddel [simp]: "fst ` set (ddel h d) = fst ` set d - {h}"
  by (induction d) auto

lemma in_ddel: "e \<in> set (ddel h d) \<Longrightarrow> e \<in> set d"
  by (induction d) (auto split: if_splits)

lemma fold_push_front: "fold (\<lambda>payload waiting. payload # waiting) (rev ps) ws = ps @ ws"
  by (induction ps) auto

interpretation mb: broker_contract "memory_transport mine" m_waiting m_inflight memory_sound "\<lambda>_. True"
proof (unfold_locales, goal_cases)
  case (5 s p ps)
  then have "m_handles s \<notin> fst ` set (m_inflight s)" by (auto simp: memory_sound_def)
  with 5 show ?case
    by (auto simp: memory_transport_def memory_take_nowait_def or_same_def issue_def Let_def memory_sound_def dset_fresh)
next
  case (9 s h)
  then show ?case
    by (auto simp: memory_transport_def memory_release_def or_same_def memory_sound_def distinct_delete
        split: option.splits dest: in_ddel)
next
  case (10 s h)
  show ?case
  proof (cases "map_of (m_inflight s) h")
    case (Some p)
    with mset_delete [OF _ Some] 10 show ?thesis
      by (simp add: memory_transport_def memory_release_def or_same_def memory_sound_def)
  qed (simp add: memory_transport_def memory_release_def or_same_def)
next
  case (6 s h)
  then show ?case
    by (auto simp: memory_transport_def memory_ack_def or_same_def memory_sound_def distinct_delete dest: in_ddel)
qed (auto simp: memory_transport_def memory_publish_def memory_take_nowait_def memory_ack_def memory_reclaim_def
    or_same_def memory_sound_def ddel_drop_first fold_push_front)

section \<open>Properties\<close>

lemma memory_init_sound: "memory_sound memory_init" "m_waiting memory_init = []" "m_inflight memory_init = []"
  by (simp_all add: memory_init_def memory_sound_def)

text \<open>
   The memory transport loses and duplicates nothing.  After any sequence of publications, takes,
  acknowledgements, releases and reclaims, in any order and with any handles, the payloads published
  are exactly those waiting, those in flight and those acknowledged, counted with multiplicity.
\<close>

theorem memory_conserves:
  "mset (y_published (run_ops (memory_transport mine) m_inflight ops memory_init)) =
     mset (m_waiting (y_state (run_ops (memory_transport mine) m_inflight ops memory_init))) +
     mset (map snd (m_inflight (y_state (run_ops (memory_transport mine) m_inflight ops memory_init)))) +
     mset (y_settled (run_ops (memory_transport mine) m_inflight ops memory_init))"
proof -
  have "list_all (publishes_only (\<lambda>_. True)) ops"
    by (auto simp: list_all_iff publishes_only_def split: broker_op.splits)
  then show ?thesis by (rule mb.conserves [OF memory_init_sound])
qed

text \<open>
   The memory transport is a queue: as long as nothing is released or reclaimed, the payloads
  taken so far followed by those still waiting are the payloads published, in order.
\<close>

theorem memory_first_in_first_out:
  assumes "list_all forward_only ops"
  shows "y_taken (run_ops (memory_transport mine) m_inflight ops memory_init) @
         messages (y_state (run_ops (memory_transport mine) m_inflight ops memory_init)) =
         y_published (run_ops (memory_transport mine) m_inflight ops memory_init)"
proof -
  have "list_all (publishes_only (\<lambda>_. True)) ops"
    by (auto simp: list_all_iff publishes_only_def split: broker_op.splits)
  from mb.first_in_first_out [OF memory_init_sound(1,2) this assms] show ?thesis by (simp add: messages_def)
qed

theorem memory_first_in_first_out_witness:
  "y_taken (run_ops (memory_transport ''q'') m_inflight [Publish [''a'', ''b''], Take, Ack 1, Publish [''c''], Take] memory_init) @
   messages (y_state (run_ops (memory_transport ''q'') m_inflight [Publish [''a'', ''b''], Take, Ack 1, Publish [''c''], Take] memory_init)) =
   y_published (run_ops (memory_transport ''q'') m_inflight [Publish [''a'', ''b''], Take, Ack 1, Publish [''c''], Take] memory_init)"
  by (rule memory_first_in_first_out) (simp add: forward_only_def)

text \<open>
   A released message is the next one taken, with a fresh handle, and the handle it was released
  with no longer settles anything.
\<close>

theorem memory_release_is_next:
  assumes "memory_sound s" and "map_of (m_inflight s) h = Some p" and "memory_release (PInt h) s = Inr s'"
  shows "\<exists>s''. memory_take_nowait mine NoQueues s' =
           Inr (Some \<lparr> tk_payload = p, tk_handle = m_handles s, tk_queue = [] \<rparr>, s'') \<and>
         m_waiting s'' = m_waiting s \<and> memory_ack (PInt h) s'' = Inr s'' \<and> m_handles s \<noteq> h"
proof -
  have "h < m_handles s" using assms(1,2) by (auto simp: memory_sound_def dest: map_of_SomeD)
  with assms show ?thesis
    by (auto simp: memory_release_def memory_take_nowait_def issue_def Let_def memory_ack_def memory_sound_def
        delete_update delete_idem)
qed

theorem memory_release_is_next_witness:
  "\<exists>s''. memory_take_nowait ''q'' NoQueues \<lparr> m_waiting = [''x'', ''y''], m_inflight = [(2, ''z'')], m_handles = 3 \<rparr> =
     Inr (Some \<lparr> tk_payload = ''x'', tk_handle = 3, tk_queue = [] \<rparr>, s'') \<and>
   m_waiting s'' = [''y''] \<and> memory_ack (PInt 1) s'' = Inr s'' \<and> (3 :: int) \<noteq> 1"
  using memory_release_is_next [of "\<lparr> m_waiting = [''y''], m_inflight = [(1, ''x''), (2, ''z'')], m_handles = 3 \<rparr>"
      1 "''x''" "\<lparr> m_waiting = [''x'', ''y''], m_inflight = [(2, ''z'')], m_handles = 3 \<rparr>" "''q''"]
  by (simp add: memory_sound_def memory_release_def)

end
