(* ===== verification/Texts.thy ===== *)
theory Texts
  imports Envelope
begin

text \<open>
  Texts as Python reads and writes them: letter case, and the decimal form of integers with the
  facts that reading undoes writing.  Characters are code points below 256, on which
  \<open>str.lower\<close> changes ASCII and Latin-1 letters and nothing else.
\<close>

definition lower_char :: "char \<Rightarrow> char" where
  "lower_char c =
     (let n = of_char c :: nat
      in if (65 \<le> n \<and> n \<le> 90) \<or> (192 \<le> n \<and> n \<le> 222 \<and> n \<noteq> 215) then char_of (n + 32) else c)"

definition lower :: "string \<Rightarrow> string" where
  "lower s = map lower_char s"

text \<open>\<open>str.upper\<close> on ASCII, which is all that is upper-cased here.\<close>

definition upper_char :: "char \<Rightarrow> char" where
  "upper_char c = (let n = of_char c :: nat in if 97 \<le> n \<and> n \<le> 122 then char_of (n - 32) else c)"

fun comma_joined :: "string list \<Rightarrow> string" where
  "comma_joined [] = []"
| "comma_joined [x] = x"
| "comma_joined (x # xs) = x @ '', '' @ comma_joined xs"

section \<open>Writing integers\<close>

fun dec_nat :: "nat \<Rightarrow> string" where
  "dec_nat n = (if n < 10 then [char_of (48 + n)] else dec_nat (n div 10) @ [char_of (48 + n mod 10)])"

declare dec_nat.simps [simp del]

definition dec_int :: "int \<Rightarrow> string" where
  "dec_int n = (if n < 0 then CHR ''-'' # dec_nat (nat (- n)) else dec_nat (nat n))"

definition is_digit :: "char \<Rightarrow> bool" where
  "is_digit c = (c \<in> set ''0123456789'')"

section \<open>Reading integers\<close>

definition digit_value :: "char \<Rightarrow> nat" where
  "digit_value c = of_char c - 48"

definition dec_value :: "string \<Rightarrow> nat" where
  "dec_value s = fold (\<lambda>c acc. acc * 10 + digit_value c) s 0"

text \<open>
  \<open>int(s)\<close>: surrounding white space, one sign, and decimal digits with single underscores
  between them, no more than 4300 of them.
\<close>

fun dec_run :: "bool \<Rightarrow> nat \<Rightarrow> string \<Rightarrow> nat option" where
  "dec_run seen acc [] = (if seen then Some acc else None)"
| "dec_run seen acc (c # cs) =
     (if c = CHR ''_'' then (if seen then dec_run False acc cs else None)
      else if is_digit c then dec_run True (acc * 10 + digit_value c) cs
      else None)"

definition dec_body :: "string \<Rightarrow> nat option" where
  "dec_body s = (if 4300 < length (filter (\<lambda>c. c \<noteq> CHR ''_'') s) then None else dec_run False 0 s)"

definition py_int :: "string \<Rightarrow> int option" where
  "py_int s =
     (case strip_if is_space s of
        [] \<Rightarrow> None
      | c # cs \<Rightarrow>
          if c = CHR ''-'' then map_option (\<lambda>n. - int n) (dec_body cs)
          else if c = CHR ''+'' then map_option int (dec_body cs)
          else map_option int (dec_body (c # cs)))"

section \<open>Reading what was written\<close>

lemma digit_facts:
  assumes "n < 10"
  shows "is_digit (char_of (48 + n))" and "digit_value (char_of (48 + n)) = n"
proof -
  have "list_all (\<lambda>n. is_digit (char_of (48 + n)) \<and> digit_value (char_of (48 + n)) = n) [0..<10]" by code_simp
  with assms show "is_digit (char_of (48 + n))" "digit_value (char_of (48 + n)) = n" by (simp_all add: list_all_iff)
qed

lemma dec_nat_digits: "\<forall>c \<in> set (dec_nat n). is_digit c"
proof (induction n rule: dec_nat.induct)
  case (1 n)
  show ?case by (subst dec_nat.simps) (use 1 in \<open>auto simp: digit_facts\<close>)
qed

lemma dec_nat_nonempty [simp]: "dec_nat n \<noteq> []"
  by (subst dec_nat.simps) simp

lemma dec_value_snoc: "dec_value (s @ [c]) = dec_value s * 10 + digit_value c"
  by (simp add: dec_value_def)

lemma dec_value_dec_nat [simp]: "dec_value (dec_nat n) = n"
proof (induction n rule: dec_nat.induct)
  case (1 n)
  show ?case
  proof (cases "n < 10")
    case True
    then show ?thesis by (subst dec_nat.simps) (simp add: dec_value_def digit_facts)
  next
    case False
    with 1 show ?thesis by (subst dec_nat.simps) (simp add: dec_value_snoc digit_facts)
  qed
qed

lemma dec_nat_inj: "dec_nat m = dec_nat n \<longleftrightarrow> m = n"
  by (metis dec_value_dec_nat)

lemma dec_nat_head: "hd (dec_nat n) = CHR ''0'' \<Longrightarrow> n = 0"
proof (induction n rule: dec_nat.induct)
  case (1 n)
  show ?case
  proof (cases "n < 10")
    case True
    then have "dec_nat n = [char_of (48 + n)]" by (subst dec_nat.simps) simp
    with "1.prems" have "digit_value (char_of (48 + n)) = digit_value CHR ''0''" by simp
    with True show ?thesis by (simp add: digit_facts digit_value_def)
  next
    case False
    then have d: "dec_nat n = dec_nat (n div 10) @ [char_of (48 + n mod 10)]" by (subst dec_nat.simps) simp
    with "1.prems" have "hd (dec_nat (n div 10)) = CHR ''0''" by simp
    with "1.IH" [OF False] False show ?thesis by simp
  qed
qed

lemma dec_value_zeros: "dec_value (replicate k CHR ''0'' @ s) = dec_value s"
  by (induction k) (simp_all add: dec_value_def digit_value_def)

end
