(* ===== verification/RedisListBroker.thy ===== *)
theory RedisListBroker
  imports BrokerContract Texts
begin

text \<open>
  The Redis list transport, \<open>broker/redis_list/broker.py\<close>: one list everybody reads and one
  in-flight list per worker, \<open>RPUSH\<close> to publish, \<open>LMOVE\<close> to take, \<open>LREM\<close> to settle,
  with the fall back to plain pops on a server that has no \<open>LMOVE\<close>.

  The server is a parameter: a record of the commands the broker sends, each with a reply or an
  error and the server's state after it.  What is relied on is documented behaviour of those
  commands, stated as the assumptions of the locale \<open>redis_server\<close>; \<open>redis_up\<close> adds that
  no command fails, and under it the broker answers the contract of the transports.
\<close>

section \<open>The server\<close>

datatype redis_error = ResponseError string | ConnectionLost

text \<open>For \<open>LMOVE\<close>, the flags say whether an end is \<open>LEFT\<close>.\<close>

record 'r redis =
  r_rpush :: "string \<Rightarrow> bytes list \<Rightarrow> 'r \<Rightarrow> (redis_error + nat) \<times> 'r"
  r_lmove :: "string \<Rightarrow> string \<Rightarrow> bool \<Rightarrow> bool \<Rightarrow> 'r \<Rightarrow> (redis_error + bytes option) \<times> 'r"
  r_blmove :: "string \<Rightarrow> string \<Rightarrow> int \<Rightarrow> bool \<Rightarrow> bool \<Rightarrow> 'r \<Rightarrow> (redis_error + bytes option) \<times> 'r"
  r_lpop :: "string \<Rightarrow> 'r \<Rightarrow> (redis_error + bytes option) \<times> 'r"
  r_blpop :: "string \<Rightarrow> int \<Rightarrow> 'r \<Rightarrow> (redis_error + bytes option) \<times> 'r"
  r_lrem :: "string \<Rightarrow> int \<Rightarrow> bytes \<Rightarrow> 'r \<Rightarrow> (redis_error + nat) \<times> 'r"
  r_llen :: "string \<Rightarrow> 'r \<Rightarrow> (redis_error + nat) \<times> 'r"
  r_scan :: "string \<Rightarrow> 'r \<Rightarrow> (redis_error + string list) \<times> 'r"
  r_delete :: "string list \<Rightarrow> 'r \<Rightarrow> (redis_error + nat) \<times> 'r"
  r_exec_delete :: "string list \<Rightarrow> string list \<Rightarrow> 'r \<Rightarrow> 'r \<Rightarrow> (redis_error + bool) \<times> 'r"

section \<open>The broker\<close>

record rl_conf =
  rl_queue :: string
  rl_worker :: string

text \<open>The broker's own state is whether it still believes in \<open>LMOVE\<close>; the server's goes along.\<close>

type_synonym 'r rstate = "bool \<times> 'r"

datatype redis_fail =
    RedisFailed redis_error
  | WrongHandle string
  | OneQueueOnly multiplexing_error

definition inflight_key :: "rl_conf \<Rightarrow> string option \<Rightarrow> string" where
  "inflight_key C worker =
     rl_queue C @ '':processing:'' @ (case worker of Some w \<Rightarrow> (if w = [] then rl_worker C else w) | None \<Rightarrow> rl_worker C)"

abbreviation own_inflight :: "rl_conf \<Rightarrow> string" where
  "own_inflight C \<equiv> inflight_key C None"

definition says_unknown_command :: "string \<Rightarrow> bool" where
  "says_unknown_command m = contains ''unknown command'' (lower m)"

text \<open>
  \<open>_downgrade_without_lmove\<close>, on the errors \<open>except _response_error()\<close> catches.
\<close>

definition downgrades :: "redis_error \<Rightarrow> bool" where
  "downgrades e = (case e of ResponseError m \<Rightarrow> says_unknown_command m | ConnectionLost \<Rightarrow> False)"

definition as_taken :: "bytes option \<Rightarrow> bytes taken option" where
  "as_taken raw = map_option (\<lambda>p. \<lparr> tk_payload = p, tk_handle = p, tk_queue = [] \<rparr>) raw"

definition redis_publish :: "rl_conf \<Rightarrow> 'r redis \<Rightarrow> bytes list \<Rightarrow> 'r rstate \<Rightarrow> (redis_fail + unit) \<times> 'r rstate" where
  "redis_publish C R payloads s =
     (if payloads = [] then (Inr (), s)
      else case r_rpush R (rl_queue C) payloads (snd s) of
             (Inl e, r) \<Rightarrow> (Inl (RedisFailed e), fst s, r)
           | (Inr _, r) \<Rightarrow> (Inr (), fst s, r))"

definition answered :: "(redis_error + bytes option) \<times> 'r \<Rightarrow> bool \<Rightarrow> (redis_fail + bytes taken option) \<times> 'r rstate" where
  "answered reply reliable =
     (case reply of
        (Inl e, r) \<Rightarrow> (Inl (RedisFailed e), reliable, r)
      | (Inr raw, r) \<Rightarrow> (Inr (as_taken raw), reliable, r))"

text \<open>The move where the server has it, the plain pop where it does not.\<close>

definition moved_or_popped ::
  "('r \<Rightarrow> (redis_error + bytes option) \<times> 'r) \<Rightarrow> ('r \<Rightarrow> (redis_error + bytes option) \<times> 'r) \<Rightarrow> 'r rstate
    \<Rightarrow> (redis_fail + bytes taken option) \<times> 'r rstate" where
  "moved_or_popped move pop s =
     (if fst s
      then case move (snd s) of
             (Inl e, r) \<Rightarrow> if downgrades e then answered (pop r) False else (Inl (RedisFailed e), True, r)
           | (Inr raw, r) \<Rightarrow> (Inr (as_taken raw), True, r)
      else answered (pop (snd s)) False)"

definition wait_seconds :: "rat \<Rightarrow> int" where
  "wait_seconds timeout = max 1 \<lceil>timeout\<rceil>"

definition redis_take ::
  "rl_conf \<Rightarrow> 'r redis \<Rightarrow> rat \<Rightarrow> queue_arg \<Rightarrow> 'r rstate \<Rightarrow> (redis_fail + bytes taken option) \<times> 'r rstate" where
  "redis_take C R timeout queues s =
     (case one_queue (rl_queue C) queues of
        Inl e \<Rightarrow> (Inl (OneQueueOnly e), s)
      | Inr _ \<Rightarrow>
          moved_or_popped (r_blmove R (rl_queue C) (own_inflight C) (wait_seconds timeout) True False)
            (r_blpop R (rl_queue C) (wait_seconds timeout)) s)"

definition redis_take_nowait ::
  "rl_conf \<Rightarrow> 'r redis \<Rightarrow> queue_arg \<Rightarrow> 'r rstate \<Rightarrow> (redis_fail + bytes taken option) \<times> 'r rstate" where
  "redis_take_nowait C R queues s =
     (case one_queue (rl_queue C) queues of
        Inl e \<Rightarrow> (Inl (OneQueueOnly e), s)
      | Inr _ \<Rightarrow> moved_or_popped (r_lmove R (rl_queue C) (own_inflight C) True False) (r_lpop R (rl_queue C)) s)"

fun handle_bytes :: "pyval \<Rightarrow> redis_fail + bytes" where
  "handle_bytes (PBytes b) = Inr b"
| "handle_bytes (PStr b) = Inr b"
| "handle_bytes v = Inl (WrongHandle (type_name v))"

definition redis_ack :: "rl_conf \<Rightarrow> 'r redis \<Rightarrow> pyval \<Rightarrow> 'r rstate \<Rightarrow> (redis_fail + unit) \<times> 'r rstate" where
  "redis_ack C R handle s =
     (case handle_bytes handle of
        Inl e \<Rightarrow> (Inl e, s)
      | Inr b \<Rightarrow> if \<not> fst s then (Inr (), s) else (Inr (), fst s, snd (r_lrem R (own_inflight C) 1 b (snd s))))"

definition redis_release :: "pyval \<Rightarrow> 'r rstate \<Rightarrow> (redis_fail + unit) \<times> 'r rstate" where
  "redis_release handle s = (Inr (), s)"

text \<open>
  The loop of \<open>reclaim\<close>, which ends at the first reply that is not a non-empty value; on a
  server that never answers one it does not end, which is the value \<open>None\<close>.
\<close>

partial_function (option) reclaim_loop ::
  "'r redis \<Rightarrow> string \<Rightarrow> string \<Rightarrow> nat \<Rightarrow> 'r \<Rightarrow> ((redis_error + nat) \<times> 'r) option" where
  "reclaim_loop R inflight queue moved r =
     (case r_lmove R inflight queue False True r of
        (Inl e, r') \<Rightarrow> Some (Inl e, r')
      | (Inr None, r') \<Rightarrow> Some (Inr moved, r')
      | (Inr (Some p), r') \<Rightarrow>
          if p = [] then Some (Inr moved, r') else reclaim_loop R inflight queue (Suc moved) r')"

declare reclaim_loop.simps [code]

definition redis_reclaim ::
  "rl_conf \<Rightarrow> 'r redis \<Rightarrow> queue_arg \<Rightarrow> 'r rstate \<Rightarrow> ((redis_fail + nat) \<times> 'r rstate) option" where
  "redis_reclaim C R queues s =
     (case one_queue (rl_queue C) queues of
        Inl e \<Rightarrow> Some (Inl (OneQueueOnly e), s)
      | Inr _ \<Rightarrow>
          (case reclaim_loop R (own_inflight C) (rl_queue C) 0 (snd s) of
             None \<Rightarrow> None
           | Some (Inr moved, r) \<Rightarrow> Some (Inr moved, fst s, r)
           | Some (Inl e, r) \<Rightarrow>
               if downgrades e then Some (Inr 0, False, r) else Some (Inl (RedisFailed e), fst s, r)))"

definition redis_depth :: "rl_conf \<Rightarrow> 'r redis \<Rightarrow> 'r \<Rightarrow> redis_error + nat" where
  "redis_depth C R r = fst (r_llen R (rl_queue C) r)"

definition redis_inflight_depth :: "rl_conf \<Rightarrow> 'r redis \<Rightarrow> string option \<Rightarrow> 'r \<Rightarrow> redis_error + nat" where
  "redis_inflight_depth C R worker r = fst (r_llen R (inflight_key C worker) r)"

text \<open>\<open>_escaped\<close> of \<open>redis.py\<close>, and removing a queue.\<close>

definition glob_special :: string where
  "glob_special = ''*?[]^'' @ [CHR 0x5C]"

definition escaped :: "string \<Rightarrow> string" where
  "escaped literal = concat (map (\<lambda>c. if c \<in> set glob_special then [CHR 0x5C, c] else [c]) literal)"

definition processing_pattern :: "string \<Rightarrow> string" where
  "processing_pattern queue = escaped queue @ '':processing:*''"

definition heartbeat_pattern :: "string \<Rightarrow> string" where
  "heartbeat_pattern queue = escaped queue @ '':heartbeat:*''"

text \<open>
  Whether one of these lists has an entry: \<open>any(pipe.llen(key) for key in holding)\<close>, which stops
  at the first that has.
\<close>

fun any_holding :: "'r redis \<Rightarrow> string list \<Rightarrow> 'r \<Rightarrow> redis_error + bool" where
  "any_holding R [] r = Inr False"
| "any_holding R (k # ks) r =
     (case fst (r_llen R k r) of
        Inl e \<Rightarrow> Inl e
      | Inr n \<Rightarrow> if n \<noteq> 0 then Inr True else any_holding R ks r)"

text \<open>\<open>meanwhile\<close> is what other clients do between the read of the lengths and the transaction.\<close>

definition discarded_if_empty ::
  "'r redis \<Rightarrow> ('r \<Rightarrow> 'r) \<Rightarrow> string \<Rightarrow> string list \<Rightarrow> 'r \<Rightarrow> (redis_error + bool) \<times> 'r" where
  "discarded_if_empty R meanwhile queue derived r =
     (let holding = queue # filter (contains '':processing:'') derived
      in case any_holding R holding r of
           Inl e \<Rightarrow> (Inl e, r)
         | Inr True \<Rightarrow> (Inr False, r)
         | Inr False \<Rightarrow> r_exec_delete R holding (queue # derived) r (meanwhile r))"

definition redis_discard ::
  "rl_conf \<Rightarrow> 'r redis \<Rightarrow> ('r \<Rightarrow> 'r) \<Rightarrow> bool \<Rightarrow> 'r \<Rightarrow> (redis_error + bool) \<times> 'r" where
  "redis_discard C R meanwhile if_empty r =
     (case r_scan R (processing_pattern (rl_queue C)) r of
        (Inl e, r1) \<Rightarrow> (Inl e, r1)
      | (Inr ps, r1) \<Rightarrow>
          (case r_scan R (heartbeat_pattern (rl_queue C)) r1 of
             (Inl e, r2) \<Rightarrow> (Inl e, r2)
           | (Inr hs, r2) \<Rightarrow>
               if \<not> if_empty
               then (case r_delete R (rl_queue C # ps @ hs) r2 of
                       (Inl e, r3) \<Rightarrow> (Inl e, r3) | (Inr _, r3) \<Rightarrow> (Inr True, r3))
               else discarded_if_empty R meanwhile (rl_queue C) (ps @ hs) r2))"

section \<open>What is relied on\<close>

locale redis_server =
  fixes R :: "'r redis" and view :: "'r \<Rightarrow> string \<Rightarrow> bytes list"
  assumes rpush_ok: "r_rpush R k ps r = (Inr n, r') \<Longrightarrow> view r' = (view r)(k := view r k @ ps)"
    and lmove_head: "\<lbrakk> r_lmove R src dst True False r = (Inr x, r'); src \<noteq> dst \<rbrakk> \<Longrightarrow>
          (case view r src of
             [] \<Rightarrow> x = None \<and> view r' = view r
           | p # ps \<Rightarrow> x = Some p \<and> view r' = (view r)(src := ps, dst := view r dst @ [p]))"
    and lmove_tail: "\<lbrakk> r_lmove R src dst False True r = (Inr x, r'); src \<noteq> dst \<rbrakk> \<Longrightarrow>
          (if view r src = [] then x = None \<and> view r' = view r
           else x = Some (last (view r src)) \<and>
                view r' = (view r)(src := butlast (view r src), dst := last (view r src) # view r dst))"
    and lmove_refused: "r_lmove R src dst here there r = (Inl (ResponseError m), r') \<Longrightarrow> view r' = view r"
    and lpop_ok: "r_lpop R k r = (Inr x, r') \<Longrightarrow>
          (case view r k of
             [] \<Rightarrow> x = None \<and> view r' = view r
           | p # ps \<Rightarrow> x = Some p \<and> view r' = (view r)(k := ps))"
    and lrem_ok: "r_lrem R k 1 v r = (Inr n, r') \<Longrightarrow> view r' = (view r)(k := remove1 v (view r k))"
    and llen_ok: "r_llen R k r = (Inr n, r') \<Longrightarrow> n = length (view r k) \<and> view r' = view r"
    and exec_ok: "r_exec_delete R watched ks before now = (Inr done, r') \<Longrightarrow>
          (if done then (\<forall>k \<in> set watched. view now k = view before k) \<and>
                        view r' = (\<lambda>k. if k \<in> set ks then [] else view now k)
           else view r' = view now)"

locale redis_up = redis_server R view for R :: "'r redis" and view :: "'r \<Rightarrow> string \<Rightarrow> bytes list" +
  assumes rpush_up: "\<exists>n r'. r_rpush R k ps r = (Inr n, r')"
    and lmove_up: "\<exists>x r'. r_lmove R src dst here there r = (Inr x, r')"
    and lrem_up: "\<exists>n r'. r_lrem R k c v r = (Inr n, r')"

section \<open>The contract\<close>

definition rl_waiting :: "rl_conf \<Rightarrow> ('r \<Rightarrow> string \<Rightarrow> bytes list) \<Rightarrow> 'r rstate \<Rightarrow> bytes list" where
  "rl_waiting C view s = view (snd s) (rl_queue C)"

definition rl_held :: "rl_conf \<Rightarrow> ('r \<Rightarrow> string \<Rightarrow> bytes list) \<Rightarrow> 'r rstate \<Rightarrow> bytes holding" where
  "rl_held C view s = map (\<lambda>p. (p, p)) (view (snd s) (own_inflight C))"

definition rl_sound :: "rl_conf \<Rightarrow> ('r \<Rightarrow> string \<Rightarrow> bytes list) \<Rightarrow> 'r rstate \<Rightarrow> bool" where
  "rl_sound C view s \<longleftrightarrow>
     fst s \<and> [] \<notin> set (view (snd s) (rl_queue C)) \<and> [] \<notin> set (view (snd s) (own_inflight C))"

definition redis_transport :: "rl_conf \<Rightarrow> 'r redis \<Rightarrow> ('r rstate, bytes) transport" where
  "redis_transport C R =
     \<lparr> t_publish = (\<lambda>ps s. snd (redis_publish C R ps s)),
       t_take = (\<lambda>s. case redis_take_nowait C R NoQueues s of (Inl _, s') \<Rightarrow> (None, s') | (Inr t, s') \<Rightarrow> (t, s')),
       t_ack = (\<lambda>h s. snd (redis_ack C R (PBytes h) s)),
       t_release = (\<lambda>h s. snd (redis_release (PBytes h) s)),
       t_reclaim = (\<lambda>s. case redis_reclaim C R NoQueues s of
                          Some (Inr n, s') \<Rightarrow> (n, s') | Some (Inl _, s') \<Rightarrow> (0, s') | None \<Rightarrow> (0, s)) \<rparr>"

lemma keys_differ [simp]: "inflight_key C w \<noteq> rl_queue C" "rl_queue C \<noteq> inflight_key C w"
  by (auto simp: inflight_key_def)

lemma one_queue_NoQueues [simp]: "one_queue mine NoQueues = Inr mine"
  by (simp add: one_queue_def)

lemma drop_first_pairs: "drop_first h (map (\<lambda>p. (p, p)) ps) = map (\<lambda>p. (p, p)) (remove1 h ps)"
  by (induction ps) auto

context redis_up
begin

text \<open>The reclaiming loop ends, moves everything and keeps the order.\<close>

lemma reclaim_loop_all:
  assumes "src \<noteq> dst" and "[] \<notin> set (view r src)"
  shows "\<exists>r'. reclaim_loop R src dst n r = Some (Inr (n + length (view r src)), r') \<and>
              view r' = (view r)(src := [], dst := view r src @ view r dst)"
  using assms(2)
proof (induction "view r src" arbitrary: r n rule: rev_induct)
  case Nil
  obtain x r' where m: "r_lmove R src dst False True r = (Inr x, r')" using lmove_up by blast
  from lmove_tail [OF m assms(1)] Nil have "x = None" "view r' = view r" by simp_all
  with m Nil show ?case by (subst reclaim_loop.simps) (simp add: fun_upd_idem)
next
  case (snoc p ps)
  have src: "view r src = ps @ [p]" using snoc.hyps(2) by simp
  obtain x r1 where m: "r_lmove R src dst False True r = (Inr x, r1)" using lmove_up by blast
  have x: "x = Some p" and r1: "view r1 = (view r)(src := ps, dst := p # view r dst)"
    using lmove_tail [OF m assms(1)] by (simp_all add: src)
  have "ps = view r1 src" using r1 assms(1) by simp
  then obtain r' where "reclaim_loop R src dst (Suc n) r1 = Some (Inr (Suc n + length ps), r')"
    and r': "view r' = (view r1)(src := [], dst := ps @ view r1 dst)"
    using snoc.hyps(1) [of r1 "Suc n"] snoc.prems src by auto
  moreover have "p \<noteq> []" using snoc.prems src by auto
  moreover have "view r' = (view r)(src := [], dst := view r src @ view r dst)"
    using r' r1 src assms(1) by (auto simp: fun_eq_iff)
  ultimately show ?case using m x src by (subst reclaim_loop.simps) simp
qed

lemma publish_lists:
  "fst (snd (redis_publish C R ps s)) = fst s \<and>
   view (snd (snd (redis_publish C R ps s))) = (view (snd s))(rl_queue C := view (snd s) (rl_queue C) @ ps)"
proof -
  obtain n r' where "r_rpush R (rl_queue C) ps (snd s) = (Inr n, r')" using rpush_up by blast
  with rpush_ok show ?thesis by (auto simp: redis_publish_def fun_upd_idem)
qed

lemma take_lists:
  assumes "fst s"
  shows "case view (snd s) (rl_queue C) of
           [] \<Rightarrow> \<exists>r'. redis_take_nowait C R NoQueues s = (Inr None, True, r') \<and> view r' = view (snd s)
         | p # ps \<Rightarrow> \<exists>r'. redis_take_nowait C R NoQueues s =
               (Inr (Some \<lparr> tk_payload = p, tk_handle = p, tk_queue = [] \<rparr>), True, r') \<and>
               view r' = (view (snd s))(rl_queue C := ps, own_inflight C := view (snd s) (own_inflight C) @ [p])"
proof -
  obtain x r' where m: "r_lmove R (rl_queue C) (own_inflight C) True False (snd s) = (Inr x, r')"
    using lmove_up by blast
  then have "redis_take_nowait C R NoQueues s = (Inr (as_taken x), True, r')"
    using assms by (simp add: redis_take_nowait_def moved_or_popped_def)
  with lmove_head [OF m] show ?thesis by (auto simp: as_taken_def split: list.splits)
qed

lemma ack_lists:
  assumes "fst s"
  shows "fst (snd (redis_ack C R (PBytes h) s)) \<and>
         view (snd (snd (redis_ack C R (PBytes h) s))) =
           (view (snd s))(own_inflight C := remove1 h (view (snd s) (own_inflight C)))"
proof -
  obtain n r' where "r_lrem R (own_inflight C) 1 h (snd s) = (Inr n, r')" using lrem_up by blast
  with lrem_ok assms show ?thesis by (simp add: redis_ack_def)
qed

lemma reclaim_lists:
  assumes "fst s" and "[] \<notin> set (view (snd s) (own_inflight C))"
  shows "\<exists>r'. redis_reclaim C R NoQueues s = Some (Inr (length (view (snd s) (own_inflight C))), True, r') \<and>
              view r' = (view (snd s))(own_inflight C := [],
                rl_queue C := view (snd s) (own_inflight C) @ view (snd s) (rl_queue C))"
  using reclaim_loop_all [of "own_inflight C" "rl_queue C" "snd s" 0] assms by (auto simp: redis_reclaim_def)

end

text \<open>On a healthy server the list broker answers the contract, for payloads that are not empty.\<close>

locale redis_broker = redis_up R view for R :: "'r redis" and view :: "'r \<Rightarrow> string \<Rightarrow> bytes list" +
  fixes C :: rl_conf

sublocale redis_broker \<subseteq> rb: broker_contract "redis_transport C R" "rl_waiting C view" "rl_held C view"
  "rl_sound C view" "\<lambda>p. p \<noteq> []"
proof (unfold_locales, goal_cases)
  case (1 s ps)
  then show ?case using publish_lists [of C ps s]
    by (auto simp: redis_transport_def rl_sound_def list_all_iff)
next
  case (2 s ps)
  then show ?case using publish_lists [of C ps s] by (simp add: redis_transport_def rl_waiting_def)
next
  case (3 s ps)
  then show ?case using publish_lists [of C ps s] by (simp add: redis_transport_def rl_held_def)
next
  case (4 s)
  then show ?case using take_lists [of s C] by (auto simp: redis_transport_def rl_waiting_def rl_held_def rl_sound_def)
next
  case (5 s p ps)
  then obtain r' where "redis_take_nowait C R NoQueues s =
      (Inr (Some \<lparr> tk_payload = p, tk_handle = p, tk_queue = [] \<rparr>), True, r')"
    "view r' = (view (snd s))(rl_queue C := ps, own_inflight C := view (snd s) (own_inflight C) @ [p])"
    using take_lists [of s C] by (auto simp: rl_waiting_def rl_sound_def)
  with 5 show ?case by (auto simp: redis_transport_def rl_waiting_def rl_held_def rl_sound_def)
next
  case (6 s h)
  then show ?case using ack_lists [of s C h] set_remove1_subset [of h "view (snd s) (own_inflight C)"]
    by (auto simp: redis_transport_def rl_sound_def)
next
  case (7 s h)
  then show ?case using ack_lists [of s C h] by (simp add: redis_transport_def rl_waiting_def rl_sound_def)
next
  case (8 s h)
  then show ?case using ack_lists [of s C h]
    by (simp add: redis_transport_def rl_held_def rl_sound_def drop_first_pairs)
next
  case (11 s)
  then show ?case using reclaim_lists [of s C] by (auto simp: redis_transport_def rl_sound_def)
next
  case (12 s)
  then show ?case using reclaim_lists [of s C]
    by (auto simp: redis_transport_def rl_sound_def rl_waiting_def rl_held_def comp_def)
next
  case (13 s)
  then show ?case using reclaim_lists [of s C] by (auto simp: redis_transport_def rl_sound_def rl_held_def)
next
  case (14 s)
  then show ?case using reclaim_lists [of s C] by (auto simp: redis_transport_def rl_sound_def rl_held_def)
qed (simp_all add: redis_transport_def redis_release_def)

context redis_broker
begin

lemmas list_conserves = rb.conserves

end

section \<open>A store that behaves as documented\<close>

text \<open>
  A server over association lists, with a matcher for the patterns the broker scans with; the
  locales are interpreted on it and the witnesses are evaluated on it.
\<close>

type_synonym store = "(string \<times> bytes list) list"

definition store_view :: "store \<Rightarrow> string \<Rightarrow> bytes list" where
  "store_view st k = dget st k []"

definition store_move :: "string \<Rightarrow> string \<Rightarrow> bool \<Rightarrow> bool \<Rightarrow> store \<Rightarrow> (redis_error + bytes option) \<times> store" where
  "store_move src dst from_left to_left st =
     (let xs = store_view st src
      in if xs = [] then (Inr None, st)
         else (let p = (if from_left then hd xs else last xs);
                   st1 = dset src (if from_left then tl xs else butlast xs) st;
                   ys = store_view st1 dst
               in (Inr (Some p), dset dst (if to_left then p # ys else ys @ [p]) st1)))"

fun store_match :: "string \<Rightarrow> string \<Rightarrow> bool" where
  "store_match [] k = (k = [])"
| "store_match (c # p) k =
     (if c = CHR ''*'' then list_ex (\<lambda>n. store_match p (drop n k)) [0..<Suc (length k)]
      else if c = CHR 0x5C \<and> p \<noteq> [] then k \<noteq> [] \<and> hd k = hd p \<and> store_match (tl p) (tl k)
      else k \<noteq> [] \<and> hd k = c \<and> store_match p (tl k))"

definition store_redis :: "store redis" where
  "store_redis =
     \<lparr> r_rpush = (\<lambda>k ps st. (Inr (length (store_view st k @ ps)), dset k (store_view st k @ ps) st)),
       r_lmove = store_move,
       r_blmove = (\<lambda>src dst seconds. store_move src dst),
       r_lpop = (\<lambda>k st. case store_view st k of [] \<Rightarrow> (Inr None, st) | p # ps \<Rightarrow> (Inr (Some p), dset k ps st)),
       r_blpop = (\<lambda>k seconds st. case store_view st k of [] \<Rightarrow> (Inr None, st) | p # ps \<Rightarrow> (Inr (Some p), dset k ps st)),
       r_lrem = (\<lambda>k n v st. (Inr 1, dset k (remove1 v (store_view st k)) st)),
       r_llen = (\<lambda>k st. (Inr (length (store_view st k)), st)),
       r_scan = (\<lambda>pat st. (Inr (filter (store_match pat) (map fst st)), st)),
       r_delete = (\<lambda>ks st. (Inr (length ks), filter (\<lambda>(k, v). k \<notin> set ks) st)),
       r_exec_delete = (\<lambda>watched ks before now.
          if list_all (\<lambda>k. store_view before k = store_view now k) watched
          then (Inr True, filter (\<lambda>(k, v). k \<notin> set ks) now) else (Inr False, now)) \<rparr>"

declare dict_simps [simp]

lemma view_dset: "store_view (dset k v st) = (store_view st)(k := v)"
  by (auto simp: store_view_def)

lemma view_filter: "store_view (filter (\<lambda>(k, v). k \<notin> K) st) = (\<lambda>k. if k \<in> K then [] else store_view st k)"
proof
  show "store_view (filter (\<lambda>(k, v). k \<notin> K) st) k = (if k \<in> K then [] else store_view st k)" for k
    by (induction st) (auto simp: store_view_def split: if_splits)
qed

interpretation store: redis_up store_redis store_view
proof (unfold_locales, goal_cases)
  case (8 watched ks before now finished r')
  then show ?case by (auto simp: store_redis_def list_all_iff view_filter split: if_splits)
qed (auto simp: store_redis_def store_move_def view_dset Let_def neq_Nil_conv split: list.splits if_splits)

interpretation rl: redis_broker store_redis store_view C for C
  by unfold_locales

section \<open>Scanning for the keys of a queue\<close>

text \<open>What Redis documents of the patterns of \<open>SCAN MATCH\<close>, as far as an escaped name uses it.\<close>

locale glob_matcher =
  fixes matches :: "string \<Rightarrow> string \<Rightarrow> bool"
  assumes match_escaped: "matches (CHR 0x5C # c # p) k \<longleftrightarrow> (\<exists>k'. k = c # k' \<and> matches p k')"
    and match_literal: "c \<notin> set glob_special \<Longrightarrow> matches (c # p) k \<longleftrightarrow> (\<exists>k'. k = c # k' \<and> matches p k')"
    and match_star: "matches ''*'' k"
begin

lemma match_escaped_name: "matches (escaped q @ p) k \<longleftrightarrow> (\<exists>k'. k = q @ k' \<and> matches p k')"
  by (induction q arbitrary: k) (auto simp: escaped_def match_escaped match_literal)

lemma match_plain: "set q \<inter> set glob_special = {} \<Longrightarrow> matches (q @ p) k \<longleftrightarrow> (\<exists>k'. k = q @ k' \<and> matches p k')"
  by (induction q arbitrary: k) (auto simp: match_literal)

lemma match_derived:
  assumes "set infix_part \<inter> set glob_special = {}"
  shows "matches (escaped q @ infix_part @ ''*'') k \<longleftrightarrow> (\<exists>w. k = q @ infix_part @ w)"
  using match_plain [OF assms] match_star by (auto simp: match_escaped_name)

end

interpretation store_glob: glob_matcher store_match
proof
  show "store_match (CHR 0x5C # c # p) k \<longleftrightarrow> (\<exists>k'. k = c # k' \<and> store_match p k')" for c p k
    by (cases k) auto
  show "store_match (c # p) k \<longleftrightarrow> (\<exists>k'. k = c # k' \<and> store_match p k')" if "c \<notin> set glob_special" for c p k
    using that by (cases k) (auto simp: glob_special_def)
  show "store_match ''*'' k" for k by (auto simp: list_ex_iff intro!: bexI [of _ "length k"])
qed

section \<open>Properties\<close>

text \<open>
  C21.  On a healthy server the list transport loses and duplicates nothing: after any sequence of
  publications of non-empty payloads, takes, acknowledgements, releases and reclaims, the payloads
  published are exactly those on the queue, those on the worker's in-flight list and those
  acknowledged.
\<close>

theorem redis_list_conserves:
  assumes "redis_up R view" and "view r (rl_queue C) = []" and "view r (own_inflight C) = []"
    and "list_all (publishes_only (\<lambda>p. p \<noteq> [])) ops"
  shows "mset (y_published (run_ops (redis_transport C R) (rl_held C view) ops (True, r))) =
         mset (rl_waiting C view (y_state (run_ops (redis_transport C R) (rl_held C view) ops (True, r)))) +
         mset (map snd (rl_held C view (y_state (run_ops (redis_transport C R) (rl_held C view) ops (True, r))))) +
         mset (y_settled (run_ops (redis_transport C R) (rl_held C view) ops (True, r)))"
proof -
  have "redis_broker R view" using assms(1) by (simp add: redis_broker_def)
  from redis_broker.list_conserves [OF this, of C "(True, r)"] assms(2-4) show ?thesis
    by (simp add: rl_sound_def rl_waiting_def rl_held_def)
qed

definition demo_list :: rl_conf where
  "demo_list = \<lparr> rl_queue = ''tg'', rl_worker = ''w1'' \<rparr>"

theorem redis_list_conserves_witness:
  "mset (y_published (run_ops (redis_transport demo_list store_redis) (rl_held demo_list store_view)
       [Publish [''a'', ''b''], Take, Take, Ack ''a'', Reclaim, Take] (True, []))) =
   mset (rl_waiting demo_list store_view (y_state (run_ops (redis_transport demo_list store_redis)
       (rl_held demo_list store_view) [Publish [''a'', ''b''], Take, Take, Ack ''a'', Reclaim, Take] (True, [])))) +
   mset (map snd (rl_held demo_list store_view (y_state (run_ops (redis_transport demo_list store_redis)
       (rl_held demo_list store_view) [Publish [''a'', ''b''], Take, Take, Ack ''a'', Reclaim, Take] (True, []))))) +
   mset (y_settled (run_ops (redis_transport demo_list store_redis) (rl_held demo_list store_view)
       [Publish [''a'', ''b''], Take, Take, Ack ''a'', Reclaim, Take] (True, [])))"
  by (rule redis_list_conserves [OF store.redis_up_axioms]) (simp_all add: store_view_def publishes_only_def)



text \<open>
  The walk of \<open>reclaim\<close> ends at an empty payload: it takes the falsy value for the end of
  the list, so the message moved is not counted and everything taken before it stays stranded,
  although the call reports success.
\<close>

theorem redis_reclaim_stops_at_an_empty_payload:
  "\<exists>r'. redis_reclaim demo_list store_redis NoQueues
          (True, [(''tg:processing:w1'', [''old'', [], ''new'']), (''tg'', [])]) = Some (Inr 1, True, r') \<and>
        store_view r' ''tg:processing:w1'' = [''old''] \<and> store_view r' ''tg'' = [[], ''new'']"
proof -
  have "redis_reclaim demo_list store_redis NoQueues
      (True, [(''tg:processing:w1'', [''old'', [], ''new'']), (''tg'', [])]) =
      Some (Inr 1, True, [(''tg:processing:w1'', [''old'']), (''tg'', [[], ''new''])])"
    by code_simp
  then show ?thesis by (simp add: store_view_def)
qed

text \<open>
  A server without \<open>LMOVE\<close>.  The first take whose move is refused as an unknown command
  delivers the oldest message by a plain pop instead of failing, remembers that the broker is not
  crash safe, and puts nothing on the in-flight list; an acknowledgement then sends no command.
\<close>

theorem redis_downgrades_to_plain_pops:
  assumes "redis_server R view" and "view r (rl_queue C) = p # ps"
    and "r_lmove R (rl_queue C) (own_inflight C) True False r = (Inl (ResponseError m), r1)"
    and "says_unknown_command m" and "r_lpop R (rl_queue C) r1 = (Inr x, r2)"
  shows "redis_take_nowait C R NoQueues (True, r) =
           (Inr (Some \<lparr> tk_payload = p, tk_handle = p, tk_queue = [] \<rparr>), False, r2) \<and>
         view r2 = (view r)(rl_queue C := ps) \<and> redis_ack C R (PBytes p) (False, r2) = (Inr (), False, r2)"
proof -
  have "view r1 = view r" by (rule redis_server.lmove_refused [OF assms(1,3)])
  with redis_server.lpop_ok [OF assms(1,5)] assms(2) have "x = Some p" "view r2 = (view r)(rl_queue C := ps)" by simp_all
  with assms show ?thesis
    by (simp add: redis_take_nowait_def moved_or_popped_def downgrades_def answered_def as_taken_def redis_ack_def)
qed

definition old_redis :: "store redis" where
  "old_redis = store_redis\<lparr> r_lmove := (\<lambda>src dst here there st. (Inl (ResponseError ''ERR unknown command LMOVE''), st)) \<rparr>"

lemma old_redis_server: "redis_server old_redis store_view"
proof (unfold_locales, goal_cases)
  case (8 watched ks before now finished r')
  then show ?case by (auto simp: old_redis_def store_redis_def list_all_iff view_filter split: if_splits)
qed (auto simp: old_redis_def store_redis_def view_dset split: list.splits)

theorem redis_downgrades_to_plain_pops_witness:
  "redis_take_nowait demo_list old_redis NoQueues (True, [(''tg'', [''a'', ''b''])]) =
     (Inr (Some \<lparr> tk_payload = ''a'', tk_handle = ''a'', tk_queue = [] \<rparr>), False, [(''tg'', [''b''])]) \<and>
   store_view [(''tg'', [''b''])] = (store_view [(''tg'', [''a'', ''b''])])(''tg'' := [''b'']) \<and>
   redis_ack demo_list old_redis (PBytes ''a'') (False, [(''tg'', [''b''])]) = (Inr (), False, [(''tg'', [''b''])])"
proof -
  let ?r = "[(''tg'', [''a'', ''b''])]"
  have "rl_queue demo_list = ''tg''" by (simp add: demo_list_def)
  moreover have "says_unknown_command ''ERR unknown command LMOVE''" by code_simp
  moreover have "store_view ?r ''tg'' = ''a'' # [''b'']"
    "r_lmove old_redis ''tg'' (own_inflight demo_list) True False ?r = (Inl (ResponseError ''ERR unknown command LMOVE''), ?r)"
    "r_lpop old_redis ''tg'' ?r = (Inr (Some ''a''), [(''tg'', [''b''])])"
    by (simp_all add: store_view_def old_redis_def store_redis_def)
  ultimately show ?thesis using redis_downgrades_to_plain_pops [OF old_redis_server, of ?r demo_list] by metis
qed

text \<open>
  The patterns a queue is removed by.  For any queue name, whatever characters it is made of,
  and any key, the pattern for the in-flight lists matches the key exactly when it is that name
  followed by \<open>:processing:\<close> and a worker, so a scan never selects the list of another queue
  unless that queue is named so.
\<close>

theorem processing_pattern_exact:
  assumes "glob_matcher matches"
  shows "matches (processing_pattern queue) key \<longleftrightarrow> (\<exists>worker. key = queue @ '':processing:'' @ worker)"
proof -
  have "set '':processing:'' \<inter> set glob_special = {}" by (auto simp: glob_special_def)
  from glob_matcher.match_derived [OF assms this] show ?thesis by (simp add: processing_pattern_def)
qed

theorem processing_pattern_exact_witness:
  "store_match (processing_pattern ''tg[1]*'') ''tg[1]*:processing:w1'' \<longleftrightarrow>
     (\<exists>worker. ''tg[1]*:processing:w1'' = ''tg[1]*'' @ '':processing:'' @ worker)"
  by (rule processing_pattern_exact [OF store_glob.glob_matcher_axioms])

text \<open>
  Removing an empty queue removes no message.  Where \<open>discard(if_empty=True)\<close> answers that
  it removed the queue, the queue and every in-flight list it found were empty at the moment they
  were deleted, whatever other clients did between the check and the deletion; where it answers
  that it did not, nothing was deleted.
\<close>

theorem discard_if_empty_is_safe:
  assumes "redis_server R view" and "\<forall>k r. \<exists>n. r_llen R k r = (Inr n, r)"
    and "discarded_if_empty R meanwhile queue derived r = (Inr removed, r')"
  shows "if removed
         then (\<forall>k \<in> insert queue {k \<in> set derived. contains '':processing:'' k}. view (meanwhile r) k = []) \<and>
              (\<forall>k. k \<notin> insert queue (set derived) \<longrightarrow> view r' k = view (meanwhile r) k)
         else view r' = view r \<or> view r' = view (meanwhile r)"
proof -
  let ?holding = "queue # filter (contains '':processing:'') derived"
  have empty: "\<forall>k \<in> set ks. view r k = []" if "any_holding R ks r = Inr False" for ks
    using that
  proof (induction ks)
    case (Cons k ks)
    obtain n where n: "r_llen R k r = (Inr n, r)" using assms(2) by blast
    from redis_server.llen_ok [OF assms(1) n] Cons n show ?case by (auto split: if_splits)
  qed simp
  show ?thesis
  proof (cases "any_holding R ?holding r")
    case (Inr b)
    show ?thesis
    proof (cases b)
      case True
      with assms(3) Inr show ?thesis by (auto simp: discarded_if_empty_def Let_def)
    next
      case False
      with assms(3) Inr have "r_exec_delete R ?holding (queue # derived) r (meanwhile r) = (Inr removed, r')"
        by (auto simp: discarded_if_empty_def Let_def)
      from redis_server.exec_ok [OF assms(1) this] empty [of ?holding] Inr False
      show ?thesis by auto
    qed
  qed (use assms(3) in \<open>auto simp: discarded_if_empty_def Let_def\<close>)
qed

theorem discard_if_empty_is_safe_witness:
  "if False
   then (\<forall>k \<in> insert ''tg'' {k \<in> set [''tg:processing:w1'']. contains '':processing:'' k}.
           store_view (dset ''tg'' [''x''] [(''tg:processing:w1'', [])]) k = []) \<and>
        (\<forall>k. k \<notin> insert ''tg'' (set [''tg:processing:w1'']) \<longrightarrow>
           store_view [(''tg:processing:w1'', []), (''tg'', [''x''])] k = store_view (dset ''tg'' [''x''] [(''tg:processing:w1'', [])]) k)
   else store_view [(''tg:processing:w1'', []), (''tg'', [''x''])] = store_view [(''tg:processing:w1'', [])] \<or>
        store_view [(''tg:processing:w1'', []), (''tg'', [''x''])] = store_view (dset ''tg'' [''x''] [(''tg:processing:w1'', [])])"
proof (rule discard_if_empty_is_safe [OF store.redis_server_axioms])
  show "\<forall>k r. \<exists>n. r_llen store_redis k r = (Inr n, r)" by (simp add: store_redis_def)
  show "discarded_if_empty store_redis (dset ''tg'' [''x'']) ''tg'' [''tg:processing:w1''] [(''tg:processing:w1'', [])] =
      (Inr False, [(''tg:processing:w1'', []), (''tg'', [''x''])])"
    by code_simp
qed

end
