(* ===== verification/Leases.thy ===== *)
theory Leases
  imports Prelude
begin

text \<open>
  Which process polls which bot, \<open>runtime/leases.py\<close>.  The table of leases is shared by the
  processes; a claim is a compare-and-set per bot, at a moment the claiming process reads off its
  own clock.  The names of the processes and the settings are arguments, and each operation's clock
  readings are a list, one per bot it reaches.
\<close>

declare dict_simps [simp]

section \<open>The table\<close>

record lease =
  ls_holder :: string
  ls_claimed_at :: rat
  ls_expires_at :: rat

type_synonym leases = "(int \<times> lease) list"

text \<open>
  \<open>_seconds\<close> and \<open>_ceiling\<close>: the settings as read, \<open>None\<close> for one that cannot be
  converted; the defaults are arguments.
\<close>

definition lease_seconds :: "rat \<Rightarrow> rat option \<Rightarrow> rat" where
  "lease_seconds fallback setting = (case setting of Some s \<Rightarrow> max 1 s | None \<Rightarrow> fallback)"

definition lease_ceiling :: "int \<Rightarrow> int option \<Rightarrow> int" where
  "lease_ceiling fallback setting = (case setting of Some n \<Rightarrow> max 0 n | None \<Rightarrow> fallback)"

section \<open>Operations\<close>

text \<open>
  \<open>_take\<close>: the insertion, which fails where there is a row, then the update filtered on a row
  this process holds or one whose lease has lapsed.
\<close>

definition take_lease :: "int \<Rightarrow> string \<Rightarrow> rat \<Rightarrow> rat \<Rightarrow> leases \<Rightarrow> bool \<times> leases" where
  "take_lease b me moment until T =
     (let mine = \<lparr> ls_holder = me, ls_claimed_at = moment, ls_expires_at = until \<rparr>
      in case map_of T b of
           None \<Rightarrow> (True, dset b mine T)
         | Some row \<Rightarrow>
             if ls_holder row = me \<or> ls_expires_at row \<le> moment then (True, dset b mine T) else (False, T))"

fun claim_bots :: "string \<Rightarrow> rat \<Rightarrow> int \<Rightarrow> int list \<Rightarrow> rat list \<Rightarrow> int list \<Rightarrow> leases \<Rightarrow> int list \<times> leases" where
  "claim_bots me seconds cap held (moment # clock) (b # bots) T =
     (if cap \<noteq> 0 \<and> cap \<le> int (length held) then (held, T)
      else (let (taken, T') = take_lease b me moment (moment + seconds) T
            in claim_bots me seconds cap (if taken then held @ [b] else held) clock bots T'))"
| "claim_bots me seconds cap held _ _ T = (held, T)"

definition claim_leases :: "string \<Rightarrow> rat \<Rightarrow> int \<Rightarrow> rat list \<Rightarrow> int list \<Rightarrow> leases \<Rightarrow> int list \<times> leases" where
  "claim_leases me seconds cap clock bots T = claim_bots me seconds cap [] clock bots T"

text \<open>
  \<open>release\<close>; \<open>refused\<close> is a database that raises, which is logged and answered with zero.
\<close>

definition release_leases :: "string \<Rightarrow> int list \<Rightarrow> bool \<Rightarrow> leases \<Rightarrow> nat \<times> leases" where
  "release_leases me bots refused T =
     (if bots = [] \<or> refused then (0, T)
      else (let gone = filter (\<lambda>(b, row). b \<in> set bots \<and> ls_holder row = me) T
            in (length gone, filter (\<lambda>(b, row). \<not> (b \<in> set bots \<and> ls_holder row = me)) T)))"

section \<open>Runs of several processes\<close>

datatype lease_op =
    Claim string "rat list" "int list"
  | GiveUp string "int list" bool

fun op_holder :: "lease_op \<Rightarrow> string" where
  "op_holder (Claim me clock bots) = me"
| "op_holder (GiveUp me bots refused) = me"

fun op_moments :: "lease_op \<Rightarrow> rat list" where
  "op_moments (Claim me clock bots) = clock"
| "op_moments (GiveUp me bots refused) = []"

definition apply_lease_op :: "rat \<Rightarrow> int \<Rightarrow> lease_op \<Rightarrow> leases \<Rightarrow> leases" where
  "apply_lease_op seconds cap op T =
     (case op of
        Claim me clock bots \<Rightarrow> snd (claim_leases me seconds cap clock bots T)
      | GiveUp me bots refused \<Rightarrow> snd (release_leases me bots refused T))"

text \<open>\<open>holds T b who u\<close>: the row of \<open>b\<close> is held by \<open>who\<close>, at least until \<open>u\<close>.\<close>

definition holds :: "leases \<Rightarrow> int \<Rightarrow> string \<Rightarrow> rat \<Rightarrow> bool" where
  "holds T b who u \<longleftrightarrow> (\<exists>row. map_of T b = Some row \<and> ls_holder row = who \<and> u \<le> ls_expires_at row)"

lemma take_lease_foreign:
  assumes "holds T b who u" and "me \<noteq> who" and "moment < u"
  shows "take_lease b me moment until T = (False, T)"
  using assms by (auto simp: take_lease_def holds_def)

lemma take_lease_keeps:
  assumes "holds T b who u" and "me \<noteq> who" and "moment < u"
  shows "holds (snd (take_lease b' me moment until T)) b who u"
proof (cases "b' = b")
  case True
  with take_lease_foreign [OF assms] assms(1) show ?thesis by simp
next
  case False
  with assms(1) show ?thesis by (auto simp: take_lease_def holds_def Let_def update_conv' split: option.splits)
qed

lemma claim_bots_foreign:
  assumes "holds T b who u" and "me \<noteq> who" and "\<forall>m \<in> set clock. m < u"
  shows "holds (snd (claim_bots me seconds cap held clock bots T)) b who u \<and>
         (b \<in> set (fst (claim_bots me seconds cap held clock bots T)) \<longrightarrow> b \<in> set held)"
  using assms
proof (induction me seconds cap held clock bots T rule: claim_bots.induct)
  case (1 me seconds cap held moment clock b' bots T)
  obtain taken T' where t: "take_lease b' me moment (moment + seconds) T = (taken, T')"
    by (cases "take_lease b' me moment (moment + seconds) T")
  have kept: "holds T' b who u"
    using take_lease_keeps [OF 1(2,3), of moment b' "moment + seconds"] 1(4) t by simp
  have "\<not> taken" if "b' = b" using take_lease_foreign [OF 1(2,3), of moment "moment + seconds"] 1(4) t that by simp
  with 1(1) [OF _ t [symmetric] refl kept 1(3)] 1(2,4) t show ?case by (auto simp: Let_def)
qed auto

text \<open>Any sequence of operations of other processes, at moments before the lease lapses.\<close>

lemma foreign_ops_keep:
  assumes "holds T b who u" and "\<forall>op \<in> set ops. op_holder op \<noteq> who \<and> (\<forall>m \<in> set (op_moments op). m < u)"
  shows "holds (fold (apply_lease_op seconds cap) ops T) b who u"
  using assms
proof (induction ops arbitrary: T)
  case (Cons op ops)
  have "holds (apply_lease_op seconds cap op T) b who u"
  proof (cases op)
    case (Claim me clock bots)
    with claim_bots_foreign [OF Cons.prems(1), of me clock seconds cap "[]" bots] Cons.prems(2)
    show ?thesis by (simp add: apply_lease_op_def claim_leases_def)
  next
    case (GiveUp me bots refused)
    have "map_of (filter P T) b = map_of T b" if "\<And>row. map_of T b = Some row \<Longrightarrow> P (b, row)" for P
      using that by (induction T) auto
    with GiveUp Cons.prems show ?thesis
      by (auto simp: apply_lease_op_def release_leases_def holds_def Let_def)
  qed
  with Cons show ?case by simp
qed simp

lemma take_lease_own:
  assumes "take_lease b me moment until T = (True, T')"
  shows "holds T' b me until"
  using assms by (auto simp: take_lease_def holds_def Let_def update_conv' split: option.splits if_splits)

lemma take_lease_other:
  "b' \<noteq> b \<Longrightarrow> holds (snd (take_lease b' me moment until T)) b who u = holds T b who u"
  by (auto simp: take_lease_def holds_def Let_def update_conv' split: option.splits)

text \<open>Every bot a claim answers with is held in the table when the claim is over.\<close>

lemma claim_bots_held:
  assumes "set clock \<subseteq> M" and "\<forall>b \<in> set held. \<exists>m \<in> M. holds T b me (m + seconds)"
  shows "\<forall>b \<in> set (fst (claim_bots me seconds cap held clock bots T)).
           \<exists>m \<in> M. holds (snd (claim_bots me seconds cap held clock bots T)) b me (m + seconds)"
  using assms
proof (induction me seconds cap held clock bots T rule: claim_bots.induct)
  case (1 me seconds cap held moment clock b' bots T)
  obtain taken T' where t: "take_lease b' me moment (moment + seconds) T = (taken, T')"
    by (cases "take_lease b' me moment (moment + seconds) T")
  have "\<exists>m \<in> M. holds T' b me (m + seconds)" if b: "b \<in> set (if taken then held @ [b'] else held)" for b
  proof (cases "taken \<and> b = b'")
    case True
    with take_lease_own [of b' me moment "moment + seconds" T T'] t 1(2) show ?thesis by auto
  next
    case False
    then have "b \<in> set held" using b by (auto split: if_splits)
    then obtain m where m: "m \<in> M" "holds T b me (m + seconds)" using 1(3) by blast
    show ?thesis
    proof (cases "b = b'")
      case True
      with False t have "T' = T" by (auto simp: take_lease_def Let_def split: option.splits if_splits)
      with m show ?thesis by blast
    next
      case False
      with take_lease_other [of b' b me moment "moment + seconds" T me "m + seconds"] m t show ?thesis by auto
    qed
  qed
  with 1(1) [OF _ t [symmetric] refl] 1(2,3) t show ?case by (auto simp: Let_def)
qed auto

lemma claim_bots_capped: "0 < cap \<Longrightarrow> int (length held) \<le> cap \<Longrightarrow>
   int (length (fst (claim_bots me seconds cap held clock bots T))) \<le> cap"
  by (induction me seconds cap held clock bots T rule: claim_bots.induct) (auto simp: Let_def split: prod.splits)

lemma claim_bots_grows: "set held \<subseteq> set (fst (claim_bots me seconds cap held clock bots T))"
proof (induction me seconds cap held clock bots T rule: claim_bots.induct)
  case (1 me seconds cap held moment clock b bots T)
  obtain taken T' where t: "take_lease b me moment (moment + seconds) T = (taken, T')"
    by (cases "take_lease b me moment (moment + seconds) T")
  show ?case using 1 [OF _ t [symmetric] refl] t by (auto simp: Let_def split: if_splits)
qed simp_all

section \<open>Properties\<close>

text \<open>
  C12.  One poller per bot.  When a claim answers with a bot, then whatever other processes claim and
  release afterwards, as long as the moments they read are before the lease written by that claim
  lapses, no claim of another process answers with that bot.
\<close>

theorem lease_is_exclusive:
  assumes "claim_leases me seconds cap clock bots T = (held, T')" and "b \<in> set held"
    and "\<forall>op \<in> set ops. op_holder op \<noteq> me \<and> (\<forall>m \<in> set (op_moments op). \<forall>m0 \<in> set clock. m < m0 + seconds)"
    and "you \<noteq> me" and "\<forall>m \<in> set clock'. \<forall>m0 \<in> set clock. m < m0 + seconds"
  shows "b \<notin> set (fst (claim_leases you seconds cap' clock' bots' (fold (apply_lease_op seconds cap') ops T')))"
proof -
  obtain m where m: "m \<in> set clock" "holds T' b me (m + seconds)"
    using claim_bots_held [of clock "set clock" "[]" T me seconds cap bots] assms(1,2)
    by (auto simp: claim_leases_def)
  have "holds (fold (apply_lease_op seconds cap') ops T') b me (m + seconds)"
    using foreign_ops_keep [OF m(2)] assms(3) m(1) by blast
  from claim_bots_foreign [OF this assms(4), of clock' seconds cap' "[]" bots'] assms(5) m(1)
  show ?thesis by (simp add: claim_leases_def)
qed

theorem lease_is_exclusive_witness:
  "7 \<notin> set (fst (claim_leases ''w2'' 30 0 [20] [7] (fold (apply_lease_op 30 0) [GiveUp ''w2'' [7] False]
     (snd (claim_leases ''w1'' 30 0 [10] [7] [])))))"
proof -
  have c: "claim_leases ''w1'' 30 0 [10] [7] [] = ([7], snd (claim_leases ''w1'' 30 0 [10] [7] []))" by code_simp
  show ?thesis by (rule lease_is_exclusive [OF c]) simp_all
qed

text \<open>
   Failover.  Once the lease of a bot has lapsed, the next process that asks for it, first in its
  order and with room under its ceiling, is answered with it.
\<close>

theorem lapsed_lease_is_taken:
  assumes "map_of T b = Some row" and "ls_expires_at row \<le> moment" and "0 \<le> cap"
  shows "b \<in> set (fst (claim_leases me seconds cap (moment # clock) (b # bots) T))"
  using assms claim_bots_grows [of "[b]"] by (fastforce simp: claim_leases_def take_lease_def Let_def)

theorem lapsed_lease_is_taken_witness:
  "7 \<in> set (fst (claim_leases ''w2'' 30 0 [50] [7] [(7, \<lparr> ls_holder = ''w1'', ls_claimed_at = 10, ls_expires_at = 40 \<rparr>)]))"
  by (rule lapsed_lease_is_taken [where row = "\<lparr> ls_holder = ''w1'', ls_claimed_at = 10, ls_expires_at = 40 \<rparr>"])
    simp_all

end
