(* ===== verification/Supervisor.thy ===== *)
theory Supervisor
  imports Leases
begin

text \<open>
  The controller that brings the bots a process serves into line with those it is configured to
  serve: \<open>runtime/supervisor.py\<close>, with the meaning of failures and the rows they are written to
  (\<open>runtime/lifecycle.py\<close>) and the reading of the providers (\<open>runtime/providers.py\<close>).

  What a pass meets is an argument: what the providers answered or that they raised, which bots
  start and how the others fail, what the leases answer, the clocks, and whether the database
  refuses writes.  \<open>ps_clock\<close> is what the monotonic clock shows when the quarantine of a bot is
  tested, \<open>ps_failed_at\<close> what it shows once its start has failed.  Starting and stopping a bot is recorded in \<open>sv_calls\<close>.
\<close>

declare dict_simps [simp]

section \<open>Failures and the rows they are written to\<close>

datatype fate = REVOKED | CONFLICT | TRANSIENT | UNKNOWN

datatype failure =
    TelegramUnauthorizedError
  | TelegramConflictError
  | TelegramRetryAfter
  | TelegramNetworkError
  | TelegramServerError
  | OtherFailure string

fun failure_name :: "failure \<Rightarrow> string" where
  "failure_name TelegramUnauthorizedError = ''TelegramUnauthorizedError''"
| "failure_name TelegramConflictError = ''TelegramConflictError''"
| "failure_name TelegramRetryAfter = ''TelegramRetryAfter''"
| "failure_name TelegramNetworkError = ''TelegramNetworkError''"
| "failure_name TelegramServerError = ''TelegramServerError''"
| "failure_name (OtherFailure n) = n"

definition classify :: "bool \<Rightarrow> failure \<Rightarrow> fate" where
  "classify importable f =
     (if \<not> importable then UNKNOWN
      else case f of
             TelegramUnauthorizedError \<Rightarrow> REVOKED
           | TelegramConflictError \<Rightarrow> CONFLICT
           | TelegramRetryAfter \<Rightarrow> TRANSIENT
           | TelegramNetworkError \<Rightarrow> TRANSIENT
           | TelegramServerError \<Rightarrow> TRANSIENT
           | OtherFailure _ \<Rightarrow> UNKNOWN)"

definition waits :: "fate \<Rightarrow> bool" where
  "waits f = (f \<noteq> REVOKED)"

fun fate_value :: "fate \<Rightarrow> string" where
  "fate_value REVOKED = ''revoked''"
| "fate_value CONFLICT = ''conflict''"
| "fate_value TRANSIENT = ''transient''"
| "fate_value UNKNOWN = ''unknown''"

text \<open>
  What a row says of a bot: \<open>quarantine_reason\<close> and \<open>quarantined_until\<close>.  A bot without
  a row has no entry.
\<close>

type_synonym row_state = "string \<times> rat option"

datatype bot_signal = BotQuarantined int fate string "rat option" | BotRecovered int

record lifecycle =
  lc_rows :: "(int \<times> row_state) list"
  lc_unwritten :: "(int \<times> row_state) list"
  lc_signals :: "bot_signal list"

definition attempt :: "bool \<Rightarrow> row_state \<Rightarrow> int \<Rightarrow> lifecycle \<Rightarrow> lifecycle" where
  "attempt refuses said b L =
     (if refuses then L\<lparr> lc_unwritten := dset b said (lc_unwritten L) \<rparr>
      else L\<lparr> lc_rows := (if dhas (lc_rows L) b then dset b said (lc_rows L) else lc_rows L),
              lc_unwritten := ddel b (lc_unwritten L) \<rparr>)"

definition remember :: "bool \<Rightarrow> int \<Rightarrow> fate \<Rightarrow> string \<Rightarrow> rat option \<Rightarrow> lifecycle \<Rightarrow> lifecycle" where
  "remember refuses b f reason until L =
     (let L' = attempt refuses (take 64 (fate_value f @ '': '' @ reason), until) b L
      in L'\<lparr> lc_signals := lc_signals L' @ [BotQuarantined b f reason until] \<rparr>)"

definition forget :: "bool \<Rightarrow> int \<Rightarrow> lifecycle \<Rightarrow> lifecycle" where
  "forget refuses b L =
     (let L' = attempt refuses ([], None) b L in L'\<lparr> lc_signals := lc_signals L' @ [BotRecovered b] \<rparr>)"

definition flush :: "bool \<Rightarrow> lifecycle \<Rightarrow> lifecycle" where
  "flush refuses L = fold (\<lambda>(b, said) L. attempt refuses said b L) (lc_unwritten L) L"

section \<open>Reading the providers\<close>

record botrec =
  br_bot_id :: "int option"
  br_alias :: string
  br_settings :: pydict

text \<open>
  \<open>_read\<close>: the first empty answer after a full one is held back.  The result is what the
  provider counts as having said, and what is kept for its next read.
\<close>

definition read_provider :: "string \<Rightarrow> botrec list \<Rightarrow> (string \<times> botrec list) list \<Rightarrow> botrec list \<times> (string \<times> botrec list) list" where
  "read_provider path got last_said =
     (let held = dget last_said path []
      in if got = [] \<and> held \<noteq> [] then (held, dset path [] last_said) else (got, dset path got last_said))"

text \<open>\<open>desired\<close>, over what each provider answered in order; \<open>Inl\<close> is a provider that raised.\<close>

fun desired :: "(string \<times> (string + botrec list)) list \<Rightarrow> (int \<times> botrec) list \<Rightarrow> (string \<times> botrec list) list
    \<Rightarrow> (string + botrec list) \<times> (string \<times> botrec list) list" where
  "desired [] seen last_said = (Inr (map snd seen), last_said)"
| "desired ((path, Inl e) # rest) seen last_said = (Inl e, last_said)"
| "desired ((path, Inr got) # rest) seen last_said =
     (let (read, last_said') = read_provider path got last_said;
          seen' = fold (\<lambda>r d. case br_bot_id r of
                                None \<Rightarrow> d
                              | Some b \<Rightarrow> if dhas d b then d else dset b r d) read seen
      in desired rest seen' last_said')"

section \<open>The supervisor\<close>

record quarantine =
  q_reason :: string
  q_until :: "rat option"
  q_record :: botrec
  q_attempts :: nat
  q_fate :: fate

definition FIRST_WAIT :: rat where
  "FIRST_WAIT = 5"

definition LONGEST_WAIT :: rat where
  "LONGEST_WAIT = 300"

text \<open>
  \<open>Quarantined.wait\<close>: \<open>attempts - 1 >= log2(LONGEST / FIRST)\<close>, a comparison of reals, is
  written as its exponential.
\<close>

definition quarantine_wait :: "nat \<Rightarrow> rat" where
  "quarantine_wait attempts =
     (if LONGEST_WAIT / FIRST_WAIT \<le> 2 ^ (attempts - 1) then LONGEST_WAIT
      else min (FIRST_WAIT * 2 ^ (attempts - 1)) LONGEST_WAIT)"

datatype call = Started botrec | Stopped int

record supervisor =
  sv_running :: "(int \<times> botrec) list"
  sv_quarantined :: "(int \<times> quarantine) list"
  sv_holding :: "int list"
  sv_life :: lifecycle
  sv_calls :: "call list"

record pass =
  ps_desired :: "string + botrec list"
  ps_exclusive :: bool
  ps_claim :: "int list \<Rightarrow> string + int list"
  ps_start :: "botrec \<Rightarrow> failure option"
  ps_importable :: bool
  ps_clock :: "int \<Rightarrow> rat"
  ps_failed_at :: "int \<Rightarrow> rat"
  ps_wall :: "int \<Rightarrow> rat"
  ps_refuses :: bool

definition stop_bot :: "int \<Rightarrow> supervisor \<Rightarrow> supervisor" where
  "stop_bot i s = s\<lparr> sv_calls := sv_calls s @ [Stopped i], sv_running := ddel i (sv_running s) \<rparr>"

definition quarantine_bot :: "pass \<Rightarrow> int \<Rightarrow> botrec \<Rightarrow> nat \<Rightarrow> failure \<Rightarrow> supervisor \<Rightarrow> supervisor" where
  "quarantine_bot P i r attempts f s =
     (let ft = classify (ps_importable P) f;
          wait = (if waits ft then Some (quarantine_wait attempts) else None);
          entry = \<lparr> q_reason = failure_name f, q_until = map_option (\<lambda>w. ps_failed_at P i + w) wait,
                    q_record = r, q_attempts = attempts, q_fate = ft \<rparr>
      in s\<lparr> sv_quarantined := dset i entry (sv_quarantined s),
            sv_life := remember (ps_refuses P) i ft (failure_name f) (map_option (\<lambda>w. ps_wall P i + w) wait) (sv_life s) \<rparr>)"

definition start_bot :: "pass \<Rightarrow> int \<Rightarrow> botrec \<Rightarrow> supervisor \<Rightarrow> supervisor" where
  "start_bot P i r s =
     (let held = map_of (sv_quarantined s) i;
          was_held = held \<noteq> None;
          moved = (case held of None \<Rightarrow> False | Some q \<Rightarrow> q_record q \<noteq> r);
          s1 = (if moved then s\<lparr> sv_quarantined := ddel i (sv_quarantined s) \<rparr> else s);
          held1 = (if moved then None else held)
      in if (case held1 of
               None \<Rightarrow> False
             | Some q \<Rightarrow> (case q_until q of None \<Rightarrow> True | Some u \<Rightarrow> ps_clock P i < u)) then s1
         else (let s2 = s1\<lparr> sv_calls := sv_calls s1 @ [Started r] \<rparr>
               in case ps_start P r of
                    Some f \<Rightarrow>
                      quarantine_bot P i r (case held1 of None \<Rightarrow> 1 | Some q \<Rightarrow> q_attempts q + 1) f s2
                  | None \<Rightarrow>
                      (let s3 = s2\<lparr> sv_running := dset i r (sv_running s2),
                                    sv_quarantined := ddel i (sv_quarantined s2) \<rparr>
                       in if was_held then s3\<lparr> sv_life := forget (ps_refuses P) i (sv_life s3) \<rparr> else s3)))"

definition leased :: "pass \<Rightarrow> (int \<times> botrec) list \<Rightarrow> supervisor \<Rightarrow> int list" where
  "leased P wanted s =
     (let asked = filter (dhas (sv_running s)) (map fst wanted) @ filter (\<lambda>i. \<not> dhas (sv_running s) i) (map fst wanted)
      in case ps_claim P asked of
           Inr held \<Rightarrow> held
         | Inl _ \<Rightarrow> filter (dhas (sv_running s)) asked)"

text \<open>What the loop over the desired bots does with one of them.\<close>

definition bring_into_line :: "pass \<Rightarrow> int \<times> botrec \<Rightarrow> supervisor \<Rightarrow> supervisor" where
  "bring_into_line P e s =
     (if map_of (sv_running s) (fst e) = Some (snd e) then s
      else (let s1 = (if dhas (sv_running s) (fst e) then stop_bot (fst e) s else s)
            in start_bot P (fst e) (snd e) s1))"

definition wanted_by :: "pass \<Rightarrow> (int \<times> botrec) list" where
  "wanted_by P =
     (case ps_desired P of
        Inl _ \<Rightarrow> []
      | Inr rs \<Rightarrow> fold (\<lambda>r d. case br_bot_id r of None \<Rightarrow> d | Some i \<Rightarrow> dset i r d) rs [])"

text \<open>The bots a process that must be exclusive may serve, and what giving up the others does.\<close>

definition allowed_to :: "pass \<Rightarrow> supervisor \<Rightarrow> (int \<times> botrec) list" where
  "allowed_to P s =
     (if ps_exclusive P then filter (\<lambda>(i, r). i \<in> set (leased P (wanted_by P) s)) (wanted_by P) else wanted_by P)"

definition give_up :: "int \<Rightarrow> supervisor \<Rightarrow> supervisor" where
  "give_up i s =
     (let s1 = (if dhas (sv_running s) i then stop_bot i s else s)
      in s1\<lparr> sv_quarantined := ddel i (sv_quarantined s1) \<rparr>)"

definition give_up_unleased :: "pass \<Rightarrow> supervisor \<Rightarrow> supervisor" where
  "give_up_unleased P s =
     (if ps_exclusive P
      then (let held = leased P (wanted_by P) s
            in fold give_up (filter (\<lambda>i. i \<notin> set held) (map fst (wanted_by P)))
                 (s\<lparr> sv_holding := List.union held (sv_holding s) \<rparr>))
      else s)"

definition reconcile :: "pass \<Rightarrow> supervisor \<Rightarrow> supervisor" where
  "reconcile P s =
     (let s0 = s\<lparr> sv_life := flush (ps_refuses P) (sv_life s) \<rparr>
      in case ps_desired P of
           Inl _ \<Rightarrow> s0
         | Inr _ \<Rightarrow>
             (let wanted = allowed_to P s0;
                  s1 = give_up_unleased P s0;
                  s2 = fold stop_bot (filter (\<lambda>i. \<not> dhas wanted i) (map fst (sv_running s1))) s1;
                  s3 = s2\<lparr> sv_quarantined := filter (\<lambda>(i, q). dhas wanted i) (sv_quarantined s2) \<rparr>
              in fold (bring_into_line P) wanted s3))"

text \<open>\<open>released\<close>: stop everything; the leases given up are the ones answered.\<close>

definition released :: "bool \<Rightarrow> supervisor \<Rightarrow> supervisor \<times> int list" where
  "released exclusive s =
     (fold stop_bot (map fst (sv_running s)) s, if exclusive then sv_holding s else [])"

section \<open>One bot at a time\<close>

lemma map_of_restrict: "map_of (filter (\<lambda>(i, q). P i) d) j = (if P j then map_of d j else None)"
  by (induction d) auto

lemma stop_bot_view [simp]:
  "map_of (sv_running (stop_bot i s)) j = (if j = i then None else map_of (sv_running s) j)"
  "sv_quarantined (stop_bot i s) = sv_quarantined s" "sv_life (stop_bot i s) = sv_life s"
  "sv_calls (stop_bot i s) = sv_calls s @ [Stopped i]" "sv_holding (stop_bot i s) = sv_holding s"
  by (simp_all add: stop_bot_def delete_conv')

lemma stop_all_view:
  "map_of (sv_running (fold stop_bot is s)) j = (if j \<in> set is then None else map_of (sv_running s) j)"
  "sv_quarantined (fold stop_bot is s) = sv_quarantined s"
  by (induction "is" arbitrary: s) auto

lemma quarantine_bot_view [simp]:
  "sv_running (quarantine_bot P i r n f s) = sv_running s" "sv_calls (quarantine_bot P i r n f s) = sv_calls s"
  "map_of (sv_quarantined (quarantine_bot P i r n f s)) j =
     (if j = i then Some \<lparr> q_reason = failure_name f,
        q_until = (if waits (classify (ps_importable P) f) then Some (ps_failed_at P i + quarantine_wait n) else None),
        q_record = r, q_attempts = n, q_fate = classify (ps_importable P) f \<rparr>
      else map_of (sv_quarantined s) j)"
  by (simp_all add: quarantine_bot_def Let_def update_conv')

text \<open>Starting one bot: nothing of another bot moves, and this one is served or quarantined.\<close>

lemma start_bot_frame:
  assumes "j \<noteq> i"
  shows "map_of (sv_running (start_bot P i r s)) j = map_of (sv_running s) j"
    and "map_of (sv_quarantined (start_bot P i r s)) j = map_of (sv_quarantined s) j"
  using assms by (auto simp: start_bot_def Let_def update_conv' delete_conv' split: option.splits)

lemma start_bot_settles:
  assumes "map_of (sv_running s) i = None"
  shows "map_of (sv_running (start_bot P i r s)) i = Some r \<or>
         (map_of (sv_running (start_bot P i r s)) i = None \<and>
          (\<exists>q. map_of (sv_quarantined (start_bot P i r s)) i = Some q \<and> q_record q = r))"
  using assms by (auto simp: start_bot_def Let_def update_conv' delete_conv' split: option.splits)

definition settled :: "int \<Rightarrow> botrec \<Rightarrow> supervisor \<Rightarrow> bool" where
  "settled i r s \<longleftrightarrow>
     map_of (sv_running s) i = Some r \<or>
     (map_of (sv_running s) i = None \<and> (\<exists>q. map_of (sv_quarantined s) i = Some q \<and> q_record q = r))"

lemma bring_frame:
  assumes "j \<noteq> fst e"
  shows "map_of (sv_running (bring_into_line P e s)) j = map_of (sv_running s) j"
    and "map_of (sv_quarantined (bring_into_line P e s)) j = map_of (sv_quarantined s) j"
  using assms by (auto simp: bring_into_line_def Let_def start_bot_frame)

lemma bring_settles: "settled (fst e) (snd e) (bring_into_line P e s)"
proof (cases "map_of (sv_running s) (fst e) = Some (snd e)")
  case True
  then show ?thesis by (simp add: bring_into_line_def settled_def)
next
  case False
  define s1 where "s1 = (if dhas (sv_running s) (fst e) then stop_bot (fst e) s else s)"
  have "map_of (sv_running s1) (fst e) = None" by (simp add: s1_def dhas_iff)
  with start_bot_settles [OF this, of P "snd e"] False show ?thesis
    by (simp add: bring_into_line_def settled_def s1_def Let_def)
qed

lemma bring_all_frame:
  assumes "j \<notin> fst ` set es"
  shows "map_of (sv_running (fold (bring_into_line P) es s)) j = map_of (sv_running s) j \<and>
         map_of (sv_quarantined (fold (bring_into_line P) es s)) j = map_of (sv_quarantined s) j"
  using assms by (induction es arbitrary: s) (auto simp: bring_frame)

lemma bring_all_settles:
  assumes "distinct (map fst es)" and "(i, r) \<in> set es"
  shows "settled i r (fold (bring_into_line P) es s)"
  using assms
proof (induction es arbitrary: s)
  case (Cons e es)
  show ?case
  proof (cases "e = (i, r)")
    case True
    with Cons.prems have "i \<notin> fst ` set es" by auto
    from bring_all_frame [OF this, of P "bring_into_line P e s"] bring_settles [of e P s] True
    show ?thesis by (simp add: settled_def)
  next
    case False
    with Cons show ?thesis by simp
  qed
qed simp

lemma wanted_by_keys:
  "distinct (map fst (wanted_by P))" "(i, r) \<in> set (wanted_by P) \<Longrightarrow> br_bot_id r = Some i"
proof -
  define ins where "ins = (\<lambda>(r :: botrec) d. case br_bot_id r of None \<Rightarrow> d | Some i \<Rightarrow> dset i r d)"
  have "distinct (map fst (fold ins rs d)) \<and> (\<forall>(i, r) \<in> set (fold ins rs d). br_bot_id r = Some i)"
    if "distinct (map fst d)" "\<forall>(i, r) \<in> set d. br_bot_id r = Some i" for rs d
    using that
  proof (induction rs arbitrary: d)
    case (Cons r rs)
    have "distinct (map fst (ins r d))" using Cons.prems(1) by (simp add: ins_def distinct_update split: option.splits)
    moreover have "\<forall>(i, r) \<in> set (ins r d). br_bot_id r = Some i"
    proof (cases "br_bot_id r")
      case (Some i)
      have "set (dset i r d) \<subseteq> insert (i, r) (set d)" by (induction d) auto
      with Some Cons.prems(2) show ?thesis by (auto simp: ins_def)
    qed (use Cons.prems(2) in \<open>simp add: ins_def\<close>)
    ultimately show ?case using Cons.IH [of "ins r d"] by simp
  qed simp
  from this [of "[]"] show "distinct (map fst (wanted_by P))" "(i, r) \<in> set (wanted_by P) \<Longrightarrow> br_bot_id r = Some i"
    by (auto simp: wanted_by_def ins_def split: sum.splits)
qed

lemma allowed_to_keys:
  "distinct (map fst (allowed_to P s))" "(i, r) \<in> set (allowed_to P s) \<Longrightarrow> br_bot_id r = Some i"
  using wanted_by_keys(1) [of P] wanted_by_keys(2) [where P = P]
  by (auto simp: allowed_to_def distinct_map_filter split: if_splits)

lemma leased_life [simp]: "leased P w (s\<lparr> sv_life := L \<rparr>) = leased P w s"
  by (simp add: leased_def Let_def split: sum.splits)

lemma allowed_to_life [simp]: "allowed_to P (s\<lparr> sv_life := L \<rparr>) = allowed_to P s"
  by (simp add: allowed_to_def)

section \<open>A pass\<close>

lemma give_up_view:
  "map_of (sv_running (fold give_up is s)) j = (if j \<in> set is then None else map_of (sv_running s) j)"
  "map_of (sv_quarantined (fold give_up is s)) j = (if j \<in> set is then None else map_of (sv_quarantined s) j)"
  by (induction "is" arbitrary: s) (auto simp: give_up_def Let_def delete_conv' dhas_iff)

text \<open>Giving up what is not leased touches no bot that is allowed.\<close>

lemma give_up_unleased_view:
  assumes "map_of (allowed_to P s) j \<noteq> None"
  shows "map_of (sv_running (give_up_unleased P s)) j = map_of (sv_running s) j \<and>
         map_of (sv_quarantined (give_up_unleased P s)) j = map_of (sv_quarantined s) j"
proof (cases "ps_exclusive P")
  case True
  from assms obtain r where "(j, r) \<in> set (allowed_to P s)" by (auto dest: map_of_SomeD)
  then have "j \<in> set (leased P (wanted_by P) s)" using True by (auto simp: allowed_to_def)
  then show ?thesis using True by (simp add: give_up_unleased_def Let_def give_up_view)
qed (simp add: give_up_unleased_def)

text \<open>The state the loop over the desired bots starts from.\<close>

definition cleared :: "pass \<Rightarrow> supervisor \<Rightarrow> supervisor" where
  "cleared P s =
     (let wanted = allowed_to P s;
          s1 = give_up_unleased P s;
          s2 = fold stop_bot (filter (\<lambda>i. \<not> dhas wanted i) (map fst (sv_running s1))) s1
      in s2\<lparr> sv_quarantined := filter (\<lambda>(i, q). dhas wanted i) (sv_quarantined s2) \<rparr>)"

lemma reconcile_read:
  assumes "ps_desired P = Inr rs"
  shows "reconcile P s =
    (let s0 = s\<lparr> sv_life := flush (ps_refuses P) (sv_life s) \<rparr>
     in fold (bring_into_line P) (allowed_to P s) (cleared P s0))"
  using assms by (simp add: reconcile_def cleared_def Let_def)

lemma cleared_view:
  "map_of (sv_running (cleared P s)) j =
     (if dhas (allowed_to P s) j then map_of (sv_running (give_up_unleased P s)) j else None)"
  "map_of (sv_quarantined (cleared P s)) j =
     (if dhas (allowed_to P s) j then map_of (sv_quarantined (give_up_unleased P s)) j else None)"
proof -
  have "map_of d j = None \<or> j \<in> fst ` set d" for d :: "(int \<times> botrec) list"
    by (simp add: map_of_eq_None_iff)
  then show "map_of (sv_running (cleared P s)) j =
     (if dhas (allowed_to P s) j then map_of (sv_running (give_up_unleased P s)) j else None)"
    by (auto simp: cleared_def Let_def stop_all_view)
  show "map_of (sv_quarantined (cleared P s)) j =
     (if dhas (allowed_to P s) j then map_of (sv_quarantined (give_up_unleased P s)) j else None)"
    by (simp add: cleared_def Let_def stop_all_view map_of_restrict)
qed

text \<open>What a stretch of a pass does not do to one bot.\<close>

definition concerns :: "int \<Rightarrow> call \<Rightarrow> bool" where
  "concerns i c = (case c of Started r \<Rightarrow> br_bot_id r = Some i | Stopped j \<Rightarrow> j = i)"

definition quiet :: "int \<Rightarrow> supervisor \<Rightarrow> supervisor \<Rightarrow> bool" where
  "quiet i s s' \<longleftrightarrow> (\<exists>new. sv_calls s' = sv_calls s @ new \<and> (\<forall>c \<in> set new. \<not> concerns i c))"

lemma quiet_refl [simp]: "quiet i s s"
  by (simp add: quiet_def)

lemma quiet_trans: "\<lbrakk> quiet i s s1; quiet i s1 s2 \<rbrakk> \<Longrightarrow> quiet i s s2"
  unfolding quiet_def by (metis Un_iff append.assoc set_append)

lemma quiet_same_calls: "sv_calls s' = sv_calls s \<Longrightarrow> quiet i s s'"
  by (simp add: quiet_def)

lemma quiet_fold: "(\<And>x s. x \<in> set xs \<Longrightarrow> quiet i s (f x s)) \<Longrightarrow> quiet i s (fold f xs s)"
proof (induction xs arbitrary: s)
  case (Cons x xs)
  then show ?case using quiet_trans [of i s "f x s" "fold f xs (f x s)"] by simp
qed simp

lemma quiet_stop: "j \<noteq> i \<Longrightarrow> quiet i s (stop_bot j s)"
  by (simp add: quiet_def concerns_def)

lemma quiet_bring:
  assumes "j \<noteq> i" and "br_bot_id r = Some j"
  shows "quiet i s (bring_into_line P (j, r) s)"
proof -
  have start: "quiet i s (start_bot P j r s)" for s
    using assms by (auto simp: start_bot_def Let_def quiet_def concerns_def split: option.splits)
  show ?thesis
  proof (cases "dhas (sv_running s) j")
    case True
    with quiet_trans [OF quiet_stop [OF assms(1)] start] show ?thesis by (simp add: bring_into_line_def)
  next
    case False
    with start show ?thesis by (simp add: bring_into_line_def)
  qed
qed

lemma quiet_give_up: "j \<noteq> i \<Longrightarrow> quiet i s (give_up j s)"
  by (auto simp: give_up_def Let_def quiet_def concerns_def)

lemma quiet_cleared:
  assumes "map_of (allowed_to P s) i = Some r"
  shows "quiet i s (cleared P s)"
proof -
  have leased: "i \<in> set (leased P (wanted_by P) s)" if "ps_exclusive P"
    using assms that by (auto simp: allowed_to_def dest: map_of_SomeD)
  have "quiet i s (give_up_unleased P s)"
  proof (cases "ps_exclusive P")
    case True
    have "quiet i s (s\<lparr> sv_holding := h \<rparr>)" for h by (simp add: quiet_same_calls)
    moreover have "quiet i x (fold give_up (filter (\<lambda>j. j \<notin> set (leased P (wanted_by P) s)) (map fst (wanted_by P))) x)" for x
      using leased [OF True] by (intro quiet_fold quiet_give_up) auto
    ultimately show ?thesis using True quiet_trans by (fastforce simp: give_up_unleased_def Let_def)
  qed (simp add: give_up_unleased_def)
  moreover have "quiet i x (fold stop_bot (filter (\<lambda>j. \<not> dhas (allowed_to P s) j) js) x)" for js x
    using assms by (intro quiet_fold quiet_stop) (auto simp: dhas_iff)
  moreover have "quiet i x (x\<lparr> sv_quarantined := q \<rparr>)" for x q by (simp add: quiet_same_calls)
  ultimately show ?thesis using quiet_trans unfolding cleared_def Let_def by meson
qed

text \<open>A bot the loop leaves alone when its turn comes is left alone by the whole loop.\<close>

lemma quiet_bring_all:
  assumes "distinct (map fst es)" and "\<forall>(j, r) \<in> set es. br_bot_id r = Some j"
    and "\<And>r s'. \<lbrakk> (i, r) \<in> set es; map_of (sv_running s') i = map_of (sv_running s) i;
                   map_of (sv_quarantined s') i = map_of (sv_quarantined s) i \<rbrakk> \<Longrightarrow> bring_into_line P (i, r) s' = s'"
  shows "quiet i s (fold (bring_into_line P) es s) \<and>
         map_of (sv_running (fold (bring_into_line P) es s)) i = map_of (sv_running s) i \<and>
         map_of (sv_quarantined (fold (bring_into_line P) es s)) i = map_of (sv_quarantined s) i"
  using assms
proof (induction es arbitrary: s)
  case (Cons e es)
  obtain j r where e: "e = (j, r)" by (cases e)
  show ?case
  proof (cases "j = i")
    case True
    with Cons.prems(3) [of r s] e have "bring_into_line P e s = s" by simp
    with Cons.IH [of s] Cons.prems show ?thesis by (simp add: e)
  next
    case False
    have q: "quiet i s (bring_into_line P e s)" using quiet_bring [OF False] Cons.prems(2) e by auto
    have same: "map_of (sv_running (bring_into_line P e s)) i = map_of (sv_running s) i"
      "map_of (sv_quarantined (bring_into_line P e s)) i = map_of (sv_quarantined s) i"
      using False by (simp_all add: e bring_frame)
    have "quiet i (bring_into_line P e s) (fold (bring_into_line P) es (bring_into_line P e s)) \<and>
        map_of (sv_running (fold (bring_into_line P) es (bring_into_line P e s))) i =
          map_of (sv_running (bring_into_line P e s)) i \<and>
        map_of (sv_quarantined (fold (bring_into_line P) es (bring_into_line P e s))) i =
          map_of (sv_quarantined (bring_into_line P e s)) i"
      using Cons.prems by (intro Cons.IH) (auto simp: same)
    with q same quiet_trans show ?thesis by auto
  qed
qed simp

lemma bring_leaves_running:
  assumes "map_of (sv_running s) i = Some r"
  shows "bring_into_line P (i, r) s = s"
  using assms by (simp add: bring_into_line_def)

text \<open>Whether a quarantine still holds a record back at the moment a pass tests it.\<close>

definition holds_back :: "pass \<Rightarrow> int \<Rightarrow> botrec \<Rightarrow> quarantine \<Rightarrow> bool" where
  "holds_back P i r q \<longleftrightarrow>
     q_record q = r \<and> (case q_until q of None \<Rightarrow> True | Some u \<Rightarrow> ps_clock P i < u)"

lemma bring_leaves_quarantined:
  assumes "map_of (sv_running s) i = None" and "map_of (sv_quarantined s) i = Some q" and "holds_back P i r q"
  shows "bring_into_line P (i, r) s = s"
  using assms by (auto simp: bring_into_line_def start_bot_def Let_def holds_back_def dhas_iff split: option.splits)

text \<open>A pass whose loop would leave a bot alone has no call that concerns it.\<close>

lemma reconcile_leaves_alone:
  assumes "ps_desired P = Inr rs" and allowed: "map_of (allowed_to P s) i = Some r"
    and leaves: "\<And>s'. \<lbrakk> map_of (sv_running s') i = map_of (sv_running s) i;
                        map_of (sv_quarantined s') i = map_of (sv_quarantined s) i \<rbrakk> \<Longrightarrow> bring_into_line P (i, r) s' = s'"
  shows "quiet i s (reconcile P s) \<and> map_of (sv_running (reconcile P s)) i = map_of (sv_running s) i \<and>
         map_of (sv_quarantined (reconcile P s)) i = map_of (sv_quarantined s) i"
proof -
  define s0 where "s0 = s\<lparr> sv_life := flush (ps_refuses P) (sv_life s) \<rparr>"
  have allowed0: "map_of (allowed_to P s0) i = Some r" using allowed by (simp add: s0_def)
  have same: "map_of (sv_running (cleared P s0)) i = map_of (sv_running s) i"
    "map_of (sv_quarantined (cleared P s0)) i = map_of (sv_quarantined s) i"
    using give_up_unleased_view [of P s0 i] allowed0 by (simp_all add: cleared_view dhas_iff) (simp_all add: s0_def)
  have only: "r' = r" if "(i, r') \<in> set (allowed_to P s)" for r'
    using that allowed allowed_to_keys(1) [of P s] by simp
  have "quiet i (cleared P s0) (fold (bring_into_line P) (allowed_to P s) (cleared P s0)) \<and>
      map_of (sv_running (fold (bring_into_line P) (allowed_to P s) (cleared P s0))) i = map_of (sv_running (cleared P s0)) i \<and>
      map_of (sv_quarantined (fold (bring_into_line P) (allowed_to P s) (cleared P s0))) i = map_of (sv_quarantined (cleared P s0)) i"
  proof (rule quiet_bring_all)
    show "distinct (map fst (allowed_to P s))" by (rule allowed_to_keys(1))
    show "\<forall>(j, r) \<in> set (allowed_to P s). br_bot_id r = Some j" using allowed_to_keys(2) [of _ _ P s] by auto
    show "bring_into_line P (i, r') s' = s'"
      if "(i, r') \<in> set (allowed_to P s)" "map_of (sv_running s') i = map_of (sv_running (cleared P s0)) i"
        "map_of (sv_quarantined s') i = map_of (sv_quarantined (cleared P s0)) i" for r' s'
      using leaves [of s'] only [OF that(1)] that same by simp
  qed
  moreover have "quiet i s s0" by (simp add: s0_def quiet_same_calls)
  moreover have "quiet i s0 (cleared P s0)" by (rule quiet_cleared [OF allowed0])
  ultimately show ?thesis
    using reconcile_read [OF assms(1), of s] same quiet_trans by (metis s0_def)
qed

text \<open>What a pass says of a bot it goes on wanting with one record, and may go on serving.\<close>

definition still_wants :: "int \<Rightarrow> botrec \<Rightarrow> pass \<Rightarrow> bool" where
  "still_wants i r P \<longleftrightarrow>
     (case ps_desired P of
        Inl _ \<Rightarrow> True
      | Inr _ \<Rightarrow> map_of (wanted_by P) i = Some r \<and>
                (\<not> ps_exclusive P \<or> (\<forall>asked. \<exists>held. ps_claim P asked = Inr held \<and> i \<in> set held)))"

lemma map_of_filter_fst:
  "map_of (filter (\<lambda>(i, r). Q i) d) j = (if Q j then map_of d j else None)"
  by (induction d) auto

lemma still_wants_allowed:
  assumes "still_wants i r P" and "ps_desired P = Inr rs"
  shows "map_of (allowed_to P s) i = Some r"
proof (cases "ps_exclusive P")
  case True
  have "i \<in> set (leased P (wanted_by P) s)"
    using assms True by (auto simp: still_wants_def leased_def Let_def split: sum.splits) (metis Inl_Inr_False sum.inject(2))+
  with assms True show ?thesis by (simp add: still_wants_def allowed_to_def map_of_filter_fst)
qed (use assms in \<open>simp add: still_wants_def allowed_to_def\<close>)

text \<open>Two states that say the same of one bot go on doing so, whatever the others do.\<close>

definition agree :: "int \<Rightarrow> supervisor \<Rightarrow> supervisor \<Rightarrow> bool" where
  "agree j s t \<longleftrightarrow> map_of (sv_running s) j = map_of (sv_running t) j \<and>
                 map_of (sv_quarantined s) j = map_of (sv_quarantined t) j"

lemma agree_start:
  assumes "agree j s t" and "g r = ps_start P r"
  shows "agree j (start_bot (P\<lparr> ps_start := g \<rparr>) j r s) (start_bot P j r t)"
  using assms by (auto simp: agree_def start_bot_def Let_def update_conv' delete_conv' split: option.splits)

lemma agree_bring:
  assumes "agree j s t" and "i = j \<longrightarrow> g r = ps_start P r"
  shows "agree j (bring_into_line (P\<lparr> ps_start := g \<rparr>) (i, r) s) (bring_into_line P (i, r) t)"
proof (cases "i = j")
  case True
  have running: "map_of (sv_running s) j = map_of (sv_running t) j" using assms(1) by (simp add: agree_def)
  define s1 t1 where "s1 = (if dhas (sv_running s) j then stop_bot j s else s)"
    and "t1 = (if dhas (sv_running t) j then stop_bot j t else t)"
  have "agree j s1 t1" using assms(1) by (auto simp: s1_def t1_def agree_def dhas_iff)
  from agree_start [OF this, of g r P] assms True running show ?thesis
    by (cases "map_of (sv_running t) j") (simp_all add: bring_into_line_def Let_def s1_def t1_def dhas_iff)
next
  case False
  with assms(1) show ?thesis by (simp add: agree_def bring_frame)
qed

lemma agree_bring_all:
  assumes "agree j s t" and "\<And>i r. \<lbrakk> (i, r) \<in> set es; i = j \<rbrakk> \<Longrightarrow> g r = ps_start P r"
  shows "agree j (fold (bring_into_line (P\<lparr> ps_start := g \<rparr>)) es s) (fold (bring_into_line P) es t)"
  using assms
proof (induction es arbitrary: s t)
  case (Cons e es)
  obtain i r where e: "e = (i, r)" by (cases e)
  have "agree j (bring_into_line (P\<lparr> ps_start := g \<rparr>) e s) (bring_into_line P e t)"
    unfolding e by (rule agree_bring) (use Cons.prems e in auto)
  with Cons.IH Cons.prems(2) show ?case by simp
qed simp

lemma without_start [simp]:
  "wanted_by (P\<lparr> ps_start := g \<rparr>) = wanted_by P" "leased (P\<lparr> ps_start := g \<rparr>) w s = leased P w s"
  "allowed_to (P\<lparr> ps_start := g \<rparr>) s = allowed_to P s" "give_up_unleased (P\<lparr> ps_start := g \<rparr>) s = give_up_unleased P s"
  "cleared (P\<lparr> ps_start := g \<rparr>) s = cleared P s"
proof -
  show 1: "wanted_by (P\<lparr> ps_start := g \<rparr>) = wanted_by P" by (simp add: wanted_by_def)
  show 2: "leased (P\<lparr> ps_start := g \<rparr>) w s = leased P w s" for w s by (simp add: leased_def Let_def)
  show 3: "allowed_to (P\<lparr> ps_start := g \<rparr>) s = allowed_to P s" by (simp add: allowed_to_def 1 2)
  show 4: "give_up_unleased (P\<lparr> ps_start := g \<rparr>) s = give_up_unleased P s" by (simp add: give_up_unleased_def 1 2)
  show "cleared (P\<lparr> ps_start := g \<rparr>) s = cleared P s" by (simp add: cleared_def 3 4)
qed

text \<open>The wait grows by doubling, between its two ends.\<close>

lemma quarantine_wait_is_min: "quarantine_wait n = min (FIRST_WAIT * 2 ^ (n - 1)) LONGEST_WAIT"
  by (auto simp: quarantine_wait_def FIRST_WAIT_def LONGEST_WAIT_def)

lemma quarantine_wait_bounds: "FIRST_WAIT \<le> quarantine_wait n \<and> quarantine_wait n \<le> LONGEST_WAIT"
proof -
  have "(1 :: rat) \<le> 2 ^ (n - 1)" by simp
  then show ?thesis by (simp add: quarantine_wait_is_min FIRST_WAIT_def LONGEST_WAIT_def)
qed

section \<open>Properties of the supervisor\<close>

text \<open>
  C26. A pass that could read the providers leaves exactly the bots it is allowed to serve: each of
  them is running with the record it is configured with now, or is quarantined with that
  record and not running; a bot it is not allowed to serve (no longer configured, or leased to
  another process) is neither running nor quarantined.
\<close>

theorem reconcile_converges:
  assumes "ps_desired P = Inr rs"
  shows "case map_of (allowed_to P s) i of
      Some r \<Rightarrow> map_of (sv_running (reconcile P s)) i = Some r \<or>
                (map_of (sv_running (reconcile P s)) i = None \<and>
                 (\<exists>q. map_of (sv_quarantined (reconcile P s)) i = Some q \<and> q_record q = r))
    | None \<Rightarrow> map_of (sv_running (reconcile P s)) i = None \<and> map_of (sv_quarantined (reconcile P s)) i = None"
proof (cases "map_of (allowed_to P s) i")
  case None
  define s0 where "s0 = s\<lparr> sv_life := flush (ps_refuses P) (sv_life s) \<rparr>"
  have a: "allowed_to P s0 = allowed_to P s" by (simp add: s0_def)
  from None have "i \<notin> fst ` set (allowed_to P s)" by (simp add: map_of_eq_None_iff)
  from bring_all_frame [OF this, of P "cleared P s0"] None show ?thesis
    using reconcile_read [OF assms, of s, folded s0_def] by (simp add: cleared_view dhas_iff a Let_def)
next
  case (Some r)
  from bring_all_settles [OF allowed_to_keys(1) map_of_SomeD [OF Some]] Some show ?thesis
    using reconcile_read [OF assms, of s] by (simp add: settled_def Let_def)
qed

text \<open>
  A bot that is running is not touched by a pass that failed to read the providers, nor by a
  pass that still wants it with the same record and may serve it: it keeps running with that
  record, and the pass neither stops it nor starts it again.
\<close>

theorem steady_bot_is_left_running:
  assumes "map_of (sv_running s) i = Some r"
    and "(\<exists>e. ps_desired P = Inl e) \<or> map_of (allowed_to P s) i = Some r"
  shows "map_of (sv_running (reconcile P s)) i = Some r \<and>
    (\<exists>new. sv_calls (reconcile P s) = sv_calls s @ new \<and> Stopped i \<notin> set new \<and>
           (\<forall>r'. br_bot_id r' = Some i \<longrightarrow> Started r' \<notin> set new))"
proof (cases "ps_desired P")
  case (Inl e)
  with assms(1) show ?thesis by (simp add: reconcile_def)
next
  case (Inr rs)
  with assms have "map_of (allowed_to P s) i = Some r" by simp
  from reconcile_leaves_alone [OF Inr this] bring_leaves_running [of _ i r P] assms(1)
  show ?thesis by (fastforce simp: quiet_def concerns_def)
qed

text \<open>
  A quarantine is waited out: while the passes of a process go on wanting the bot with the
  record it was quarantined with (or fail to read the providers), and the quarantine either has no end, as for a
  revoked token, or ends after the moments those passes test it, none of them starts the bot,
  and it stays quarantined as it was.
\<close>

theorem quarantine_is_waited_out:
  assumes "map_of (sv_running s) i = None" and "map_of (sv_quarantined s) i = Some q"
    and "\<forall>P \<in> set Ps. still_wants i (q_record q) P \<and> (case q_until q of None \<Rightarrow> True | Some u \<Rightarrow> ps_clock P i < u)"
  shows "map_of (sv_running (fold reconcile Ps s)) i = None \<and>
    map_of (sv_quarantined (fold reconcile Ps s)) i = Some q \<and>
    (\<exists>new. sv_calls (fold reconcile Ps s) = sv_calls s @ new \<and>
           (\<forall>r. br_bot_id r = Some i \<longrightarrow> Started r \<notin> set new))"
proof -
  have "map_of (sv_running (fold reconcile Ps s)) i = None \<and>
    map_of (sv_quarantined (fold reconcile Ps s)) i = Some q \<and> quiet i s (fold reconcile Ps s)"
    using assms
  proof (induction Ps arbitrary: s)
    case (Cons P Ps)
    have "map_of (sv_running (reconcile P s)) i = None \<and> map_of (sv_quarantined (reconcile P s)) i = Some q \<and>
        quiet i s (reconcile P s)"
    proof (cases "ps_desired P")
      case (Inl e)
      with Cons.prems show ?thesis by (simp add: reconcile_def quiet_same_calls)
    next
      case (Inr rs)
      have "holds_back P i (q_record q) q" using Cons.prems by (simp add: holds_back_def)
      then have "bring_into_line P (i, q_record q) s' = s'"
        if "map_of (sv_running s') i = map_of (sv_running s) i" "map_of (sv_quarantined s') i = map_of (sv_quarantined s) i" for s'
        using bring_leaves_quarantined [of s' i q P] that Cons.prems by simp
      with reconcile_leaves_alone [OF Inr still_wants_allowed [OF _ Inr], of i "q_record q" s] Cons.prems
      show ?thesis by simp
    qed
    with Cons.IH [of "reconcile P s"] Cons.prems quiet_trans show ?case by auto
  qed simp
  moreover from this obtain new where new: "sv_calls (fold reconcile Ps s) = sv_calls s @ new" "\<forall>c \<in> set new. \<not> concerns i c"
    unfolding quiet_def by blast
  moreover have "Started r \<notin> set new" if "br_bot_id r = Some i" for r using new(2) that by (auto simp: concerns_def)
  ultimately show ?thesis by blast
qed

text \<open>
  One bot's failure is its own: whatever happens to the starts of the other bots in a pass
  (refused where they had succeeded, or the other way round), this bot ends the pass running, or quarantined, exactly as
  it would have.
\<close>

theorem failure_is_its_own:
  assumes "\<forall>r. br_bot_id r = Some j \<longrightarrow> g r = ps_start P r"
  shows "map_of (sv_running (reconcile (P\<lparr> ps_start := g \<rparr>) s)) j = map_of (sv_running (reconcile P s)) j \<and>
         map_of (sv_quarantined (reconcile (P\<lparr> ps_start := g \<rparr>) s)) j = map_of (sv_quarantined (reconcile P s)) j"
proof (cases "ps_desired P")
  case (Inl e)
  then show ?thesis by (simp add: reconcile_def)
next
  case (Inr rs)
  define s0 where "s0 = s\<lparr> sv_life := flush (ps_refuses P) (sv_life s) \<rparr>"
  have "agree j (fold (bring_into_line (P\<lparr> ps_start := g \<rparr>)) (allowed_to P s) (cleared P s0))
          (fold (bring_into_line P) (allowed_to P s) (cleared P s0))"
    using allowed_to_keys(2) [of _ _ P s] assms by (intro agree_bring_all) (auto simp: agree_def)
  with reconcile_read [OF Inr, of s] reconcile_read [of "P\<lparr> ps_start := g \<rparr>" rs s] Inr show ?thesis
    by (simp add: Let_def s0_def agree_def)
qed

text \<open>
  What a failed start of a new record costs the bot: when Telegram refused the token, the
  quarantine has no end; otherwise it ends between five and three hundred seconds after the
  failure, and after a repeated failure of the same record exactly twice as long after the failure as the last
  time, until the ceiling of three hundred seconds.
\<close>

theorem failed_start_is_quarantined:
  assumes "map_of (sv_quarantined s) i = held"
    and "case held of None \<Rightarrow> True | Some q \<Rightarrow> q_record q = r \<and> 0 < q_attempts q \<and> (\<exists>u. q_until q = Some u \<and> u \<le> ps_clock P i)"
    and "ps_start P r = Some f"
  shows "\<exists>q. map_of (sv_quarantined (start_bot P i r s)) i = Some q \<and> q_record q = r \<and>
    q_attempts q = (case held of None \<Rightarrow> 1 | Some q0 \<Rightarrow> q_attempts q0 + 1) \<and>
    (if classify (ps_importable P) f = REVOKED then q_until q = None
     else \<exists>w. q_until q = Some (ps_failed_at P i + w) \<and> 5 \<le> w \<and> w \<le> 300 \<and>
            w = (case held of None \<Rightarrow> 5 | Some q0 \<Rightarrow> min (2 * quarantine_wait (q_attempts q0)) 300))"
proof -
  define n where "n = (case held of None \<Rightarrow> 1 | Some q0 \<Rightarrow> q_attempts q0 + 1)"
  have start: "start_bot P i r s = quarantine_bot P i r n f (s\<lparr> sv_calls := sv_calls s @ [Started r] \<rparr>)"
    using assms by (auto simp: start_bot_def Let_def n_def split: option.splits)
  have "quarantine_wait n = (case held of None \<Rightarrow> 5 | Some q0 \<Rightarrow> min (2 * quarantine_wait (q_attempts q0)) 300)"
  proof (cases held)
    case None
    then show ?thesis by (simp add: n_def quarantine_wait_is_min FIRST_WAIT_def LONGEST_WAIT_def)
  next
    case (Some q0)
    with assms(2) obtain k where "q_attempts q0 = Suc k" by (cases "q_attempts q0") auto
    with Some show ?thesis by (simp add: n_def quarantine_wait_is_min FIRST_WAIT_def LONGEST_WAIT_def min_def)
  qed
  with quarantine_wait_bounds [of n] show ?thesis
    by (simp add: start waits_def n_def FIRST_WAIT_def LONGEST_WAIT_def)
qed

section \<open>Witnesses\<close>

text \<open>Two bots: the second is refused by Telegram, and the pass does not need leases.\<close>

definition bot7 :: botrec where
  "bot7 = \<lparr> br_bot_id = Some 7, br_alias = ''shop'', br_settings = [] \<rparr>"

definition bot8 :: botrec where
  "bot8 = \<lparr> br_bot_id = Some 8, br_alias = ''help'', br_settings = [] \<rparr>"

definition pass78 :: pass where
  "pass78 = \<lparr> ps_desired = Inr [bot7, bot8], ps_exclusive = False, ps_claim = (\<lambda>_. Inl ''down''),
     ps_start = (\<lambda>r. if r = bot8 then Some TelegramUnauthorizedError else None), ps_importable = True,
     ps_clock = (\<lambda>_. 10), ps_failed_at = (\<lambda>_. 11), ps_wall = (\<lambda>_. 1000), ps_refuses = False \<rparr>"

definition idle :: supervisor where
  "idle = \<lparr> sv_running = [], sv_quarantined = [], sv_holding = [],
     sv_life = \<lparr> lc_rows = [], lc_unwritten = [], lc_signals = [] \<rparr>, sv_calls = [] \<rparr>"

definition held8 :: quarantine where
  "held8 = \<lparr> q_reason = ''TelegramUnauthorizedError'', q_until = None, q_record = bot8, q_attempts = 1, q_fate = REVOKED \<rparr>"

definition serving7 :: supervisor where
  "serving7 = idle\<lparr> sv_running := [(7, bot7)], sv_quarantined := [(8, held8)] \<rparr>"

lemmas witness_defs = bot7_def bot8_def pass78_def idle_def held8_def serving7_def

lemma pass78_allowed: "allowed_to pass78 s = [(7, bot7), (8, bot8)]"
  by (simp add: allowed_to_def wanted_by_def pass78_def bot7_def bot8_def)

theorem reconcile_converges_witness:
  "map_of (sv_running (reconcile pass78 idle)) 7 = Some bot7 \<or>
   (map_of (sv_running (reconcile pass78 idle)) 7 = None \<and>
    (\<exists>q. map_of (sv_quarantined (reconcile pass78 idle)) 7 = Some q \<and> q_record q = bot7))"
  using reconcile_converges [of pass78 "[bot7, bot8]" idle 7] by (simp add: pass78_allowed) (simp add: pass78_def)

theorem steady_bot_is_left_running_witness:
  "map_of (sv_running (reconcile pass78 serving7)) 7 = Some bot7"
  using steady_bot_is_left_running [of serving7 7 bot7 pass78] by (simp add: pass78_allowed) (simp add: serving7_def)

theorem quarantine_is_waited_out_witness:
  "map_of (sv_quarantined (fold reconcile [pass78, pass78\<lparr> ps_desired := Inl ''down'' \<rparr>, pass78] serving7)) 8 = Some held8"
proof -
  have "map_of (sv_running serving7) 8 = None" "map_of (sv_quarantined serving7) 8 = Some held8"
    by (simp_all add: serving7_def)
  moreover have "still_wants 8 (q_record held8) pass78" "q_until held8 = None"
    "still_wants 8 (q_record held8) (pass78\<lparr> ps_desired := Inl ''down'' \<rparr>)"
    by (simp_all add: still_wants_def wanted_by_def witness_defs)
  ultimately show ?thesis
    using quarantine_is_waited_out [of serving7 8 held8 "[pass78, pass78\<lparr> ps_desired := Inl ''down'' \<rparr>, pass78]"] by simp
qed

theorem failure_is_its_own_witness:
  "map_of (sv_running (reconcile (pass78\<lparr> ps_start := (\<lambda>_. None) \<rparr>) idle)) 7 = map_of (sv_running (reconcile pass78 idle)) 7"
proof -
  have "\<forall>r. br_bot_id r = Some 7 \<longrightarrow> (\<lambda>_. None) r = ps_start pass78 r" by (auto simp: pass78_def bot8_def)
  from failure_is_its_own [OF this] show ?thesis by simp
qed

theorem failed_start_is_quarantined_witness:
  "\<exists>q. map_of (sv_quarantined (start_bot pass78 8 bot8 idle)) 8 = Some q \<and> q_until q = None"
proof -
  have "ps_start pass78 bot8 = Some TelegramUnauthorizedError" "classify (ps_importable pass78) TelegramUnauthorizedError = REVOKED"
    "map_of (sv_quarantined idle) 8 = None"
    by (simp_all add: pass78_def classify_def idle_def)
  with failed_start_is_quarantined [of idle 8 None bot8 pass78 TelegramUnauthorizedError] show ?thesis by auto
qed

end
