(* ===== verification/Redaction.thy ===== *)
theory Redaction
  imports Envelope "HOL-Library.Sublist"
begin

text \<open>
  Stripping credentials from text, \<open>secrets\<close> and \<open>redact_text\<close> of \<open>wire/payloads.py\<close>:
  the configured credentials by value, then whatever has the shape of a bot token,
  \<open>(?<!\d)\d{5,}:[A-Za-z0-9_-]{30,}\b\<close>.

  A character is a code point below 256, for which \<open>\d\<close> is the ASCII digits and \<open>\w\<close> is
  listed.  The expression is modelled by what its engine finds: at a position, the digits are
  all those up to the colon, and the run behind it is the longest that ends at a word boundary.
\<close>

section \<open>The shape of a token\<close>

definition is_digit :: "char \<Rightarrow> bool" where
  "is_digit c = (let n = of_char c :: nat in 48 \<le> n \<and> n \<le> 57)"

definition is_letter :: "char \<Rightarrow> bool" where
  "is_letter c = (let n = of_char c :: nat in (65 \<le> n \<and> n \<le> 90) \<or> (97 \<le> n \<and> n \<le> 122))"

definition token_char :: "char \<Rightarrow> bool" where
  "token_char c = (is_letter c \<or> is_digit c \<or> c = CHR ''_'' \<or> c = CHR ''-'')"

definition word_char :: "char \<Rightarrow> bool" where
  "word_char c =
     (is_letter c \<or> is_digit c \<or> c = CHR ''_'' \<or>
      (let n = of_char c :: nat in n \<in> {170, 178, 179, 181, 185, 186, 188, 189, 190} \<or> (192 \<le> n \<and> n \<noteq> 215 \<and> n \<noteq> 247)))"

text \<open>\<open>\b\<close> behind the character \<open>x\<close>, before the rest of the text.\<close>

definition boundary :: "char \<Rightarrow> string \<Rightarrow> bool" where
  "boundary x rest = (word_char x \<noteq> (case rest of [] \<Rightarrow> False | y # _ \<Rightarrow> word_char y))"

text \<open>The longest prefix of a run, of at least \<open>low\<close> characters, that ends at a boundary.\<close>

fun longest_bounded :: "nat \<Rightarrow> string \<Rightarrow> nat \<Rightarrow> nat option" where
  "longest_bounded low s 0 = None"
| "longest_bounded low s (Suc k) =
     (if Suc k < low then None
      else if boundary (s ! k) (drop (Suc k) s) then Some (Suc k)
      else longest_bounded low s k)"

text \<open>
  What the expression matches at a position: the character before it, if any, and the text from
  there; the result is the length of the match.
\<close>

definition token_match :: "char option \<Rightarrow> string \<Rightarrow> nat option" where
  "token_match before s =
     (if (case before of None \<Rightarrow> False | Some c \<Rightarrow> is_digit c) then None
      else (let d = length (takeWhile is_digit s)
            in if d < 5 then None
               else case drop d s of
                      [] \<Rightarrow> None
                    | c # rest \<Rightarrow>
                        if c \<noteq> CHR '':'' then None
                        else (case longest_bounded 30 rest (length (takeWhile token_char rest)) of
                                None \<Rightarrow> None
                              | Some k \<Rightarrow> Some (d + 1 + k))))"

lemma token_match_pos: "token_match before s = Some n \<Longrightarrow> 0 < n"
  by (auto simp: token_match_def Let_def split: if_splits list.splits option.splits)

definition REDACTED :: string where
  "REDACTED = ''***''"

text \<open>\<open>_TOKEN_RE.sub(_REDACTED, text)\<close>.\<close>

function token_sub :: "char option \<Rightarrow> string \<Rightarrow> string" where
  "token_sub before s =
     (case s of
        [] \<Rightarrow> []
      | c # cs \<Rightarrow>
          (case token_match before s of
             None \<Rightarrow> c # token_sub (Some c) cs
           | Some n \<Rightarrow> REDACTED @ token_sub (Some (s ! (n - 1))) (drop n s)))"
  by pat_completeness auto
termination
proof (relation "measure (\<lambda>(before, s). length s)")
  fix before s c cs n
  assume "s = c # cs" "token_match before s = Some n"
  then show "((Some (s ! (n - 1)), drop n s), before, s) \<in> measure (\<lambda>(before, s). length s)"
    using token_match_pos [of before s n] by simp
qed simp_all

declare token_sub.simps [simp del]

text \<open>\<open>_TOKEN_RE.search(text) is not None\<close>.\<close>

fun has_token :: "char option \<Rightarrow> string \<Rightarrow> bool" where
  "has_token before [] = False"
| "has_token before (c # cs) = (token_match before (c # cs) \<noteq> None \<or> has_token (Some c) cs)"

section \<open>Redaction\<close>

text \<open>\<open>text.replace(secret, _REDACTED)\<close>, for a secret that is not empty.\<close>

function replace_all :: "string \<Rightarrow> string \<Rightarrow> string" where
  "replace_all secret s =
     (case s of
        [] \<Rightarrow> []
      | c # cs \<Rightarrow>
          if secret \<noteq> [] \<and> take (length secret) s = secret then REDACTED @ replace_all secret (drop (length secret) s)
          else c # replace_all secret cs)"
  by pat_completeness auto
termination by (relation "measure (\<lambda>(secret, s). length s)") auto

declare replace_all.simps [simp del]

text \<open>\<open>secrets\<close>, over the values of \<open>TOKEN\<close> and \<open>WEBHOOK_SECRET\<close> as text.\<close>

definition secrets :: "string list \<Rightarrow> string list" where
  "secrets found = filter (\<lambda>secret. secret \<noteq> []) (map (strip_if is_space) found)"

definition redact_text :: "string list \<Rightarrow> string \<Rightarrow> string" where
  "redact_text configured text =
     (let text = fold replace_all configured text
      in if CHR '':'' \<notin> set text then text else token_sub None text)"

section \<open>What a match is\<close>

lemma char_classes [simp]:
  "\<not> is_digit CHR '':''" "\<not> token_char CHR '':''" "\<not> word_char CHR '':''"
  "\<not> is_digit CHR ''*''" "\<not> token_char CHR ''*''" "\<not> word_char CHR ''*''"
  by (simp_all add: is_digit_def is_letter_def token_char_def word_char_def)

lemma digit_classes: "is_digit c \<Longrightarrow> token_char c \<and> word_char c"
  by (simp add: token_char_def word_char_def)

definition token_shaped :: "string \<Rightarrow> bool" where
  "token_shaped s \<longleftrightarrow>
     (\<exists>ds b rest. s = ds @ CHR '':'' # b @ rest \<and> 5 \<le> length ds \<and> (\<forall>c \<in> set ds. is_digit c) \<and>
        30 \<le> length b \<and> (\<forall>c \<in> set b. token_char c) \<and> boundary (last b) rest)"

lemma token_shapedI:
  assumes "5 \<le> length ds" and "\<forall>c \<in> set ds. is_digit c" and "30 \<le> length b" and "\<forall>c \<in> set b. token_char c"
    and "boundary (last b) rest"
  shows "token_shaped (ds @ CHR '':'' # b @ rest)"
  using assms unfolding token_shaped_def by blast

lemma longest_bounded_Some:
  "longest_bounded low s n = Some k \<Longrightarrow> low \<le> k \<and> 0 < k \<and> k \<le> n \<and> boundary (s ! (k - 1)) (drop k s)"
  by (induction n) (auto split: if_splits)

lemma longest_bounded_None:
  "\<lbrakk> longest_bounded low s n = None; low \<le> k; 0 < k; k \<le> n \<rbrakk> \<Longrightarrow> \<not> boundary (s ! (k - 1)) (drop k s)"
  by (induction n) (auto split: if_splits simp: le_Suc_eq)

lemma last_take_nth: "\<lbrakk> 0 < k; k \<le> length s \<rbrakk> \<Longrightarrow> last (take k s) = s ! (k - 1)"
  by (subst last_conv_nth) auto

lemma token_match_Some:
  assumes "token_match before s = Some n"
  shows "\<exists>ds b rest. s = ds @ CHR '':'' # b @ rest \<and> 5 \<le> length ds \<and> (\<forall>c \<in> set ds. is_digit c) \<and>
    30 \<le> length b \<and> (\<forall>c \<in> set b. token_char c) \<and> boundary (last b) rest \<and> n = length ds + 1 + length b"
proof -
  define d where "d = length (takeWhile is_digit s)"
  from assms obtain rest k where rest: "drop d s = CHR '':'' # rest" and "5 \<le> d"
    and k: "longest_bounded 30 rest (length (takeWhile token_char rest)) = Some k" and n: "n = d + 1 + k"
    by (auto simp: token_match_def Let_def d_def split: if_splits list.splits option.splits)
  from longest_bounded_Some [OF k] have k': "30 \<le> k" "k \<le> length (takeWhile token_char rest)"
    "boundary (rest ! (k - 1)) (drop k rest)" by auto
  then have kl: "k \<le> length rest" using length_takeWhile_le [of token_char rest] by linarith
  have "s = takeWhile is_digit s @ CHR '':'' # take k rest @ drop k rest"
    using rest by (metis append_take_drop_id d_def takeWhile_eq_take)
  moreover have "\<forall>c \<in> set (take k rest). token_char c"
  proof
    fix c assume "c \<in> set (take k rest)"
    then obtain i where i: "i < k" "c = rest ! i" by (auto simp: in_set_conv_nth)
    with k'(2) have "c = takeWhile token_char rest ! i" "i < length (takeWhile token_char rest)"
      by (simp_all add: takeWhile_nth)
    then show "token_char c" using nth_mem set_takeWhileD by metis
  qed
  moreover have "last (take k rest) = rest ! (k - 1)" using k' kl by (intro last_take_nth) auto
  moreover have "\<forall>c \<in> set (takeWhile is_digit s). is_digit c" by (auto dest: set_takeWhileD)
  ultimately show ?thesis using k' kl \<open>5 \<le> d\<close> n d_def by (metis length_take min.absorb2)
qed

lemma token_match_None_iff:
  "token_match before s = None \<longleftrightarrow> (case before of None \<Rightarrow> False | Some c \<Rightarrow> is_digit c) \<or> \<not> token_shaped s"
proof -
  have "token_match before s \<noteq> None"
    if shaped: "token_shaped s" and before: "\<not> (case before of None \<Rightarrow> False | Some c \<Rightarrow> is_digit c)"
  proof -
    from shaped obtain ds b rest where s: "s = ds @ CHR '':'' # b @ rest" and ds: "5 \<le> length ds" "\<forall>c \<in> set ds. is_digit c"
      and b: "30 \<le> length b" "\<forall>c \<in> set b. token_char c" and bound: "boundary (last b) rest"
      by (auto simp: token_shaped_def)
    have tw: "takeWhile is_digit s = ds" using ds(2) by (simp add: s)
    have "length b \<le> length (takeWhile token_char (b @ rest))" using b(2) by (simp add: takeWhile_append)
    moreover have "(b @ rest) ! (length b - 1) = last b" using b(1) by (cases b rule: rev_cases) auto
    moreover have "0 < length b" using b(1) by linarith
    ultimately have "longest_bounded 30 (b @ rest) (length (takeWhile token_char (b @ rest))) \<noteq> None"
      using longest_bounded_None [of 30 "b @ rest" "length (takeWhile token_char (b @ rest))" "length b"] b(1) bound by auto
    then show ?thesis using ds before tw by (auto simp: token_match_def Let_def s)
  qed
  moreover have "token_shaped s" if "token_match before s \<noteq> None"
    using that token_match_Some [of before s] unfolding token_shaped_def by blast
  moreover have "token_match before s = None" if "case before of None \<Rightarrow> False | Some c \<Rightarrow> is_digit c"
    using that by (simp add: token_match_def)
  ultimately show ?thesis by blast
qed

section \<open>No token is left\<close>

lemma REDACTED_Cons: "REDACTED = [CHR ''*'', CHR ''*'', CHR ''*'']"
  by (simp add: REDACTED_def)

lemma token_shaped_starts: "token_shaped s \<Longrightarrow> \<exists>c cs. s = c # cs \<and> is_digit c"
  unfolding token_shaped_def by (metis append_Cons list.exhaust list.set_intros(1) list.size(3) not_numeral_le_zero)

text \<open>
  A token-shaped stretch that begins in text the substitution kept is one the original text
  already had: it cannot contain an asterisk, and where it would end just before one, the
  original has there the digits of the token that was replaced.
\<close>

lemma token_shaped_was_there:
  assumes "token_shaped (v @ token_sub before s)" and "v \<noteq> []" and "before = Some (last v)"
  shows "token_shaped (v @ s)"
  using assms
proof (induction before s arbitrary: v rule: token_sub.induct)
  case (1 before s)
  show ?case
  proof (cases s)
    case Nil
    with "1.prems" show ?thesis by (simp add: token_sub.simps)
  next
    case (Cons c cs)
    show ?thesis
    proof (cases "token_match before s")
      case None
      then have "token_sub before s = c # token_sub (Some c) cs" using Cons by (simp add: token_sub.simps [of before])
      then have "token_shaped ((v @ [c]) @ token_sub (Some c) cs)" using "1.prems"(1) by simp
      then have "token_shaped ((v @ [c]) @ cs)" by (rule "1.IH"(1) [OF Cons None]) simp_all
      then show ?thesis using Cons by simp
    next
      case (Some n)
      from token_match_Some [OF Some] obtain es b' rest' where "s = es @ CHR '':'' # b' @ rest'" and es: "5 \<le> length es" "\<forall>c \<in> set es. is_digit c"
        by auto
      then obtain more where s: "s = es @ CHR '':'' # more" by auto
      from Some "1.prems"(3) have "\<not> is_digit (last v)" using token_match_None_iff [of before s] by auto
      define out where "out = token_sub (Some (s ! (n - 1))) (drop n s)"
      from Cons Some have "token_sub before s = REDACTED @ out"
        unfolding out_def by (simp add: token_sub.simps [of before])
      with "1.prems"(1) have "token_shaped (v @ REDACTED @ out)" by simp
      then obtain ds b rest where eq: "v @ REDACTED @ out = ds @ CHR '':'' # b @ rest" and ds: "5 \<le> length ds" "\<forall>c \<in> set ds. is_digit c"
        and b: "30 \<le> length b" "\<forall>c \<in> set b. token_char c" and bound: "boundary (last b) rest"
        by (auto simp: token_shaped_def)
      have free: "CHR ''*'' \<notin> set (ds @ CHR '':'' # b)" using ds(2) b(2) by auto
      have "prefix (ds @ CHR '':'' # b) v"
        using eq free by (auto simp: append_eq_append_conv2 REDACTED_Cons Cons_eq_append_conv append_eq_Cons_conv)
      then obtain w where v: "v = ds @ CHR '':'' # b @ w" by (auto simp: prefix_def)
      show ?thesis
      proof (cases w)
        case Nil
        have "token_shaped (ds @ CHR '':'' # (b @ es) @ CHR '':'' # more)"
        proof (rule token_shapedI)
          show "\<forall>c \<in> set (b @ es). token_char c" using b(2) es(2) digit_classes by auto
          have "last (b @ es) \<in> set es" using es(1) by (cases es) auto
          then show "boundary (last (b @ es)) (CHR '':'' # more)" using es(2) digit_classes by (simp add: boundary_def)
        qed (use ds b in auto)
        then show ?thesis using v Nil s by simp
      next
        case (Cons y ys)
        then have "boundary (last b) (w @ s)" using bound eq v by (auto simp: boundary_def)
        from token_shapedI [OF ds b this] v show ?thesis by simp
      qed
    qed
  qed
qed

text \<open>Behind a replaced token no digit follows a digit, so a search may go on from there.\<close>

lemma after_token:
  assumes "token_match before s = Some n" and "is_digit (s ! (n - 1))"
  shows "\<not> token_shaped (token_sub (Some (s ! (n - 1))) (drop n s))"
proof
  assume shaped: "token_shaped (token_sub (Some (s ! (n - 1))) (drop n s))"
  from token_match_Some [OF assms(1)] obtain ds b rest where s: "s = ds @ CHR '':'' # b @ rest" and "30 \<le> length b"
    and bound: "boundary (last b) rest" and n: "n = length ds + 1 + length b" by auto
  then have "b \<noteq> []" by auto
  then have "s ! (n - 1) = last b" by (simp add: s n nth_append last_conv_nth)
  with assms(2) bound digit_classes have nonword: "case rest of [] \<Rightarrow> True | y # _ \<Rightarrow> \<not> word_char y"
    by (simp add: boundary_def split: list.splits)
  have drop: "drop n s = rest" by (simp add: s n)
  from token_shaped_starts [OF shaped] obtain c cs where c: "token_sub (Some (s ! (n - 1))) rest = c # cs" "is_digit c"
    unfolding drop by blast
  then show False
    using nonword assms(2) digit_classes
    by (cases rest) (auto simp: token_sub.simps [of "Some _"] token_match_None_iff REDACTED_Cons split: option.splits)
qed

lemma has_token_before:
  assumes "\<not> has_token (Some x) s" and "is_digit x \<longrightarrow> \<not> token_shaped s"
  shows "\<not> has_token (Some y) s"
  using assms by (cases s) (auto simp: token_match_None_iff)

lemma token_sub_leaves_no_token: "\<not> has_token before (token_sub before s)"
proof (induction before s rule: token_sub.induct)
  case (1 before s)
  show ?case
  proof (cases s)
    case Nil
    then show ?thesis by (simp add: token_sub.simps)
  next
    case (Cons c cs)
    show ?thesis
    proof (cases "token_match before s")
      case None
      then have sub: "token_sub before s = c # token_sub (Some c) cs" using Cons by (simp add: token_sub.simps [of before])
      have "token_shaped s" if "token_shaped (c # token_sub (Some c) cs)"
      proof -
        from that have "token_shaped ([c] @ token_sub (Some c) cs)" by simp
        then have "token_shaped ([c] @ cs)" by (rule token_shaped_was_there) simp_all
        then show ?thesis by (simp add: Cons)
      qed
      with None have "token_match before (c # token_sub (Some c) cs) = None"
        unfolding token_match_None_iff by blast
      with "1.IH"(1) [OF Cons None] show ?thesis by (simp add: sub)
    next
      case (Some n)
      define x where "x = s ! (n - 1)"
      have sub: "token_sub before s = REDACTED @ token_sub (Some x) (drop n s)"
        using Cons Some by (simp add: x_def token_sub.simps [of before])
      have "\<not> token_shaped (CHR ''*'' # t)" for t using token_shaped_starts [of "CHR ''*'' # t"] by auto
      moreover have "\<not> has_token (Some CHR ''*'') (token_sub (Some x) (drop n s))"
        using has_token_before [OF "1.IH"(2) [OF Cons Some, folded x_def]] after_token [OF Some, folded x_def] by blast
      ultimately show ?thesis by (simp add: sub REDACTED_Cons token_match_None_iff)
    qed
  qed
qed

lemma no_colon_no_token: "CHR '':'' \<notin> set s \<Longrightarrow> \<not> has_token before s"
proof (induction s arbitrary: before)
  case (Cons c cs)
  have "CHR '':'' \<in> set s" if "token_shaped s" for s using that by (auto simp: token_shaped_def)
  with Cons.prems have "\<not> token_shaped (c # cs)" by blast
  with Cons show ?case by (auto simp: token_match_None_iff)
qed simp

section \<open>No configured credential is left\<close>

text \<open>A text from which stretches were taken out for asterisks.\<close>

inductive starred :: "string \<Rightarrow> string \<Rightarrow> bool" where
  starred_Nil: "starred [] []"
| starred_keep: "starred t r \<Longrightarrow> starred (c # t) (c # r)"
| starred_out: "starred t r \<Longrightarrow> starred (u @ t) (REDACTED @ r)"

lemma starred_prefix:
  assumes "starred t r" and "prefix w r" and "CHR ''*'' \<notin> set w"
  shows "prefix w t"
  using assms by (induction arbitrary: w) (auto simp: prefix_Cons REDACTED_Cons)

lemma starred_sublist:
  assumes "starred t r" and "sublist w r" and "CHR ''*'' \<notin> set w"
  shows "sublist w t"
  using assms
proof (induction arbitrary: w)
  case (starred_keep t r c)
  then show ?case using starred_prefix [OF starred.starred_keep [OF starred_keep.hyps]] by (auto simp: sublist_Cons_right)
next
  case (starred_out t r u)
  then have "w = [] \<or> sublist w r" by (auto simp: sublist_Cons_right REDACTED_Cons prefix_Cons)
  with starred_out show ?case by (auto simp: sublist_append)
qed simp

lemma starred_refl: "starred t t"
  by (induction t) (auto intro: starred.intros)

lemma starred_token_sub: "starred s (token_sub before s)"
proof (induction before s rule: token_sub.induct)
  case (1 before s)
  show ?case
  proof (cases s)
    case (Cons c cs)
    show ?thesis
    proof (cases "token_match before s")
      case None
      then have "token_sub before s = c # token_sub (Some c) cs" using Cons by (simp add: token_sub.simps [of before])
      with starred_keep [OF "1.IH"(1) [OF Cons None]] Cons show ?thesis by simp
    next
      case (Some n)
      then have "token_sub before s = REDACTED @ token_sub (Some (s ! (n - 1))) (drop n s)"
        using Cons by (simp add: token_sub.simps [of before])
      with starred_out [OF "1.IH"(2) [OF Cons Some], of "take n s"] show ?thesis by simp
    qed
  qed (simp add: token_sub.simps starred_Nil)
qed

lemma starred_replace_all: "starred s (replace_all w s)"
proof (induction w s rule: replace_all.induct)
  case (1 w s)
  show ?case
  proof (cases s)
    case (Cons c cs)
    show ?thesis
    proof (cases "w \<noteq> [] \<and> take (length w) s = w")
      case True
      then have "replace_all w s = REDACTED @ replace_all w (drop (length w) s)"
        using Cons by (subst replace_all.simps) simp
      with starred_out [OF "1.IH"(1) [OF Cons True], of "take (length w) s"] show ?thesis by simp
    next
      case False
      then have "replace_all w s = c # replace_all w cs" using Cons by (subst replace_all.simps) auto
      with starred_keep [OF "1.IH"(2) [OF Cons False]] Cons show ?thesis by simp
    qed
  qed (simp add: replace_all.simps starred_Nil)
qed

lemma prefix_take: "prefix w s \<longleftrightarrow> take (length w) s = w"
  by (metis append_take_drop_id append_eq_conv_conj prefix_def)

lemma replace_all_leaves_none:
  assumes "w \<noteq> []" and "CHR ''*'' \<notin> set w"
  shows "\<not> sublist w (replace_all w s)"
  using assms
proof (induction w s rule: replace_all.induct)
  case (1 w s)
  show ?case
  proof (cases s)
    case Nil
    with "1.prems" show ?thesis by (simp add: replace_all.simps)
  next
    case (Cons c cs)
    show ?thesis
    proof (cases "w \<noteq> [] \<and> take (length w) s = w")
      case True
      then have "replace_all w s = REDACTED @ replace_all w (drop (length w) s)"
        using Cons by (subst replace_all.simps) simp
      with "1.IH"(1) [OF Cons True] "1.prems" show ?thesis by (auto simp: REDACTED_Cons sublist_Cons_right prefix_Cons)
    next
      case False
      then have out: "replace_all w s = c # replace_all w cs" using Cons by (subst replace_all.simps) auto
      have "\<not> prefix w s" using False "1.prems" by (simp add: prefix_take)
      then have "\<not> prefix w (replace_all w s)" using starred_prefix [OF starred_replace_all] "1.prems" by blast
      with "1.IH"(2) [OF Cons False] "1.prems" show ?thesis by (simp add: out sublist_Cons_right)
    qed
  qed
qed

lemma replaced_leaves_none:
  assumes "w \<in> set configured" and "w \<noteq> []" and "CHR ''*'' \<notin> set w"
  shows "\<not> sublist w (fold replace_all configured text)"
  using assms(1)
proof (induction configured rule: rev_induct)
  case (snoc v vs)
  show ?case
  proof (cases "w = v")
    case True
    with replace_all_leaves_none [OF assms(2,3)] show ?thesis by simp
  next
    case False
    with snoc have "\<not> sublist w (fold replace_all vs text)" by simp
    with starred_sublist [OF starred_replace_all _ assms(3)] show ?thesis by auto
  qed
qed simp

text \<open>What changed a text left its mark there.\<close>

lemma token_sub_marks: "token_sub before s = s \<or> sublist REDACTED (token_sub before s)"
proof (induction before s rule: token_sub.induct)
  case (1 before s)
  show ?case
  proof (cases s)
    case (Cons c cs)
    show ?thesis
    proof (cases "token_match before s")
      case None
      then have "token_sub before s = c # token_sub (Some c) cs" using Cons by (simp add: token_sub.simps [of before])
      with "1.IH"(1) [OF Cons None] Cons show ?thesis by (auto simp: sublist_Cons_right)
    next
      case (Some n)
      then have "token_sub before s = REDACTED @ token_sub (Some (s ! (n - 1))) (drop n s)"
        using Cons by (simp add: token_sub.simps [of before])
      then show ?thesis by simp
    qed
  qed (simp add: token_sub.simps)
qed

lemma replace_all_marks: "replace_all w s = s \<or> sublist REDACTED (replace_all w s)"
proof (induction w s rule: replace_all.induct)
  case (1 w s)
  show ?case
  proof (cases s)
    case (Cons c cs)
    show ?thesis
    proof (cases "w \<noteq> [] \<and> take (length w) s = w")
      case True
      then have "replace_all w s = REDACTED @ replace_all w (drop (length w) s)"
        using Cons by (subst replace_all.simps) simp
      then show ?thesis by simp
    next
      case False
      then have "replace_all w s = c # replace_all w cs" using Cons by (subst replace_all.simps) auto
      with "1.IH"(2) [OF Cons False] Cons show ?thesis by (auto simp: sublist_Cons_right)
    qed
  qed (simp add: replace_all.simps)
qed

lemma redact_text_marks: "redact_text configured text = text \<or> sublist REDACTED (redact_text configured text)"
proof -
  have "fold replace_all configured text = text \<or> sublist REDACTED (fold replace_all configured text)"
  proof (induction configured rule: rev_induct)
    case (snoc w ws)
    with replace_all_marks [of w "fold replace_all ws text"] show ?case by auto
  qed simp
  with token_sub_marks [of None "fold replace_all configured text"] show ?thesis
    by (auto simp: redact_text_def Let_def)
qed

section \<open>Properties of redaction\<close>

text \<open>
  C23. Text that has been redacted holds no credential: a search for the shape of a bot token finds
  nothing in it (not even one formed by the substitutions themselves), and no configured
  credential occurs in it, unless that credential itself contains an asterisk.
\<close>

theorem redacted_text_has_no_credential:
  "\<not> has_token None (redact_text (secrets found) text) \<and>
   (\<forall>w \<in> set (secrets found). CHR ''*'' \<notin> set w \<longrightarrow> \<not> sublist w (redact_text (secrets found) text))"
proof -
  define t where "t = fold replace_all (secrets found) text"
  have r: "redact_text (secrets found) text = (if CHR '':'' \<notin> set t then t else token_sub None t)"
    by (simp add: redact_text_def t_def)
  have "\<not> sublist w (redact_text (secrets found) text)" if w: "w \<in> set (secrets found)" "CHR ''*'' \<notin> set w" for w
  proof -
    from w(1) have "w \<noteq> []" by (simp add: secrets_def)
    with replaced_leaves_none w have "\<not> sublist w t" by (simp add: t_def)
    with starred_sublist [OF starred_token_sub _ w(2)] show ?thesis by (auto simp: r)
  qed
  moreover have "\<not> has_token None (redact_text (secrets found) text)"
    using no_colon_no_token token_sub_leaves_no_token by (simp add: r)
  ultimately show ?thesis by blast
qed

theorem redacted_text_has_no_credential_witness:
  "\<not> sublist ''s3cret'' (redact_text (secrets ['' s3cret '', []]) ''the s3cret is 1s3cret'')"
proof -
  have "''s3cret'' \<in> set (secrets ['' s3cret '', []])" by (simp add: secrets_def strip_if_def is_space_def)
  moreover have "CHR ''*'' \<notin> set ''s3cret''" by simp
  ultimately show ?thesis using redacted_text_has_no_credential [of "['' s3cret '', []]"] by blast
qed

end
