(* ===== verification/Payloads.thy ===== *)
theory Payloads
  imports Redaction Texts
begin

text \<open>
  What the event log keeps of a call's arguments, \<open>wire/payloads.py\<close>: \<open>summarize\<close>, then
  \<open>redact_values\<close>, then \<open>bounded\<close>, composed by \<open>describe\<close>; and \<open>lossy_reason\<close>, by
  which a replay decides whether a recorded row still is the call.

  An argument is a value of type \<open>arg\<close>; what is recorded is a \<open>pyval\<close>.  The text a float or
  any other object is rendered as, which only the sizes depend on, is the argument \<open>render\<close>.
\<close>

declare dict_simps [simp]

section \<open>Arguments\<close>

datatype seq_kind = ListSeq | TupleSeq | SetSeq

text \<open>A key of a dictionary that is not text is kept by its \<open>str()\<close>.\<close>

datatype arg_key = KStr string | KOther string

fun key_text :: "arg_key \<Rightarrow> string" where
  "key_text (KStr s) = s"
| "key_text (KOther s) = s"

text \<open>
  \<open>ATimed\<close> is a \<open>datetime\<close>, a \<open>date\<close> or a \<open>Decimal\<close>, with the name of its type and its
  text; \<open>AEnum\<close> a member of an enum that is not itself text or a number, with its value;
  \<open>AObject\<close> anything else, by its class.
\<close>

datatype arg =
    ANone
  | ABool bool
  | AInt int
  | AFloat pyfloat
  | AStr string
  | ABytes string
  | ATimed string string
  | AEnum arg
  | ADict "(arg_key \<times> arg) list"
  | ASeq seq_kind "arg list"
  | AObject string

definition MAX_DEPTH :: nat where "MAX_DEPTH = 6"
definition MAX_STRING :: nat where "MAX_STRING = 2000"
definition MAX_KEYS :: nat where "MAX_KEYS = 50"
definition MAX_ITEMS :: nat where "MAX_ITEMS = 50"
definition OMITTED :: string where "OMITTED = ''__omitted__''"
definition TRUNCATED :: string where "TRUNCATED = ''__truncated__''"

section \<open>Summaries\<close>

definition text_of :: "bool \<Rightarrow> string \<Rightarrow> pyval" where
  "text_of bodies value =
     (if \<not> bodies then PDict [(OMITTED, PStr ''text''), (''length'', PInt (int (length value)))]
      else if length value \<le> MAX_STRING then PStr value
      else PDict [(TRUNCATED, PBool True), (''size'', PInt (int (length value))), (''preview'', PStr (take MAX_STRING value))])"

text \<open>\<open>_scalar\<close>; \<open>None\<close> stands for its sentinel.\<close>

fun scalar :: "bool \<Rightarrow> arg \<Rightarrow> pyval option" where
  "scalar bodies (ABytes b) = Some (PDict [(OMITTED, PStr ''bytes''), (''size'', PInt (int (length b)))])"
| "scalar bodies (AStr s) = Some (text_of bodies s)"
| "scalar bodies (ABool b) = Some (PBool b)"
| "scalar bodies ANone = Some PNone"
| "scalar bodies (AInt n) = Some (PInt n)"
| "scalar bodies (AFloat x) = Some (PFloat x)"
| "scalar bodies (ATimed ty s) = Some (PDict [(OMITTED, PStr ty), (''value'', PStr s)])"
| "scalar bodies _ = None"

text \<open>A dictionary built from pairs: a key that comes back keeps its place and takes the later value.\<close>

definition dict_of :: "(string \<times> 'v) list \<Rightarrow> (string \<times> 'v) list" where
  "dict_of pairs = fold (\<lambda>(k, v) d. dset k v d) pairs []"

fun summarize :: "bool \<Rightarrow> nat \<Rightarrow> arg \<Rightarrow> pyval" where
  "summarize bodies depth value =
     (if MAX_DEPTH < depth then PDict [(OMITTED, PStr ''depth'')]
      else case scalar bodies value of
        Some s \<Rightarrow> s
      | None \<Rightarrow>
          (case value of
             AEnum v \<Rightarrow> summarize bodies depth v
           | ADict pairs \<Rightarrow>
               (let kept = dict_of (take MAX_KEYS (map (\<lambda>p. (key_text (fst p), summarize bodies (Suc depth) (snd p))) pairs))
                in PDict (if length pairs \<le> MAX_KEYS then kept
                          else dset ''keys'' (PInt (int (length pairs))) (dset OMITTED (PStr ''keys'') kept)))
           | ASeq k items \<Rightarrow>
               (let shown = take MAX_ITEMS (map (summarize bodies (Suc depth)) items)
                in if length items \<le> MAX_ITEMS then PList shown
                   else PDict [(TRUNCATED, PBool True), (''size'', PInt (int (length items))), (''preview'', PList shown)])
           | AObject cls \<Rightarrow> PDict [(OMITTED, PStr cls)]
           | _ \<Rightarrow> PNone))"

declare summarize.simps [simp del]

section \<open>Redacting values\<close>

fun redact_values :: "string list \<Rightarrow> string list \<Rightarrow> pyval \<Rightarrow> pyval" where
  "redact_values keys configured (PDict d) =
     PDict (map (\<lambda>e. (fst e, if lower (fst e) \<in> set keys then PStr REDACTED else redact_values keys configured (snd e))) d)"
| "redact_values keys configured (PList xs) = PList (map (redact_values keys configured) xs)"
| "redact_values keys configured (PStr s) = PStr (redact_text configured s)"
| "redact_values keys configured v = v"

text \<open>\<open>redact_keys\<close>; \<open>None\<close> is a setting that is one string instead of a collection of names.\<close>

definition redact_keys :: "string list option \<Rightarrow> string list" where
  "redact_keys configured = (case configured of None \<Rightarrow> [] | Some names \<Rightarrow> map lower names)"

section \<open>The byte cap\<close>

text \<open>A character inside a JSON string, with \<open>ensure_ascii=False\<close>.\<close>

definition json_char :: "char \<Rightarrow> string" where
  "json_char c =
     (let n = of_char c :: nat
      in if c = CHR 0x22 \<or> c = CHR 0x5C then [CHR 0x5C, c]
         else if n = 8 then [CHR 0x5C, CHR ''b'']
         else if n = 9 then [CHR 0x5C, CHR ''t'']
         else if n = 10 then [CHR 0x5C, CHR ''n'']
         else if n = 12 then [CHR 0x5C, CHR ''f'']
         else if n = 13 then [CHR 0x5C, CHR ''r'']
         else if n < 32 then [CHR 0x5C, CHR ''u'', CHR ''0'', CHR ''0'', char_of (48 + n div 16), ''0123456789abcdef'' ! (n mod 16)]
         else [c])"

definition json_string :: "string \<Rightarrow> string" where
  "json_string s = [CHR 0x22] @ concat (map json_char s) @ [CHR 0x22]"

text \<open>\<open>json.dumps(v, ensure_ascii=False, default=str)\<close>.\<close>

fun json_text :: "(pyval \<Rightarrow> string) \<Rightarrow> pyval \<Rightarrow> string" where
  "json_text render PNone = ''null''"
| "json_text render (PBool b) = (if b then ''true'' else ''false'')"
| "json_text render (PInt n) = dec_int n"
| "json_text render (PFloat x) = render (PFloat x)"
| "json_text render (PStr s) = json_string s"
| "json_text render (PList xs) = ''['' @ comma_joined (map (json_text render) xs) @ '']''"
| "json_text render (PDict d) =
     ''{'' @ comma_joined (map (\<lambda>e. json_string (fst e) @ '': '' @ json_text render (snd e)) d) @ ''}''"
| "json_text render v = json_string (render v)"

definition utf8_length :: "string \<Rightarrow> nat" where
  "utf8_length s = sum_list (map (\<lambda>c. if (of_char c :: nat) < 128 then 1 else 2) s)"

definition FINE_TUNE_BELOW :: int where "FINE_TUNE_BELOW = 8"

definition overflow_marker :: "string \<Rightarrow> int \<Rightarrow> pydict" where
  "overflow_marker content kept =
     [(TRUNCATED, PBool True), (''size'', PInt (int (length content))), (''preview'', PStr (take (nat kept) content))]"

text \<open>The loop of \<open>_overflow\<close>.\<close>

function overflow_loop :: "(pyval \<Rightarrow> string) \<Rightarrow> string \<Rightarrow> int \<Rightarrow> int \<Rightarrow> pydict" where
  "overflow_loop render content cap kept =
     (if kept < 0 then []
      else if int (utf8_length (json_text render (PDict (overflow_marker content kept)))) \<le> cap
      then overflow_marker content kept
      else overflow_loop render content cap (if FINE_TUNE_BELOW < kept then kept div 2 else kept - 1))"
  by pat_completeness auto
termination
  by (relation "measure (\<lambda>(render, content, cap, kept). nat (kept + 1))") (auto simp: FINE_TUNE_BELOW_def)

declare overflow_loop.simps [simp del]

definition overflow :: "(pyval \<Rightarrow> string) \<Rightarrow> string \<Rightarrow> int \<Rightarrow> pydict" where
  "overflow render content cap = overflow_loop render content cap (cap div 2)"

text \<open>\<open>bounded\<close>; \<open>None\<close> is a cap that \<open>int()\<close> refuses.\<close>

definition bounded :: "(pyval \<Rightarrow> string) \<Rightarrow> int option \<Rightarrow> pydict \<Rightarrow> pydict" where
  "bounded render configured payload =
     (case configured of
        None \<Rightarrow> []
      | Some cap \<Rightarrow>
          if cap \<le> 0 then []
          else (let content = json_text render (PDict payload)
                in if int (utf8_length content) \<le> cap then payload else overflow render content cap))"

section \<open>What a row may be replayed from\<close>

definition redacted_reason :: string where
  "redacted_reason = ''a value was redacted, and redaction is one-way''"

fun lossy_reason :: "pyval \<Rightarrow> string" and lossy_items :: "pyval list \<Rightarrow> string" and lossy_entries :: "pydict \<Rightarrow> string" where
  "lossy_reason (PDict d) =
     (if MAX_KEYS \<le> length d
      then dec_nat (length d) @ '' keys is the cap, and a mapping at it cannot be told from one cut to it''
      else lossy_entries d)"
| "lossy_reason (PList xs) =
     (if MAX_ITEMS \<le> length xs
      then dec_nat (length xs) @ '' items is the cap, and a list at it cannot be told from one cut to it''
      else lossy_items xs)"
| "lossy_reason (PStr s) =
     (if contains REDACTED s then redacted_reason
      else if MAX_STRING < length s
      then ''the arguments were recorded as truncated rather than in full (a '' @ dec_nat (length s) @ ''-character prefix)''
      else [])"
| "lossy_reason v = []"
| "lossy_items [] = []"
| "lossy_items (x # xs) = (let reason = lossy_reason x in if reason \<noteq> [] then reason else lossy_items xs)"
| "lossy_entries [] = []"
| "lossy_entries ((key, value) # d) =
     (if key = OMITTED \<or> key = TRUNCATED
      then ''the arguments were recorded as '' @ strip_if (\<lambda>c. c = CHR ''_'') key @ '' rather than in full''
      else (let reason = lossy_reason value
            in if reason \<noteq> []
               then (if take 13 reason = ''the arguments'' then reason else key @ '': '' @ reason)
               else lossy_entries d))"

section \<open>Describing a call\<close>

datatype payload_detail = DetailNone | DetailSummary | DetailFull

datatype choice = Member payload_detail | Text string

text \<open>\<open>as_member\<close> for \<open>PayloadDetail\<close>: a member of it, or the text of one.\<close>

definition as_detail :: "choice \<Rightarrow> payload_detail option" where
  "as_detail value =
     (case value of
        Member m \<Rightarrow> Some m
      | Text t \<Rightarrow>
          (let t = lower (strip_if is_space t)
           in if t = ''none'' then Some DetailNone
              else if t = ''summary'' then Some DetailSummary
              else if t = ''full'' then Some DetailFull
              else None))"

definition detail_level :: "choice \<Rightarrow> payload_detail" where
  "detail_level value = (case as_detail value of Some level \<Rightarrow> level | None \<Rightarrow> DetailSummary)"

record payload_conf =
  pl_payload :: choice
  pl_max_bytes :: "int option"
  pl_redact_keys :: "string list option"
  pl_credentials :: "string list"

definition describe :: "(pyval \<Rightarrow> string) \<Rightarrow> payload_conf \<Rightarrow> (arg_key \<times> arg) list \<Rightarrow> pydict" where
  "describe render C kwargs =
     (let level = detail_level (pl_payload C)
      in if level = DetailNone then []
         else (case redact_values (redact_keys (pl_redact_keys C)) (secrets (pl_credentials C))
                      (summarize (level = DetailFull) 0 (ADict kwargs)) of
                 PDict d \<Rightarrow> bounded render (pl_max_bytes C) d
               | _ \<Rightarrow> [(OMITTED, PStr ''undescribable'')]))"

section \<open>Marks of a loss\<close>

lemma contains_iff_sublist: "contains w s \<longleftrightarrow> sublist w s"
proof
  assume "contains w s"
  then obtain i where "take (length w) (drop i s) = w" by (auto simp: contains_def list_ex_iff)
  then have "s = take i s @ w @ drop (length w) (drop i s)" by (metis append_take_drop_id)
  then show "sublist w s" unfolding sublist_def by blast
next
  assume "sublist w s"
  then obtain ps ss where "s = ps @ w @ ss" by (auto simp: sublist_def)
  then show "contains w s"
    by (auto simp: contains_def list_ex_iff intro!: bexI [where x = "length ps"])
qed

lemma lossy_text_is_unchanged:
  assumes "lossy_reason (PStr (redact_text configured t)) = []"
  shows "redact_text configured t = t \<and> length t \<le> MAX_STRING"
  using assms redact_text_marks [of configured t]
  by (auto simp: contains_iff_sublist redacted_reason_def split: if_splits)

lemma marked_entries: "OMITTED \<in> fst ` set d \<or> TRUNCATED \<in> fst ` set d \<Longrightarrow> lossy_entries d \<noteq> []"
  by (induction d) (auto simp: Let_def split: if_splits)

lemma marked_mapping: "OMITTED \<in> fst ` set d \<or> TRUNCATED \<in> fst ` set d \<Longrightarrow> lossy_reason (PDict d) \<noteq> []"
  using marked_entries [of d] by simp

lemma lossless_entries: "\<lbrakk> lossy_entries d = []; (k, v) \<in> set d \<rbrakk> \<Longrightarrow> lossy_reason v = []"
  by (induction d) (auto simp: Let_def split: if_splits)

lemma lossless_items: "\<lbrakk> lossy_items xs = []; x \<in> set xs \<rbrakk> \<Longrightarrow> lossy_reason x = []"
  by (induction xs) (auto simp: Let_def split: if_splits)

lemma redact_keeps_keys:
  "redact_values keys configured (PDict d) = PDict d' \<Longrightarrow> map fst d' = map fst d"
  by auto

lemma lossy_redacted_marker:
  "OMITTED \<in> fst ` set d \<or> TRUNCATED \<in> fst ` set d \<Longrightarrow> lossy_reason (redact_values keys configured (PDict d)) \<noteq> []"
  using marked_mapping [of "map (\<lambda>e. (fst e, if lower (fst e) \<in> set keys then PStr REDACTED
      else redact_values keys configured (snd e))) d"] by (simp add: image_image)

lemma dset_new: "k \<notin> fst ` set d \<Longrightarrow> dset k v d = d @ [(k, v)]"
  by (induction d) auto

lemma dict_of_distinct:
  assumes "distinct (map fst pairs)"
  shows "dict_of pairs = pairs"
proof -
  have "fold (\<lambda>(k, v) d. dset k v d) pairs acc = acc @ pairs" if "distinct (map fst (acc @ pairs))" for acc
    using that
  proof (induction pairs arbitrary: acc)
    case (Cons e pairs)
    obtain k v where e: "e = (k, v)" by (cases e)
    with Cons.prems have "k \<notin> fst ` set acc" by auto
    then have "dset k v acc = acc @ [(k, v)]" by (rule dset_new)
    with Cons.IH [of "acc @ [(k, v)]"] Cons.prems e show ?case by simp
  qed simp
  from this [of "[]"] assms show ?thesis by (simp add: dict_of_def)
qed

section \<open>What a value says of an argument\<close>

text \<open>
  A recorded value says an argument exactly: nothing in it is shortened, left out or replaced.
  A tuple and a set are recorded as lists, an enum by its value, a key by its text.
\<close>

inductive says :: "pyval \<Rightarrow> arg \<Rightarrow> bool" where
  "says PNone ANone"
| "says (PBool b) (ABool b)"
| "says (PInt n) (AInt n)"
| "says (PFloat x) (AFloat x)"
| "says (PStr s) (AStr s)"
| "says v a \<Longrightarrow> says v (AEnum a)"
| "list_all2 (\<lambda>e p. fst e = key_text (fst p) \<and> says (snd e) (snd p)) d pairs \<Longrightarrow> says (PDict d) (ADict pairs)"
| "list_all2 says vs items \<Longrightarrow> says (PList vs) (ASeq k items)"

text \<open>No two keys of a dictionary have one text.\<close>

fun clear_keys :: "arg \<Rightarrow> bool" where
  "clear_keys (ADict pairs) = (distinct (map (\<lambda>p. key_text (fst p)) pairs) \<and> list_all (\<lambda>p. clear_keys (snd p)) pairs)"
| "clear_keys (ASeq k items) = list_all clear_keys items"
| "clear_keys (AEnum a) = clear_keys a"
| "clear_keys _ = True"

text \<open>Entries and items that show no loss say their arguments, if each of them does.\<close>

definition redact_entry :: "string list \<Rightarrow> string list \<Rightarrow> string \<times> pyval \<Rightarrow> string \<times> pyval" where
  "redact_entry keys configured e =
     (fst e, if lower (fst e) \<in> set keys then PStr REDACTED else redact_values keys configured (snd e))"

lemma redact_mapping: "redact_values keys configured (PDict d) = PDict (map (redact_entry keys configured) d)"
  by (simp add: redact_entry_def [abs_def])

lemma entries_say:
  assumes "lossy_entries (map (redact_entry keys configured) (map (\<lambda>p. (key_text (fst p), f (snd p))) pairs)) = []"
    and "\<And>p. \<lbrakk> p \<in> set pairs; lossy_reason (redact_values keys configured (f (snd p))) = [] \<rbrakk>
            \<Longrightarrow> says (redact_values keys configured (f (snd p))) (snd p)"
  shows "list_all2 (\<lambda>e p. fst e = key_text (fst p) \<and> says (snd e) (snd p))
    (map (redact_entry keys configured) (map (\<lambda>p. (key_text (fst p), f (snd p))) pairs)) pairs"
  using assms
  by (induction pairs) (auto simp: redact_entry_def Let_def contains_iff_sublist redacted_reason_def split: if_splits)

lemma items_say:
  assumes "lossy_items (map (\<lambda>a. redact_values keys configured (f a)) items) = []"
    and "\<And>a. \<lbrakk> a \<in> set items; lossy_reason (redact_values keys configured (f a)) = [] \<rbrakk>
            \<Longrightarrow> says (redact_values keys configured (f a)) a"
  shows "list_all2 says (map (\<lambda>a. redact_values keys configured (f a)) items) items"
  using assms by (induction items) (auto simp: Let_def split: if_splits)

lemma not_too_deep:
  assumes "lossy_reason (redact_values keys configured (summarize bodies depth a)) = []"
  shows "\<not> MAX_DEPTH < depth"
  using assms lossy_redacted_marker by (subst (asm) summarize.simps) (auto split: if_splits)

lemma kept_mapping:
  assumes "lossy_reason (redact_values keys configured (summarize bodies depth (ADict pairs))) = []"
    and "distinct (map (\<lambda>p. key_text (fst p)) pairs)"
  shows "summarize bodies depth (ADict pairs) = PDict (map (\<lambda>p. (key_text (fst p), summarize bodies (Suc depth) (snd p))) pairs)"
proof -
  define img where "img = map (\<lambda>p. (key_text (fst p), summarize bodies (Suc depth) (snd p))) pairs"
  define cut where "cut = dset ''keys'' (PInt (int (length pairs))) (dset OMITTED (PStr ''keys'') (dict_of (take MAX_KEYS img)))"
  have eq: "summarize bodies depth (ADict pairs) = PDict (if length pairs \<le> MAX_KEYS then dict_of (take MAX_KEYS img) else cut)"
    using not_too_deep [OF assms(1)] by (subst summarize.simps) (simp add: img_def cut_def Let_def)
  have "OMITTED \<in> fst ` set cut" by (simp add: cut_def dom_update)
  with assms(1) lossy_redacted_marker [of cut keys configured] have "length pairs \<le> MAX_KEYS"
    by (auto simp: eq split: if_splits)
  moreover have "distinct (map fst img)" using assms(2) by (simp add: img_def o_def)
  ultimately show ?thesis by (simp add: eq img_def dict_of_distinct)
qed

lemma kept_sequence:
  assumes "lossy_reason (redact_values keys configured (summarize bodies depth (ASeq k items))) = []"
  shows "summarize bodies depth (ASeq k items) = PList (map (summarize bodies (Suc depth)) items)"
proof -
  define img where "img = map (summarize bodies (Suc depth)) items"
  have eq: "summarize bodies depth (ASeq k items) = (if length items \<le> MAX_ITEMS then PList (take MAX_ITEMS img)
      else PDict [(TRUNCATED, PBool True), (''size'', PInt (int (length items))), (''preview'', PList (take MAX_ITEMS img))])"
    using not_too_deep [OF assms] by (subst summarize.simps) (simp add: img_def Let_def)
  have "length items \<le> MAX_ITEMS"
    using assms lossy_redacted_marker [of _ keys configured] unfolding eq by (fastforce split: if_splits)
  then show ?thesis by (simp add: eq img_def)
qed

lemma kept_text:
  assumes "lossy_reason (redact_values keys configured (summarize bodies depth (AStr t))) = []"
  shows "summarize bodies depth (AStr t) = PStr t"
proof -
  have eq: "summarize bodies depth (AStr t) = text_of bodies t"
    using not_too_deep [OF assms] by (simp add: summarize.simps)
  then show ?thesis
    using assms lossy_redacted_marker [of _ keys configured] by (fastforce simp: text_of_def split: if_splits)
qed

text \<open>A description that shows no loss says the argument.\<close>

lemma lossless_summary:
  assumes "lossy_reason (redact_values keys configured (summarize bodies depth a)) = []" and "clear_keys a"
  shows "says (redact_values keys configured (summarize bodies depth a)) a"
  using assms
proof (induction a arbitrary: depth)
  case (AStr t)
  with kept_text [OF AStr.prems(1)] lossy_text_is_unchanged [of configured t] show ?case by (auto intro: says.intros)
next
  case (AEnum a)
  have eq: "summarize bodies depth (AEnum a) = summarize bodies depth a"
    using not_too_deep [OF AEnum.prems(1)] by (subst summarize.simps) simp
  show ?case unfolding eq using AEnum eq by (auto intro: says.intros)
next
  case (ADict pairs)
  note kept = kept_mapping [OF ADict.prems(1)]
  have "lossy_entries (map (redact_entry keys configured) (map (\<lambda>p. (key_text (fst p), summarize bodies (Suc depth) (snd p))) pairs)) = []"
    using ADict.prems kept by (simp add: redact_mapping del: redact_values.simps split: if_splits)
  moreover have "says (redact_values keys configured (summarize bodies (Suc depth) (snd p))) (snd p)"
    if "p \<in> set pairs" "lossy_reason (redact_values keys configured (summarize bodies (Suc depth) (snd p))) = []" for p
    using that ADict.IH [of p "snd p" "Suc depth"] ADict.prems(2) by (simp add: snds.simps list_all_iff)
  ultimately have "list_all2 (\<lambda>e p. fst e = key_text (fst p) \<and> says (snd e) (snd p))
      (map (redact_entry keys configured) (map (\<lambda>p. (key_text (fst p), summarize bodies (Suc depth) (snd p))) pairs)) pairs"
    by (rule entries_say)
  then show ?case using kept ADict.prems(2) by (simp only: redact_mapping clear_keys.simps) (rule says.intros)
next
  case (ASeq k items)
  note kept = kept_sequence [OF ASeq.prems(1)]
  have "lossy_items (map (\<lambda>a. redact_values keys configured (summarize bodies (Suc depth) a)) items) = []"
    using ASeq.prems(1) unfolding kept by (simp add: o_def split: if_splits)
  then have "list_all2 says (map (\<lambda>a. redact_values keys configured (summarize bodies (Suc depth) a)) items) items"
    by (rule items_say) (use ASeq.IH ASeq.prems(2) in \<open>simp add: list_all_iff\<close>)
  then show ?case unfolding kept by (simp add: o_def says.intros)
qed (use lossy_redacted_marker in \<open>auto simp: summarize.simps [of _ _ ANone] summarize.simps [of _ _ "ABool _"]
       summarize.simps [of _ _ "AInt _"] summarize.simps [of _ _ "AFloat _"] summarize.simps [of _ _ "ABytes _"]
       summarize.simps [of _ _ "ATimed _ _"] summarize.simps [of _ _ "AObject _"] Let_def intro: says.intros split: if_splits\<close>)

section \<open>The cap\<close>

lemma overflow_loop_fits:
  "overflow_loop render content cap kept = [] \<or>
   int (utf8_length (json_text render (PDict (overflow_loop render content cap kept)))) \<le> cap"
proof (induction render content cap kept rule: overflow_loop.induct)
  case (1 render content cap kept)
  show ?case
  proof (cases "kept < 0")
    case True
    then show ?thesis by (simp add: overflow_loop.simps [of render content cap kept])
  next
    case False
    show ?thesis
    proof (cases "int (utf8_length (json_text render (PDict (overflow_marker content kept)))) \<le> cap")
      case True
      with False show ?thesis by (simp add: overflow_loop.simps [of render content cap kept] del: json_text.simps)
    next
      case late: False
      have "overflow_loop render content cap kept =
          overflow_loop render content cap (if FINE_TUNE_BELOW < kept then kept div 2 else kept - 1)"
        using False late by (subst overflow_loop.simps) (simp del: json_text.simps)
      with "1.IH" [OF False late] show ?thesis by metis
    qed
  qed
qed

lemma overflow_loop_marked: "overflow_loop render content cap kept = [] \<or> TRUNCATED \<in> fst ` set (overflow_loop render content cap kept)"
proof (induction render content cap kept rule: overflow_loop.induct)
  case (1 render content cap kept)
  then show ?case
    by (subst overflow_loop.simps, subst (2) overflow_loop.simps) (auto simp: overflow_marker_def simp del: json_text.simps)
qed

lemma bounded_is_whole_or_marked:
  "bounded render cap d = [] \<or> bounded render cap d = d \<or> TRUNCATED \<in> fst ` set (bounded render cap d)"
proof (cases cap)
  case (Some c)
  define content where "content = json_text render (PDict d)"
  have "bounded render cap d = (if c \<le> 0 then [] else if int (utf8_length content) \<le> c then d
      else overflow_loop render content c (c div 2))"
    by (simp add: Some bounded_def overflow_def content_def Let_def)
  with overflow_loop_marked [of render content c "c div 2"] show ?thesis by presburger
qed (simp add: bounded_def)

lemma summarize_mapping: "\<exists>d. summarize bodies 0 (ADict kwargs) = PDict d"
  by (subst summarize.simps) (simp add: Let_def)

section \<open>Properties of recorded payloads\<close>

text \<open>
  C24. A row that passes for a replay is the call: when what \<open>describe\<close> recorded is not empty
  and \<open>lossy_reason\<close> finds nothing wrong with it, it says every argument of the call
  exactly, at every depth, whatever the detail level, the credentials, the redacted keys and the
  byte cap were.
\<close>

theorem replayable_row_is_the_call:
  assumes "describe render C kwargs \<noteq> []" and "lossy_reason (PDict (describe render C kwargs)) = []"
    and "clear_keys (ADict kwargs)"
  shows "says (PDict (describe render C kwargs)) (ADict kwargs)"
proof -
  define keys configured bodies where "keys = redact_keys (pl_redact_keys C)" and "configured = secrets (pl_credentials C)"
    and "bodies = (detail_level (pl_payload C) = DetailFull)"
  obtain d where d: "redact_values keys configured (summarize bodies 0 (ADict kwargs)) = PDict d"
    using summarize_mapping [of bodies kwargs] redact_mapping by metis
  have described: "describe render C kwargs = bounded render (pl_max_bytes C) d"
    using assms(1) d by (auto simp: describe_def Let_def keys_def configured_def bodies_def split: if_splits)
  with bounded_is_whole_or_marked [of render "pl_max_bytes C" d] assms(1,2) marked_mapping
  have "describe render C kwargs = d" by metis
  with assms(2,3) d lossless_summary [of keys configured bodies 0 "ADict kwargs"] show ?thesis by simp
qed

definition full_conf :: payload_conf where
  "full_conf = \<lparr> pl_payload = Member DetailFull, pl_max_bytes = Some 8192, pl_redact_keys = Some [''token''], pl_credentials = [] \<rparr>"

definition sample_call :: "(arg_key \<times> arg) list" where
  "sample_call = [(KStr ''chat_id'', AInt 7), (KStr ''text'', AStr ''hi''), (KStr ''ids'', ASeq TupleSeq [AInt 1, ANone])]"

theorem replayable_row_is_the_call_witness:
  "says (PDict (describe (\<lambda>_. []) full_conf sample_call)) (ADict sample_call)"
proof -
  have "describe (\<lambda>_. []) full_conf sample_call \<noteq> []" by code_simp
  moreover have "lossy_reason (PDict (describe (\<lambda>_. []) full_conf sample_call)) = []" by code_simp
  moreover have "clear_keys (ADict sample_call)" by (simp add: sample_call_def)
  ultimately show ?thesis by (rule replayable_row_is_the_call)
qed


text \<open>The same call with every text and every byte string in it blotted out, their lengths apart.\<close>

fun blotted :: "arg \<Rightarrow> arg" where
  "blotted (AStr s) = AStr (replicate (length s) CHR ''x'')"
| "blotted (ABytes b) = ABytes (replicate (length b) CHR ''x'')"
| "blotted (AEnum a) = AEnum (blotted a)"
| "blotted (ADict pairs) = ADict (map (\<lambda>p. (fst p, blotted (snd p))) pairs)"
| "blotted (ASeq k items) = ASeq k (map blotted items)"
| "blotted a = a"

lemma summary_of_blotted: "summarize False depth (blotted a) = summarize False depth a"
proof (induction a arbitrary: depth)
  case (ADict pairs)
  then have "map (\<lambda>p. (key_text (fst p), summarize False (Suc depth) (blotted (snd p)))) pairs =
      map (\<lambda>p. (key_text (fst p), summarize False (Suc depth) (snd p))) pairs" by (auto simp: snds.simps)
  then show ?case by (simp add: summarize.simps [of False depth "ADict _"] o_def Let_def cong: map_cong)
next
  case (ASeq k items)
  then have "map (\<lambda>a. summarize False (Suc depth) (blotted a)) items = map (summarize False (Suc depth)) items" by auto
  then show ?case by (simp add: summarize.simps [of False depth "ASeq _ _"] o_def Let_def cong: map_cong)
next
  case (AEnum a)
  then show ?case by (simp add: summarize.simps [of False depth "AEnum _"])
next
  case (AStr t)
  then show ?case by (simp add: summarize.simps text_of_def)
next
  case (ABytes b)
  then show ?case by (simp add: summarize.simps)
qed simp_all

text \<open>
  Unless the log is set to keep bodies in full, nothing but their lengths is recorded of the
  texts and byte strings of a call: the call with all of them blotted out is described the
  same way.
\<close>

theorem summaries_hide_bodies:
  assumes "detail_level (pl_payload C) \<noteq> DetailFull"
  shows "describe render C (map (\<lambda>p. (fst p, blotted (snd p))) kwargs) = describe render C kwargs"
  using summary_of_blotted [of 0 "ADict kwargs"] assms by (simp add: describe_def Let_def)

theorem summaries_hide_bodies_witness:
  "describe (\<lambda>_. []) \<lparr> pl_payload = Text ''sumary'', pl_max_bytes = Some 8192, pl_redact_keys = None, pl_credentials = [] \<rparr>
     [(KStr ''text'', AStr ''xxxx'')] =
   describe (\<lambda>_. []) \<lparr> pl_payload = Text ''sumary'', pl_max_bytes = Some 8192, pl_redact_keys = None, pl_credentials = [] \<rparr>
     [(KStr ''text'', AStr ''a pw'')]"
proof -
  define C where "C = \<lparr> pl_payload = Text ''sumary'', pl_max_bytes = Some 8192, pl_redact_keys = None, pl_credentials = [] \<rparr>"
  have "detail_level (pl_payload C) \<noteq> DetailFull" unfolding C_def by code_simp
  from summaries_hide_bodies [OF this, of "\<lambda>_. []" "[(KStr ''text'', AStr ''a pw'')]"] show ?thesis by (simp add: C_def numeral_eq_Suc)
qed

end
