(* ===== verification/EventWriter.thy ===== *)
theory EventWriter
  imports Payloads
begin

text \<open>
  Events and the rows they become: \<open>eventlog/records.py\<close>, the identifiers of
  \<open>eventlog/events.py\<close> and the insertion of a batch, \<open>eventlog/writer.py\<close>.

  The database is an argument: what it answers to the insertion of some rows, as a function of
  how many insertions were tried before and of the rows.  An insertion is atomic, as the
  savepoint around it makes it.  The moment of an event is kept as its timestamp.
\<close>

section \<open>Events\<close>

record event =
  ev_kind :: string
  ev_correlation_id :: nat
  ev_created_at :: rat
  ev_function :: string
  ev_chat_id :: "int option"
  ev_user_id :: "int option"
  ev_message_id :: "int option"
  ev_update_id :: "int option"
  ev_worker :: string
  ev_attempt :: int
  ev_duration_ms :: "int option"
  ev_error_code :: string
  ev_error :: string
  ev_detail :: "pydict option"
  ev_bot_id :: "int option"

definition as_identifier :: "pyval \<Rightarrow> int option" where
  "as_identifier v = (case v of PInt n \<Rightarrow> if - (2 ^ 63) \<le> n \<and> n < 2 ^ 63 then Some n else None | _ \<Rightarrow> None)"

section \<open>Short identifiers\<close>

definition ALPHABET :: string where
  "ALPHABET = ''0123456789ABCDEFGHJKMNPQRSTVWXYZ''"

definition SHORT_ID_LENGTH :: nat where "SHORT_ID_LENGTH = 12"

text \<open>The loop of \<open>short_id\<close>: the digits come out last first.\<close>

fun short_digits :: "nat \<Rightarrow> nat \<Rightarrow> string" where
  "short_digits 0 number = []"
| "short_digits (Suc n) number = (ALPHABET ! (number mod 32)) # short_digits n (number div 32)"

definition short_id :: "nat \<Rightarrow> string" where
  "short_id number = rev (short_digits SHORT_ID_LENGTH (number mod 2 ^ 60))"

definition unconfused :: "char \<Rightarrow> char" where
  "unconfused c = (if c = CHR ''I'' \<or> c = CHR ''L'' then CHR ''1'' else if c = CHR ''O'' then CHR ''0'' else c)"

text \<open>
  \<open>normalise_short_id\<close>, for ASCII text: a character outside ASCII is outside the alphabet, in
  upper case too.
\<close>

definition normalise_short_id :: "string \<Rightarrow> string" where
  "normalise_short_id t =
     (let written = filter (\<lambda>c. c \<noteq> CHR '' '' \<and> c \<noteq> CHR ''-'') (map upper_char (strip_if is_space t));
          cleaned = map unconfused written
      in if length cleaned \<noteq> SHORT_ID_LENGTH \<or> list_ex (\<lambda>c. c \<notin> set ALPHABET) cleaned then [] else cleaned)"

section \<open>Rows\<close>

record row =
  rw_created_at :: rat
  rw_correlation_id :: nat
  rw_short_id :: string
  rw_kind :: string
  rw_bot_id :: "int option"
  rw_function :: string
  rw_chat_id :: "int option"
  rw_user_id :: "int option"
  rw_message_id :: "int option"
  rw_update_id :: "int option"
  rw_worker :: string
  rw_attempt :: int
  rw_duration_ms :: "int option"
  rw_error_code :: string
  rw_error :: string
  rw_detail :: pyval

definition cut_text :: "string \<Rightarrow> nat \<Rightarrow> string" where
  "cut_text value n = take n (filter (\<lambda>c. c \<noteq> CHR 0x00) value)"

definition ATTEMPT_CEILING :: int where "ATTEMPT_CEILING = 32767"

definition fit_attempt :: "int \<Rightarrow> int" where
  "fit_attempt value = min (max 0 value) ATTEMPT_CEILING"

definition to_row :: "string list \<Rightarrow> string list \<Rightarrow> event \<Rightarrow> row" where
  "to_row keys configured e =
     \<lparr> rw_created_at = ev_created_at e,
       rw_correlation_id = ev_correlation_id e,
       rw_short_id = short_id (ev_correlation_id e),
       rw_kind = cut_text (ev_kind e) 48,
       rw_bot_id = ev_bot_id e,
       rw_function = cut_text (ev_function e) 64,
       rw_chat_id = ev_chat_id e,
       rw_user_id = ev_user_id e,
       rw_message_id = ev_message_id e,
       rw_update_id = ev_update_id e,
       rw_worker = cut_text (ev_worker e) 128,
       rw_attempt = fit_attempt (ev_attempt e),
       rw_duration_ms = ev_duration_ms e,
       rw_error_code = cut_text (ev_error_code e) 64,
       rw_error = cut_text (redact_text configured (ev_error e)) 20000,
       rw_detail = redact_values keys configured (PDict (case ev_detail e of None \<Rightarrow> [] | Some d \<Rightarrow> d)) \<rparr>"

section \<open>The database\<close>

text \<open>\<open>OtherError\<close> is an exception the database layer does not raise, which nothing here catches.\<close>

datatype verdict = Stored | OperationalError | InterfaceError | DatabaseError | OtherError

datatype closing = ClosedByForce | ClosedIfUnusable

record db =
  db_tried :: nat
  db_rows :: "row list"
  db_closings :: "closing list"
  db_in_atomic_block :: bool
  db_autocommit :: bool

type_synonym answers = "nat \<Rightarrow> row list \<Rightarrow> verdict"

definition insert_rows :: "answers \<Rightarrow> row list \<Rightarrow> db \<Rightarrow> verdict \<times> db" where
  "insert_rows ask rows d =
     (let v = ask (db_tried d) rows;
          d' = d\<lparr> db_tried := Suc (db_tried d) \<rparr>
      in (v, if v = Stored then d'\<lparr> db_rows := db_rows d' @ rows \<rparr> else d'))"

datatype write_error = EventLogRefusedError nat | Escaped

definition recycle :: "bool \<Rightarrow> db \<Rightarrow> db" where
  "recycle force d =
     (if db_in_atomic_block d \<or> \<not> db_autocommit d then d
      else d\<lparr> db_closings := db_closings d @ [if force then ClosedByForce else ClosedIfUnusable] \<rparr>)"

definition ROW_BY_ROW :: nat where "ROW_BY_ROW = 32"

definition write_row :: "answers \<Rightarrow> row \<Rightarrow> db \<Rightarrow> (write_error + nat) \<times> db" where
  "write_row ask r d =
     (case insert_rows ask [r] d of
        (Stored, d') \<Rightarrow> (Inr 1, d')
      | (OtherError, d') \<Rightarrow> (Inl Escaped, d')
      | (_, d') \<Rightarrow> (Inr 0, d'))"

fun write_rows :: "answers \<Rightarrow> row list \<Rightarrow> db \<Rightarrow> (write_error + nat) \<times> db" where
  "write_rows ask [] d = (Inr 0, d)"
| "write_rows ask (r # rs) d =
     (case write_row ask r d of
        (Inl e, d1) \<Rightarrow> (Inl e, d1)
      | (Inr n, d1) \<Rightarrow>
          (case write_rows ask rs d1 of
             (Inl e, d2) \<Rightarrow> (Inl e, d2)
           | (Inr m, d2) \<Rightarrow> (Inr (n + m), d2)))"

function write_half :: "answers \<Rightarrow> row list \<Rightarrow> db \<Rightarrow> (write_error + nat) \<times> db"
  and write_one_by_one :: "answers \<Rightarrow> row list \<Rightarrow> db \<Rightarrow> (write_error + nat) \<times> db" where
  "write_half ask rows d =
     (case insert_rows ask rows d of
        (Stored, d') \<Rightarrow> (Inr (length rows), d')
      | (OtherError, d') \<Rightarrow> (Inl Escaped, d')
      | (_, d') \<Rightarrow> write_one_by_one ask rows d')"
| "write_one_by_one ask rows d =
     (if ROW_BY_ROW < length rows
      then (let middle = length rows div 2
            in case write_half ask (take middle rows) d of
                 (Inl e, d1) \<Rightarrow> (Inl e, d1)
               | (Inr n, d1) \<Rightarrow>
                   (case write_half ask (drop middle rows) d1 of
                      (Inl e, d2) \<Rightarrow> (Inl e, d2)
                    | (Inr m, d2) \<Rightarrow> (Inr (n + m), d2)))
      else write_rows ask rows d)"
  by pat_completeness auto
termination
  by (relation "measure (\<lambda>x. case x of Inl (ask, rows, d) \<Rightarrow> 2 * length rows + 1 | Inr (ask, rows, d) \<Rightarrow> 2 * length rows)")
    (auto simp: ROW_BY_ROW_def)

declare write_half.simps [simp del] write_one_by_one.simps [simp del]

text \<open>\<open>_refused\<close> and the count of what did not land, from what a rung of the ladder wrote.\<close>

definition refused :: "row list \<Rightarrow> (write_error + nat) \<times> db \<Rightarrow> (write_error + nat) \<times> db" where
  "refused rows res =
     (case res of
        (Inl e, d) \<Rightarrow> (Inl e, d)
      | (Inr written, d) \<Rightarrow>
          if rows \<noteq> [] \<and> written = 0 then (Inl (EventLogRefusedError (length rows)), d)
          else (Inr (length rows - written), d))"

definition write_batch :: "answers \<Rightarrow> string list \<Rightarrow> string list \<Rightarrow> event list \<Rightarrow> db \<Rightarrow> (write_error + nat) \<times> db" where
  "write_batch ask keys configured events d =
     (let d0 = recycle False d;
          rows = map (to_row keys configured) events
      in case insert_rows ask rows d0 of
           (Stored, d1) \<Rightarrow> (Inr 0, d1)
         | (OtherError, d1) \<Rightarrow> (Inl Escaped, d1)
         | (DatabaseError, d1) \<Rightarrow> refused rows (write_one_by_one ask rows d1)
         | (_, d1) \<Rightarrow> refused rows (write_half ask rows (recycle True d1)))"

section \<open>Accounting for a batch\<close>

text \<open>
  What a rung of the ladder does with some rows: it lands some of them, each once and in order,
  and answers how many; only an exception from outside the database layer escapes it.
\<close>

definition accounts :: "answers \<Rightarrow> row list \<Rightarrow> db \<Rightarrow> (write_error + nat) \<times> db \<Rightarrow> bool" where
  "accounts ask rows d res \<longleftrightarrow>
     (\<exists>landed. subseq landed rows \<and> db_rows (snd res) = db_rows d @ landed \<and>
        (case fst res of Inr n \<Rightarrow> n = length landed | Inl e \<Rightarrow> e = Escaped \<and> (\<exists>k rs. ask k rs = OtherError))) \<and>
     db_closings (snd res) = db_closings d \<and>
     db_in_atomic_block (snd res) = db_in_atomic_block d \<and> db_autocommit (snd res) = db_autocommit d"

lemma insert_rows_view:
  assumes "insert_rows ask rows d = (v, d')"
  shows "v = ask (db_tried d) rows" "db_tried d' = Suc (db_tried d)" "db_rows d' = (if v = Stored then db_rows d @ rows else db_rows d)"
    "db_closings d' = db_closings d" "db_in_atomic_block d' = db_in_atomic_block d" "db_autocommit d' = db_autocommit d"
  using assms by (auto simp: insert_rows_def Let_def split: if_splits)

lemma accounts_stored:
  "\<lbrakk> insert_rows ask rows d = (Stored, d') \<rbrakk> \<Longrightarrow> accounts ask rows d (Inr (length rows), d')"
  by (auto simp: accounts_def insert_rows_view)

lemma accounts_escaped:
  assumes "insert_rows ask rows d = (OtherError, d')"
  shows "accounts ask rows d (Inl Escaped, d')"
proof -
  have "\<exists>k rs. ask k rs = OtherError" using insert_rows_view(1) [OF assms] by metis
  with insert_rows_view [OF assms] show ?thesis by (auto simp: accounts_def intro: exI [where x = "[]"])
qed

lemma accounts_later:
  assumes "insert_rows ask rs d = (v, d')" and "v \<noteq> Stored" and "accounts ask rows d' res"
  shows "accounts ask rows d res"
  using insert_rows_view [OF assms(1)] assms(2,3) by (auto simp: accounts_def)

lemma accounts_both:
  assumes "accounts ask xs d (Inr n, d1)" and "accounts ask ys d1 res"
  shows "accounts ask (xs @ ys) d (case res of (Inl e, d2) \<Rightarrow> (Inl e, d2) | (Inr m, d2) \<Rightarrow> (Inr (n + m), d2))"
proof -
  from assms obtain l1 l2 where l: "subseq l1 xs" "db_rows d1 = db_rows d @ l1" "n = length l1"
    "subseq l2 ys" "db_rows (snd res) = db_rows d1 @ l2"
    "case fst res of Inr n \<Rightarrow> n = length l2 | Inl e \<Rightarrow> e = Escaped \<and> (\<exists>k rs. ask k rs = OtherError)"
    by (auto simp: accounts_def)
  have "subseq (l1 @ l2) (xs @ ys)" using l by (simp add: list_emb_append_mono)
  with l assms show ?thesis
    unfolding accounts_def by (intro conjI exI [where x = "l1 @ l2"]) (auto split: sum.splits prod.splits)
qed

lemma accounts_first:
  assumes "accounts ask xs d (Inl e, d1)"
  shows "accounts ask (xs @ ys) d (Inl e, d1)"
  using assms unfolding accounts_def by (fastforce intro: list_emb_append2)

lemma accounts_row: "accounts ask [r] d (write_row ask r d)"
proof (cases "insert_rows ask [r] d")
  case (Pair v d')
  show ?thesis
  proof (cases v)
    case Stored
    with Pair accounts_stored [of ask "[r]" d d'] show ?thesis by (simp add: write_row_def)
  next
    case OtherError
    with Pair accounts_escaped [of ask "[r]" d d'] show ?thesis by (simp add: write_row_def)
  qed (use Pair insert_rows_view [OF Pair] in \<open>auto simp: write_row_def accounts_def intro: exI [where x = "[]"]\<close>)
qed

lemma accounts_rows: "accounts ask rows d (write_rows ask rows d)"
proof (induction rows arbitrary: d)
  case Nil
  then show ?case by (simp add: accounts_def)
next
  case (Cons r rs)
  obtain res d1 where r: "write_row ask r d = (res, d1)" by (cases "write_row ask r d")
  show ?case
  proof (cases res)
    case (Inl e)
    with accounts_first [of ask "[r]" d e d1 rs] accounts_row [of ask r d] r show ?thesis by simp
  next
    case (Inr n)
    with accounts_both [of ask "[r]" d n d1 rs] accounts_row [of ask r d] Cons.IH [of d1] r show ?thesis by simp
  qed
qed

lemma accounts_ladder:
  "accounts ask rows d (write_half ask rows d)" "accounts ask rows d (write_one_by_one ask rows d)"
proof (induction ask rows d and ask rows d rule: write_half_write_one_by_one.induct)
  case (1 ask rows d)
  obtain v d' where i: "insert_rows ask rows d = (v, d')" by (cases "insert_rows ask rows d")
  show ?case
  proof (cases "v = Stored \<or> v = OtherError")
    case True
    with i accounts_stored accounts_escaped show ?thesis by (subst write_half.simps) auto
  next
    case False
    then have "write_half ask rows d = write_one_by_one ask rows d'"
      using i by (subst write_half.simps) (cases v; simp)
    moreover have "accounts ask rows d' (write_one_by_one ask rows d')"
      using "1.IH" [OF i [symmetric]] False by (cases v) auto
    ultimately show ?thesis using accounts_later [OF i] False by simp
  qed
next
  case (2 ask rows d)
  show ?case
  proof (cases "ROW_BY_ROW < length rows")
    case False
    with accounts_rows show ?thesis by (subst write_one_by_one.simps) simp
  next
    case True
    define m where "m = length rows div 2"
    obtain res d1 where h: "write_half ask (take m rows) d = (res, d1)" by (cases "write_half ask (take m rows) d")
    have first: "accounts ask (take m rows) d (res, d1)" using "2.IH"(1) [OF True] h by (simp add: m_def)
    show ?thesis
    proof (cases res)
      case (Inl e)
      with accounts_first [of ask "take m rows" d e d1 "drop m rows"] first h True show ?thesis
        by (subst write_one_by_one.simps) (simp add: Let_def flip: m_def)
    next
      case (Inr n)
      have "accounts ask (drop m rows) d1 (write_half ask (drop m rows) d1)"
        using "2.IH"(2) [OF True m_def h [symmetric] Inr] .
      with accounts_both [of ask "take m rows" d n d1 "drop m rows"] first h Inr True show ?thesis
        by (subst write_one_by_one.simps) (simp add: Let_def flip: m_def)
    qed
  qed
qed

text \<open>A database that refuses some rows for good, and whatever contains one of them.\<close>

definition steady :: "(row \<Rightarrow> bool) \<Rightarrow> answers \<Rightarrow> bool" where
  "steady good ask \<longleftrightarrow> (\<forall>k rs. (list_all good rs \<longrightarrow> ask k rs = Stored) \<and> (\<not> list_all good rs \<longrightarrow> ask k rs = DatabaseError))"

definition lands_good :: "(row \<Rightarrow> bool) \<Rightarrow> row list \<Rightarrow> db \<Rightarrow> (write_error + nat) \<times> db \<Rightarrow> bool" where
  "lands_good good rows d res \<longleftrightarrow>
     fst res = Inr (length (filter good rows)) \<and> db_rows (snd res) = db_rows d @ filter good rows"

lemma steady_insert:
  assumes "steady good ask"
  shows "insert_rows ask rows d =
    (if list_all good rows then (Stored, d\<lparr> db_tried := Suc (db_tried d), db_rows := db_rows d @ rows \<rparr>)
     else (DatabaseError, d\<lparr> db_tried := Suc (db_tried d) \<rparr>))"
  using assms by (auto simp: steady_def insert_rows_def Let_def)

lemma lands_good_all: "list_all good rows \<Longrightarrow> filter good rows = rows"
  by (simp add: list_all_iff)

lemma steady_rows: "steady good ask \<Longrightarrow> lands_good good rows d (write_rows ask rows d)"
proof (induction rows arbitrary: d)
  case (Cons r rs)
  define d1 where "d1 = snd (write_row ask r d)"
  have "write_row ask r d = (Inr (if good r then 1 else 0), d1)" "db_rows d1 = db_rows d @ filter good [r]"
    using Cons.prems by (auto simp: d1_def write_row_def steady_insert)
  with Cons.IH [OF Cons.prems, of d1] show ?case by (auto simp: lands_good_def split: prod.splits)
qed (simp add: lands_good_def)

lemma steady_ladder:
  shows "steady good ask \<Longrightarrow> lands_good good rows d (write_half ask rows d)"
    and "steady good ask \<Longrightarrow> lands_good good rows d (write_one_by_one ask rows d)"
proof (induction ask rows d and ask rows d rule: write_half_write_one_by_one.induct)
  case (1 ask rows d)
  show ?case
  proof (cases "list_all good rows")
    case True
    then show ?thesis using "1.prems" by (subst write_half.simps) (simp add: steady_insert lands_good_def lands_good_all)
  next
    case False
    have "lands_good good rows (d\<lparr> db_tried := Suc (db_tried d) \<rparr>) (write_one_by_one ask rows (d\<lparr> db_tried := Suc (db_tried d) \<rparr>))"
      using "1.IH"(3) "1.prems" False by (simp add: steady_insert)
    then show ?thesis using False "1.prems" by (subst write_half.simps) (simp add: steady_insert lands_good_def)
  qed
next
  case (2 ask rows d)
  show ?case
  proof (cases "ROW_BY_ROW < length rows")
    case False
    with steady_rows "2.prems" show ?thesis by (subst write_one_by_one.simps) simp
  next
    case True
    define m where "m = length rows div 2"
    obtain d1 where h: "write_half ask (take m rows) d = (Inr (length (filter good (take m rows))), d1)"
      and d1: "db_rows d1 = db_rows d @ filter good (take m rows)"
      using "2.IH"(1) [OF True m_def "2.prems"] by (auto simp: lands_good_def) (metis prod.collapse)
    have "lands_good good (drop m rows) d1 (write_half ask (drop m rows) d1)"
      using "2.IH"(2) [OF True m_def h [symmetric] refl "2.prems"] .
    then obtain d2 where h2: "write_half ask (drop m rows) d1 = (Inr (length (filter good (drop m rows))), d2)"
      and d2: "db_rows d2 = db_rows d1 @ filter good (drop m rows)"
      by (auto simp: lands_good_def) (metis prod.collapse)
    have "filter good rows = filter good (take m rows) @ filter good (drop m rows)"
      by (metis append_take_drop_id filter_append)
    with h h2 d1 d2 True show ?thesis
      by (subst write_one_by_one.simps) (simp add: Let_def lands_good_def flip: m_def)
  qed
qed

text \<open>What a whole batch comes to.\<close>

definition batch_outcome :: "answers \<Rightarrow> row list \<Rightarrow> db \<Rightarrow> (write_error + nat) \<times> db \<Rightarrow> bool" where
  "batch_outcome ask rows d res \<longleftrightarrow>
     (case res of
        (Inr missing, d') \<Rightarrow>
          (\<exists>landed. subseq landed rows \<and> db_rows d' = db_rows d @ landed \<and> length landed + missing = length rows)
      | (Inl (EventLogRefusedError n), d') \<Rightarrow> rows \<noteq> [] \<and> n = length rows \<and> db_rows d' = db_rows d
      | (Inl Escaped, d') \<Rightarrow>
          (\<exists>landed. subseq landed rows \<and> db_rows d' = db_rows d @ landed) \<and> (\<exists>k rs. ask k rs = OtherError))"

lemma refused_outcome:
  assumes "accounts ask rows d1 res" and "db_rows d1 = db_rows d"
  shows "batch_outcome ask rows d (refused rows res)"
proof -
  obtain r d' where res: "res = (r, d')" by (cases res)
  from assms obtain landed where l: "subseq landed rows" "db_rows d' = db_rows d @ landed"
    "case r of Inr n \<Rightarrow> n = length landed | Inl e \<Rightarrow> e = Escaped \<and> (\<exists>k rs. ask k rs = OtherError)"
    by (auto simp: accounts_def res)
  have "length landed \<le> length rows" using l(1) by (rule list_emb_length)
  with l show ?thesis by (cases r) (auto simp: res refused_def batch_outcome_def)
qed

lemma write_batch_outcome: "batch_outcome ask (map (to_row keys configured) events) d (write_batch ask keys configured events d)"
proof -
  define rows where "rows = map (to_row keys configured) events"
  obtain v d1 where i: "insert_rows ask rows (recycle False d) = (v, d1)" by (cases "insert_rows ask rows (recycle False d)")
  have d1: "v \<noteq> Stored \<Longrightarrow> db_rows d1 = db_rows d" "db_rows (recycle True d1) = db_rows d1" "db_rows (recycle False d) = db_rows d"
    using insert_rows_view(3) [OF i] by (simp_all add: recycle_def)
  have "batch_outcome ask rows d (write_batch ask keys configured events d)"
  proof (cases v)
    case Stored
    with i d1 insert_rows_view(3) [OF i] show ?thesis by (auto simp: write_batch_def batch_outcome_def Let_def simp flip: rows_def)
  next
    case OtherError
    with insert_rows_view(1) [OF i] have "\<exists>k rs. ask k rs = OtherError" by metis
    moreover have "\<exists>landed. subseq landed rows \<and> db_rows d1 = db_rows d @ landed"
      using OtherError d1 by (intro exI [where x = "[]"]) simp
    ultimately show ?thesis using i OtherError by (simp add: write_batch_def batch_outcome_def Let_def flip: rows_def)
  next
    case DatabaseError
    with i refused_outcome [OF accounts_ladder(2)] d1 show ?thesis by (simp add: write_batch_def Let_def flip: rows_def)
  qed (use i refused_outcome [OF accounts_ladder(1)] d1 in \<open>simp_all add: write_batch_def Let_def flip: rows_def\<close>)
  then show ?thesis by (simp add: rows_def)
qed

lemma refused_keeps_closings: "db_closings (snd (refused rows res)) = db_closings (snd res)"
  by (auto simp: refused_def split: sum.splits prod.splits)

lemma write_batch_keeps_closings:
  assumes "db_in_atomic_block d \<or> \<not> db_autocommit d"
  shows "db_closings (snd (write_batch ask keys configured events d)) = db_closings d"
proof -
  define rows where "rows = map (to_row keys configured) events"
  have d: "recycle f d = d" for f using assms by (simp add: recycle_def)
  obtain v d1 where i: "insert_rows ask rows d = (v, d1)" by (cases "insert_rows ask rows d")
  note view = insert_rows_view [OF i]
  have d1: "recycle f d1 = d1" for f using assms view by (simp add: recycle_def)
  have "db_closings (snd (write_half ask rows d1)) = db_closings d" "db_closings (snd (write_one_by_one ask rows d1)) = db_closings d"
    using accounts_ladder [of ask rows d1] view by (simp_all add: accounts_def)
  with i view d d1 show ?thesis
    by (cases v) (simp_all add: write_batch_def Let_def refused_keeps_closings flip: rows_def)
qed

text \<open>A batch of one row lands whole or raises.\<close>

lemma single_row_lands_or_raises:
  assumes "write_batch ask keys configured [e] d = (Inr missing, d')"
  shows "missing = 0"
proof -
  define rows where "rows = [to_row keys configured e]"
  have single: "refused rows res = (Inr m, d') \<Longrightarrow> m = 0" for res m
    by (cases res) (auto simp: refused_def rows_def split: sum.splits if_splits)
  obtain v d1 where i: "insert_rows ask rows (recycle False d) = (v, d1)" by (cases "insert_rows ask rows (recycle False d)")
  from assms i show ?thesis
    by (cases v) (auto simp: write_batch_def Let_def simp flip: rows_def dest: single)
qed

text \<open>The digits of a short identifier.\<close>

lemma alphabet_facts:
  "length ALPHABET = 32" "distinct ALPHABET"
  "\<forall>c \<in> set ALPHABET. \<not> is_space c \<and> c \<noteq> CHR ''-'' \<and> c \<noteq> CHR '' '' \<and> upper_char c = c \<and> unconfused c = c"
  by code_simp+

lemma short_digits_length [simp]: "length (short_digits n k) = n"
  by (induction n arbitrary: k) auto

lemma short_digits_alphabet: "set (short_digits n k) \<subseteq> set ALPHABET"
proof (induction n arbitrary: k)
  case (Suc n)
  have "ALPHABET ! (k mod 32) \<in> set ALPHABET" by (rule nth_mem) (simp add: alphabet_facts)
  with Suc show ?case by auto
qed simp

lemma short_digits_inj: "short_digits n j = short_digits n k \<longleftrightarrow> j mod 32 ^ n = k mod 32 ^ n"
proof (induction n arbitrary: j k)
  case (Suc n)
  have digit: "ALPHABET ! (j mod 32) = ALPHABET ! (k mod 32) \<longleftrightarrow> j mod 32 = k mod 32"
    using alphabet_facts by (simp add: nth_eq_iff_index_eq)
  have split: "m mod 32 ^ Suc n = 32 * (m div 32 mod 32 ^ n) + m mod 32" for m :: nat
    by (simp only: power_Suc mod_mult2_eq)
  have base: "32 * a + b = 32 * c + d \<longleftrightarrow> b = d \<and> a = c" if "b < 32" "d < 32" for a b c d :: nat
  proof
    assume eq: "32 * a + b = 32 * c + d"
    have "(32 * a + b) mod 32 = (32 * c + d) mod 32" by (simp only: eq)
    with that have "b = d" by simp
    with eq show "b = d \<and> a = c" by simp
  qed simp
  have "j mod 32 ^ Suc n = k mod 32 ^ Suc n \<longleftrightarrow> j mod 32 = k mod 32 \<and> j div 32 mod 32 ^ n = k div 32 mod 32 ^ n"
    unfolding split by (rule base) simp_all
  with Suc digit show ?case by simp
qed simp

section \<open>Properties of the writer\<close>

text \<open>
  C27. Writing a batch accounts for every row, whatever the database answers to each insertion: the
  rows that land are some of the batch, each once and in its order; when the call returns, it
  answers exactly how many did not land; when it raises \<open>EventLogRefusedError\<close>, the batch was
  not empty and none of it landed.  Nothing else leaves it but an exception from outside the
  database layer.
\<close>

theorem write_batch_accounts_for_every_row:
  "case write_batch ask keys configured events d of
     (Inr missing, d') \<Rightarrow>
       (\<exists>landed. subseq landed (map (to_row keys configured) events) \<and> db_rows d' = db_rows d @ landed \<and>
          length landed + missing = length events)
   | (Inl (EventLogRefusedError n), d') \<Rightarrow> events \<noteq> [] \<and> n = length events \<and> db_rows d' = db_rows d
   | (Inl Escaped, d') \<Rightarrow>
       (\<exists>landed. subseq landed (map (to_row keys configured) events) \<and> db_rows d' = db_rows d @ landed) \<and>
       (\<exists>k rs. ask k rs = OtherError)"
  using write_batch_outcome [of ask keys configured events d]
  by (simp add: batch_outcome_def split: prod.splits sum.splits write_error.splits)

text \<open>
  One poisonous row costs only itself: when the database refuses some rows for good, and every
  insertion that contains one of them, then of a batch with at least one acceptable row exactly
  the acceptable ones land, in their order, and the call answers how many did not.
\<close>

theorem poison_costs_only_itself:
  assumes "steady good ask" and "\<exists>e \<in> set events. good (to_row keys configured e)"
  shows "\<exists>d'. write_batch ask keys configured events d =
      (Inr (length (filter (\<lambda>e. \<not> good (to_row keys configured e)) events)), d') \<and>
    db_rows d' = db_rows d @ filter good (map (to_row keys configured) events)"
proof -
  define rows where "rows = map (to_row keys configured) events"
  define d0 where "d0 = recycle False d"
  have d0: "db_rows d0 = db_rows d" by (simp add: d0_def recycle_def)
  have bad: "length (filter (\<lambda>e. \<not> good (to_row keys configured e)) events) = length rows - length (filter good rows)"
    using sum_length_filter_compl [of good rows] by (simp add: rows_def filter_map o_def)
  have some: "filter good rows \<noteq> []" using assms(2) by (auto simp: rows_def filter_empty_conv)
  show ?thesis
  proof (cases "list_all good rows")
    case True
    with assms(1) d0 bad lands_good_all [OF True] show ?thesis
      by (simp add: write_batch_def steady_insert Let_def flip: rows_def d0_def)
  next
    case False
    define d1 where "d1 = d0\<lparr> db_tried := Suc (db_tried d0) \<rparr>"
    obtain d2 where "write_one_by_one ask rows d1 = (Inr (length (filter good rows)), d2)" "db_rows d2 = db_rows d1 @ filter good rows"
      using steady_ladder(2) [OF assms(1), of rows d1] by (auto simp: lands_good_def) (metis prod.collapse)
    with False assms(1) d0 bad some show ?thesis
      by (simp add: write_batch_def steady_insert refused_def Let_def d1_def flip: rows_def d0_def)
  qed
qed

text \<open>A database that refuses the kind \<open>bad\<close>.\<close>

definition good_kind :: "row \<Rightarrow> bool" where "good_kind r = (rw_kind r \<noteq> ''bad'')"

definition picky :: answers where
  "picky k rs = (if list_all good_kind rs then Stored else DatabaseError)"

definition sample_event :: "string \<Rightarrow> event" where
  "sample_event kind =
     \<lparr> ev_kind = kind, ev_correlation_id = 1, ev_created_at = 0, ev_function = [], ev_chat_id = None, ev_user_id = None,
       ev_message_id = None, ev_update_id = None, ev_worker = [], ev_attempt = 0, ev_duration_ms = None, ev_error_code = [],
       ev_error = [], ev_detail = None, ev_bot_id = None \<rparr>"

definition fresh_db :: db where
  "fresh_db = \<lparr> db_tried = 0, db_rows = [], db_closings = [], db_in_atomic_block = False, db_autocommit = True \<rparr>"

theorem poison_costs_only_itself_witness:
  "\<exists>d'. write_batch picky [] [] [sample_event ''ok'', sample_event ''bad''] fresh_db = (Inr 1, d') \<and>
    db_rows d' = [to_row [] [] (sample_event ''ok'')]"
proof -
  have "steady good_kind picky" by (simp add: steady_def picky_def)
  moreover have "good_kind (to_row [] [] (sample_event ''ok''))" "\<not> good_kind (to_row [] [] (sample_event ''bad''))"
    by (simp_all add: good_kind_def to_row_def sample_event_def cut_text_def)
  ultimately show ?thesis
    using poison_costs_only_itself [of good_kind picky "[sample_event ''ok'', sample_event ''bad'']" "[]" "[]" fresh_db]
    by (simp add: fresh_db_def)
qed

text \<open>
  Recording never closes a connection its caller has a transaction open on: inside an atomic
  block, or with autocommit off, writing a batch closes nothing, whatever the database answers.
\<close>

theorem caller_transaction_is_not_closed:
  assumes "db_in_atomic_block d \<or> \<not> db_autocommit d"
  shows "db_closings (snd (write_batch ask keys configured events d)) = db_closings d"
  using assms by (rule write_batch_keeps_closings)

theorem caller_transaction_is_not_closed_witness:
  "db_closings (snd (write_batch (\<lambda>_ _. OperationalError) [] [] [sample_event ''ok''] (fresh_db\<lparr> db_in_atomic_block := True \<rparr>))) = []"
  using caller_transaction_is_not_closed [of "fresh_db\<lparr> db_in_atomic_block := True \<rparr>"] by (simp add: fresh_db_def)

text \<open>
  A short identifier names the low sixty bits of a correlation id, and reading it back the way
  it was written gives the same code: two ids share a code exactly when they agree in those bits.
\<close>

theorem short_id_names_sixty_bits:
  "(short_id m = short_id n \<longleftrightarrow> m mod 2 ^ 60 = n mod 2 ^ 60) \<and> normalise_short_id (short_id n) = short_id n"
proof
  have "(2 :: nat) ^ 60 = 32 ^ 12" by simp
  then show "short_id m = short_id n \<longleftrightarrow> m mod 2 ^ 60 = n mod 2 ^ 60"
    by (simp add: short_id_def SHORT_ID_LENGTH_def short_digits_inj)
  have chars: "set (short_id n) \<subseteq> set ALPHABET" using short_digits_alphabet by (simp add: short_id_def)
  then have "strip_if is_space (short_id n) = short_id n" using alphabet_facts(3) by (intro strip_if_none) auto
  moreover have "map upper_char (short_id n) = short_id n" "map unconfused (short_id n) = short_id n"
    using chars alphabet_facts(3) by (auto simp: map_idI subset_iff)
  moreover have "filter (\<lambda>c. c \<noteq> CHR '' '' \<and> c \<noteq> CHR ''-'') (short_id n) = short_id n"
    using chars alphabet_facts(3) by (auto simp: filter_id_conv)
  moreover have "\<not> list_ex (\<lambda>c. c \<notin> set ALPHABET) (short_id n)" using chars by (auto simp: list_ex_iff)
  ultimately show "normalise_short_id (short_id n) = short_id n"
    by (simp add: normalise_short_id_def Let_def) (simp add: short_id_def)
qed

definition split_token :: string where
  "split_token = ''12345:'' @ replicate 15 CHR ''A'' @ [CHR 0x00] @ replicate 15 CHR ''A''"

text \<open>
  A token reaches a row when a NUL splits it: the error text is redacted first and the NULs are
  taken out afterwards, so a token-shaped run with a NUL inside is not recognised and is whole
  again in the column.
\<close>

theorem nul_carries_a_token_into_a_row:
  "has_token None (rw_error (to_row [] [] ((sample_event ''outbound.failed'')\<lparr> ev_error := split_token \<rparr>)))"
proof -
  have "redact_text [] split_token = split_token" by code_simp
  moreover have "length (filter (\<lambda>c. c \<noteq> CHR 0x00) split_token) \<le> 20000"
    by (rule order_trans [OF length_filter_le]) (simp add: split_token_def)
  moreover have "has_token None (filter (\<lambda>c. c \<noteq> CHR 0x00) split_token)" by code_simp
  ultimately show ?thesis by (simp add: to_row_def cut_text_def)
qed

end
