(* ===== verification/EventRecorder.thy ===== *)
theory EventRecorder
  imports EventWriter
begin

text \<open>
  The recorder of the event log, \<open>eventlog/recorder.py\<close>, with the count of what was lost
  (\<open>eventlog/bookkeeping.py\<close>) and the writer's dials (\<open>eventlog/pacing.py\<close>).

  A flush is written as the three pieces between which other threads can act: the write of the
  batch, the claim of the count, the write of the gap row.  \<open>flush\<close> composes them the way the
  code does; the runs of several threads interleave them.
\<close>

section \<open>The count of what was lost\<close>

record ledger =
  lg_dropped :: nat
  lg_reported_at :: rat

definition DROP_REPORT_INTERVAL :: rat where "DROP_REPORT_INTERVAL = 60"

definition drop_ledger :: ledger where
  "drop_ledger = \<lparr> lg_dropped = 0, lg_reported_at = - DROP_REPORT_INTERVAL \<rparr>"

text \<open>\<open>lost\<close> answers whether it logged the backlog.\<close>

definition lost :: "rat \<Rightarrow> nat \<Rightarrow> ledger \<Rightarrow> bool \<times> ledger" where
  "lost now n L =
     (if n = 0 then (False, L)
      else (let L1 = L\<lparr> lg_dropped := lg_dropped L + n \<rparr>
            in if now - lg_reported_at L < DROP_REPORT_INTERVAL then (False, L1)
               else (True, L1\<lparr> lg_reported_at := now \<rparr>)))"

definition lost_quietly :: "nat \<Rightarrow> ledger \<Rightarrow> ledger" where
  "lost_quietly n L = (if n = 0 then L else L\<lparr> lg_dropped := lg_dropped L + n \<rparr>)"

definition claim_drops :: "nat \<Rightarrow> ledger \<Rightarrow> nat \<times> ledger" where
  "claim_drops most L =
     (let claimed = min most (lg_dropped L) in (claimed, L\<lparr> lg_dropped := lg_dropped L - claimed \<rparr>))"

definition give_back :: "nat \<Rightarrow> ledger \<Rightarrow> ledger" where
  "give_back n L = L\<lparr> lg_dropped := lg_dropped L + n \<rparr>"

section \<open>The writer's dials\<close>

definition FAILURE_LIMIT :: nat where "FAILURE_LIMIT = 5"
definition FAILURE_BACKOFF :: rat where "FAILURE_BACKOFF = 60"

text \<open>\<open>number\<close>: a dial that cannot be read is its default.\<close>

definition dial :: "int option \<Rightarrow> int \<Rightarrow> int" where
  "dial configured default_value = (case configured of Some n \<Rightarrow> n | None \<Rightarrow> default_value)"

definition at_least_one :: "int option \<Rightarrow> int \<Rightarrow> nat" where
  "at_least_one configured default_value = nat (max 1 (dial configured default_value))"

definition flush_interval :: "int option \<Rightarrow> nat" where "flush_interval c = at_least_one c 1"
definition batch_size :: "int option \<Rightarrow> nat" where "batch_size c = at_least_one c 200"
definition buffer_size :: "int option \<Rightarrow> nat" where "buffer_size c = at_least_one c 1000"

section \<open>The recorder\<close>

text \<open>What waits in the queue: an event, or a marker somebody may be waiting behind.\<close>

datatype item = Ev event | Wake "nat option"

fun events_of :: "item list \<Rightarrow> event list" where
  "events_of [] = []"
| "events_of (Ev e # q) = e # events_of q"
| "events_of (Wake w # q) = events_of q"

fun wakes_of :: "item list \<Rightarrow> nat option list" where
  "wakes_of [] = []"
| "wakes_of (Ev e # q) = wakes_of q"
| "wakes_of (Wake w # q) = w # wakes_of q"

record recorder =
  rc_enabled :: bool
  rc_receivers :: bool
  rc_kinds :: "string list"
  rc_worker :: string
  rc_maxsize :: nat
  rc_running :: bool
  rc_queue :: "item list"
  rc_ledger :: ledger
  rc_db :: db
  rc_published :: "event list list"
  rc_acknowledged :: "nat list"
  rc_keys :: "string list"
  rc_credentials :: "string list"

definition active :: "recorder \<Rightarrow> bool" where
  "active s = (rc_enabled s \<or> rc_receivers s)"

definition wants :: "string \<Rightarrow> recorder \<Rightarrow> bool" where
  "wants kind s = (kind \<in> set (rc_kinds s))"

definition lost_in :: "rat \<Rightarrow> nat \<Rightarrow> recorder \<Rightarrow> recorder" where
  "lost_in now n s = s\<lparr> rc_ledger := snd (lost now n (rc_ledger s)) \<rparr>"

definition acknowledge_wakes :: "nat option list \<Rightarrow> recorder \<Rightarrow> recorder" where
  "acknowledge_wakes ws s = s\<lparr> rc_acknowledged := rc_acknowledged s @ List.map_filter id ws \<rparr>"

text \<open>\<open>_deliver\<close>: the write is tried first, and the batch is published either way.\<close>

definition publish :: "event list \<Rightarrow> recorder \<Rightarrow> recorder" where
  "publish batch s = (if rc_receivers s then s\<lparr> rc_published := rc_published s @ [batch] \<rparr> else s)"

definition deliver :: "answers \<Rightarrow> event list \<Rightarrow> recorder \<Rightarrow> (write_error + nat) \<times> recorder" where
  "deliver ask batch s =
     (if rc_enabled s
      then (let (res, d) = write_batch ask (rc_keys s) (rc_credentials s) batch (rc_db s)
            in (res, publish batch (s\<lparr> rc_db := d \<rparr>)))
      else (Inr 0, publish batch s))"

text \<open>
  \<open>record\<close>.  \<open>here\<close> is \<open>_write_here()\<close>, \<open>starts\<close> whether a writer thread could be
  started where none is running.
\<close>

definition record_event :: "answers \<Rightarrow> rat \<Rightarrow> bool \<Rightarrow> bool \<Rightarrow> event \<Rightarrow> recorder \<Rightarrow> recorder" where
  "record_event ask now here starts e s =
     (if \<not> active s \<or> \<not> wants (ev_kind e) s then s
      else (let e = (if ev_worker e = [] then e\<lparr> ev_worker := rc_worker s \<rparr> else e)
            in if here \<and> rc_enabled s
               then (case deliver ask [e] s of
                       (Inl _, s') \<Rightarrow> lost_in now 1 s'
                     | (Inr _, s') \<Rightarrow> s')
               else if \<not> rc_running s \<and> \<not> starts then lost_in now 1 s
               else if rc_maxsize s \<le> length (rc_queue s) then lost_in now 1 (s\<lparr> rc_running := True \<rparr>)
               else s\<lparr> rc_running := True, rc_queue := rc_queue s @ [Ev e] \<rparr>))"

text \<open>
  \<open>_collect\<close>: up to \<open>limit\<close> items, ended by a marker.  The deadline may end it sooner:
  \<open>limit\<close> is then what it came to.
\<close>

fun collect_items :: "nat \<Rightarrow> item list \<Rightarrow> event list \<times> nat option list \<times> item list" where
  "collect_items 0 q = ([], [], q)"
| "collect_items (Suc n) [] = ([], [], [])"
| "collect_items (Suc n) (Wake w # q) = ([], [w], q)"
| "collect_items (Suc n) (Ev e # q) = (let (b, ws, q') = collect_items n q in (e # b, ws, q'))"

text \<open>The write of a batch, \<open>_flush\<close> up to its gap row; \<open>None\<close> is a failed write.\<close>

definition flush_write :: "answers \<Rightarrow> event list \<Rightarrow> recorder \<Rightarrow> nat option \<times> recorder" where
  "flush_write ask batch s =
     (case deliver ask batch s of
        (Inl _, s') \<Rightarrow> (None, s'\<lparr> rc_ledger := lost_quietly (length batch) (rc_ledger s') \<rparr>)
      | (Inr missing, s') \<Rightarrow> (Some missing, s'\<lparr> rc_ledger := lost_quietly missing (rc_ledger s') \<rparr>))"

definition claim_gap :: "nat \<Rightarrow> recorder \<Rightarrow> nat \<times> recorder" where
  "claim_gap most s = (let (claimed, L) = claim_drops most (rc_ledger s) in (claimed, s\<lparr> rc_ledger := L \<rparr>))"

definition gap_event :: "nat \<Rightarrow> rat \<Rightarrow> nat \<Rightarrow> event" where
  "gap_event correlation now claimed =
     \<lparr> ev_kind = ''log.dropped'', ev_correlation_id = correlation, ev_created_at = now, ev_function = [], ev_chat_id = None,
       ev_user_id = None, ev_message_id = None, ev_update_id = None, ev_worker = [], ev_attempt = 0, ev_duration_ms = None,
       ev_error_code = [], ev_error = [], ev_detail = Some [(''dropped'', PInt (int claimed))], ev_bot_id = None \<rparr>"

text \<open>Whether the gap row landed, and the count given back where it did not.\<close>

definition write_gap :: "answers \<Rightarrow> nat \<Rightarrow> rat \<Rightarrow> nat \<Rightarrow> recorder \<Rightarrow> bool \<times> recorder" where
  "write_gap ask correlation now claimed s =
     (case deliver ask [gap_event correlation now claimed] s of
        (Inr 0, s') \<Rightarrow> (True, s')
      | (_, s') \<Rightarrow> (False, s'\<lparr> rc_ledger := give_back claimed (rc_ledger s') \<rparr>))"

definition record_gap :: "answers \<Rightarrow> nat \<Rightarrow> rat \<Rightarrow> nat \<Rightarrow> recorder \<Rightarrow> recorder" where
  "record_gap ask correlation now dropped s =
     (let (claimed, s1) = claim_gap dropped s
      in if claimed = 0 then s1 else snd (write_gap ask correlation now claimed s1))"

text \<open>\<open>_flush\<close>; the result is the number of failures and until when the writer holds back.\<close>

definition flush :: "answers \<Rightarrow> nat \<Rightarrow> rat \<Rightarrow> event list \<Rightarrow> nat \<Rightarrow> recorder \<Rightarrow> (nat \<times> rat) \<times> recorder" where
  "flush ask correlation now batch failures s =
     (let before = lg_dropped (rc_ledger s);
          (res, s1) = flush_write ask batch s
      in case res of
           None \<Rightarrow>
             (let failures = failures + 1
              in (if FAILURE_LIMIT \<le> failures then (0, now + FAILURE_BACKOFF) else (failures, 0), s1))
         | Some _ \<Rightarrow> ((0, 0), if before \<noteq> 0 then record_gap ask correlation now before s1 else s1))"

text \<open>One turn of the writer's loop, \<open>_run\<close>.\<close>

definition writer_turn :: "answers \<Rightarrow> nat \<Rightarrow> rat \<Rightarrow> nat \<Rightarrow> nat \<times> rat \<Rightarrow> recorder \<Rightarrow> (nat \<times> rat) \<times> recorder" where
  "writer_turn ask correlation now limit w s =
     (let (batch, wakes, q) = collect_items limit (rc_queue s);
          s1 = s\<lparr> rc_queue := q \<rparr>;
          (w', s2) = (if batch = [] then (w, s1)
                      else if now < snd w then (w, lost_in now (length batch) s1)
                      else flush ask correlation now batch (fst w) s1)
      in (w', acknowledge_wakes wakes s2))"

text \<open>\<open>_abandon\<close>, over what is left in a queue nobody drains any more.\<close>

definition abandon :: "answers \<Rightarrow> rat \<Rightarrow> item list \<Rightarrow> recorder \<Rightarrow> recorder" where
  "abandon ask now left s =
     (let s1 = acknowledge_wakes (wakes_of left) s
      in if events_of left = [] then s1
         else (case deliver ask (events_of left) s1 of
                 (Inl _, s2) \<Rightarrow> lost_in now (length (events_of left)) s2
               | (Inr missing, s2) \<Rightarrow> lost_in now missing s2))"

text \<open>\<open>drain_once\<close>, with everything in the queue, and \<open>stop\<close>, once the writer thread has ended.\<close>

definition drain_once :: "answers \<Rightarrow> nat \<Rightarrow> rat \<Rightarrow> recorder \<Rightarrow> nat \<times> recorder" where
  "drain_once ask correlation now s =
     (if \<not> rc_running s then (0, s)
      else (let batch = events_of (rc_queue s);
                s1 = s\<lparr> rc_queue := [] \<rparr>;
                s2 = (if batch = [] then s1 else snd (flush ask correlation now batch 0 s1))
            in (length batch, acknowledge_wakes (wakes_of (rc_queue s)) s2)))"

definition stop :: "answers \<Rightarrow> rat \<Rightarrow> recorder \<Rightarrow> recorder" where
  "stop ask now s =
     (if \<not> rc_running s then s
      else abandon ask now (rc_queue s) (s\<lparr> rc_running := False, rc_queue := [] \<rparr>))"

text \<open>\<open>_rehome\<close>: what is in a detached queue goes onto the live one.\<close>

fun rehome :: "rat \<Rightarrow> item list \<Rightarrow> recorder \<Rightarrow> recorder" where
  "rehome now [] s = s"
| "rehome now (i # orphan) s =
     (let s1 = s\<lparr> rc_running := True \<rparr>
      in rehome now orphan
           (if length (rc_queue s1) < rc_maxsize s1 then s1\<lparr> rc_queue := rc_queue s1 @ [i] \<rparr>
            else (case i of Wake w \<Rightarrow> acknowledge_wakes [w] s1 | Ev e \<Rightarrow> lost_in now 1 s1)))"

section \<open>Runs of several threads\<close>

text \<open>Where a thread is in a flush: before the write of its batch, before its claim, before its gap row.\<close>

datatype phase = Writing "event list" nat | Claiming nat | Reporting nat

record system =
  sy_recorder :: recorder
  sy_threads :: "phase list"
  sy_gaps :: "nat list"

text \<open>
  The runs of a recorder that keeps the table, with the number of events it was asked to keep:
  producers record, threads take batches off the queue and go through their flushes, the writer
  discards a batch while it holds back, the recorder is stopped, and a producer that was late
  moves its event from a detached queue.  \<open>sy_gaps\<close> keeps what the gap rows that landed say;
  the acknowledgement of markers, which touches no count, is left out.
\<close>

inductive log_run :: "answers \<Rightarrow> nat \<Rightarrow> system \<Rightarrow> bool" for ask where
  start: "\<lbrakk> rc_enabled r; rc_queue r = []; lg_dropped (rc_ledger r) = 0; db_rows (rc_db r) = [] \<rbrakk>
    \<Longrightarrow> log_run ask 0 \<lparr> sy_recorder = r, sy_threads = [], sy_gaps = [] \<rparr>"
| recorded: "\<lbrakk> log_run ask n S; wants (ev_kind e) (sy_recorder S) \<rbrakk>
    \<Longrightarrow> log_run ask (Suc n) (S\<lparr> sy_recorder := record_event ask now here starts e (sy_recorder S) \<rparr>)"
| late: "log_run ask n S \<Longrightarrow> log_run ask (Suc n) (S\<lparr> sy_recorder := rehome now [Ev e] (sy_recorder S) \<rparr>)"
| taken: "\<lbrakk> log_run ask n S; collect_items limit (rc_queue (sy_recorder S)) = (batch, wakes, q) \<rbrakk>
    \<Longrightarrow> log_run ask n (S\<lparr> sy_recorder := (sy_recorder S)\<lparr> rc_queue := q \<rparr>,
                          sy_threads := Writing batch (lg_dropped (rc_ledger (sy_recorder S))) # sy_threads S \<rparr>)"
| discarded: "\<lbrakk> log_run ask n S; sy_threads S = ts @ Writing batch before # ts' \<rbrakk>
    \<Longrightarrow> log_run ask n (S\<lparr> sy_recorder := lost_in now (length batch) (sy_recorder S), sy_threads := ts @ ts' \<rparr>)"
| written: "\<lbrakk> log_run ask n S; sy_threads S = ts @ Writing batch before # ts'; flush_write ask batch (sy_recorder S) = (res, r) \<rbrakk>
    \<Longrightarrow> log_run ask n (S\<lparr> sy_recorder := r,
          sy_threads := (if res \<noteq> None \<and> before \<noteq> 0 then ts @ Claiming before # ts' else ts @ ts') \<rparr>)"
| claimed: "\<lbrakk> log_run ask n S; sy_threads S = ts @ Claiming most # ts'; claim_gap most (sy_recorder S) = (claimed, r) \<rbrakk>
    \<Longrightarrow> log_run ask n (S\<lparr> sy_recorder := r, sy_threads := (if claimed = 0 then ts @ ts' else ts @ Reporting claimed # ts') \<rparr>)"
| reported: "\<lbrakk> log_run ask n S; sy_threads S = ts @ Reporting claimed # ts';
      write_gap ask correlation now claimed (sy_recorder S) = (landed, r) \<rbrakk>
    \<Longrightarrow> log_run ask n (S\<lparr> sy_recorder := r, sy_threads := ts @ ts',
          sy_gaps := (if landed then claimed # sy_gaps S else sy_gaps S) \<rparr>)"
| drained: "log_run ask n S \<Longrightarrow> log_run ask n (S\<lparr> sy_recorder := stop ask now (sy_recorder S) \<rparr>)"

section \<open>Nothing is lost in silence\<close>

fun in_hand :: "phase \<Rightarrow> nat" where
  "in_hand (Writing batch _) = length batch"
| "in_hand (Claiming _) = 0"
| "in_hand (Reporting claimed) = claimed"

text \<open>What a recorder has, waits for, and counts as lost.\<close>

definition kept :: "recorder \<Rightarrow> nat" where
  "kept r = length (db_rows (rc_db r)) + length (events_of (rc_queue r)) + lg_dropped (rc_ledger r)"

definition only_database_errors :: "answers \<Rightarrow> bool" where
  "only_database_errors ask \<longleftrightarrow> (\<forall>k rs. ask k rs \<noteq> OtherError)"

lemma lost_dropped [simp]: "lg_dropped (snd (lost now n L)) = lg_dropped L + n"
  by (simp add: lost_def Let_def)

lemma lost_quietly_dropped [simp]: "lg_dropped (lost_quietly n L) = lg_dropped L + n"
  by (simp add: lost_quietly_def)

lemma kept_lost_in [simp]: "kept (lost_in now n r) = kept r + n" "rc_enabled (lost_in now n r) = rc_enabled r"
  by (simp_all add: kept_def lost_in_def)

lemma kept_acknowledge [simp]:
  "kept (acknowledge_wakes ws r) = kept r" "rc_enabled (acknowledge_wakes ws r) = rc_enabled r"
  by (simp_all add: kept_def acknowledge_wakes_def)

lemma events_of_append [simp]: "events_of (q @ q') = events_of q @ events_of q'"
  by (induction q rule: events_of.induct) auto

lemma collect_items_events:
  "collect_items n q = (batch, ws, q') \<Longrightarrow> length (events_of q) = length batch + length (events_of q')"
  by (induction n q arbitrary: batch ws q' rule: collect_items.induct) (auto split: prod.splits)

text \<open>Delivering a batch: what the answer says is what the rows gained.\<close>

lemma deliver_counts:
  assumes "rc_enabled r" and "deliver ask batch r = (res, r')"
  shows "rc_enabled r'" "rc_queue r' = rc_queue r" "rc_ledger r' = rc_ledger r" "rc_maxsize r' = rc_maxsize r"
    and "case res of
        Inr missing \<Rightarrow> length (db_rows (rc_db r')) + missing = length (db_rows (rc_db r)) + length batch
      | Inl e \<Rightarrow> length (db_rows (rc_db r)) \<le> length (db_rows (rc_db r')) \<and>
                (only_database_errors ask \<longrightarrow> length (db_rows (rc_db r')) = length (db_rows (rc_db r)))"
proof -
  obtain d where w: "write_batch ask (rc_keys r) (rc_credentials r) batch (rc_db r) = (res, d)"
    and r': "r' = publish batch (r\<lparr> rc_db := d \<rparr>)"
    using assms by (auto simp: deliver_def split: prod.splits)
  show "rc_enabled r'" "rc_queue r' = rc_queue r" "rc_ledger r' = rc_ledger r" "rc_maxsize r' = rc_maxsize r"
    using assms(1) by (simp_all add: r' publish_def)
  have "rc_db r' = d" by (simp add: r' publish_def)
  with write_batch_outcome [of ask "rc_keys r" "rc_credentials r" batch "rc_db r"] w
  show "case res of
        Inr missing \<Rightarrow> length (db_rows (rc_db r')) + missing = length (db_rows (rc_db r)) + length batch
      | Inl e \<Rightarrow> length (db_rows (rc_db r)) \<le> length (db_rows (rc_db r')) \<and>
                (only_database_errors ask \<longrightarrow> length (db_rows (rc_db r')) = length (db_rows (rc_db r)))"
    by (auto simp: batch_outcome_def only_database_errors_def split: sum.splits write_error.splits)
qed

text \<open>How each operation moves the total, as an inequality that is exact on a well-behaved database.\<close>

definition gains :: "answers \<Rightarrow> nat \<Rightarrow> nat \<Rightarrow> nat \<Rightarrow> bool" where
  "gains ask n before after \<longleftrightarrow> before + n \<le> after \<and> (only_database_errors ask \<longrightarrow> after = before + n)"

lemma deliver_gains:
  assumes "rc_enabled r" and "deliver ask batch r = (Inr missing, r')"
  shows "rc_enabled r'" "kept r' + missing = kept r + length batch"
  using deliver_counts [OF assms] by (simp_all add: kept_def)

lemma deliver_fails:
  assumes "rc_enabled r" and "deliver ask batch r = (Inl e, r')"
  shows "rc_enabled r'" "gains ask 0 (kept r) (kept r')"
  using deliver_counts [OF assms] by (simp_all add: kept_def gains_def)

lemma record_event_gains:
  assumes "rc_enabled r" and "wants (ev_kind e) r"
  shows "rc_enabled (record_event ask now here starts e r) \<and> gains ask 1 (kept r) (kept (record_event ask now here starts e r))"
proof -
  define e' where "e' = (if ev_worker e = [] then e\<lparr> ev_worker := rc_worker r \<rparr> else e)"
  define res r' where "res = fst (deliver ask [e'] r)" and "r' = snd (deliver ask [e'] r)"
  have d: "deliver ask [e'] r = (res, r')" by (simp add: res_def r'_def)
  have queued: "kept (r\<lparr> rc_running := True, rc_queue := rc_queue r @ [Ev e'] \<rparr>) = kept r + 1" by (simp add: kept_def)
  have running: "kept (r\<lparr> rc_running := True \<rparr>) = kept r" by (simp add: kept_def)
  have here: "rc_enabled (case res of Inl _ \<Rightarrow> lost_in now 1 r' | Inr _ \<Rightarrow> r') \<and>
      gains ask 1 (kept r) (kept (case res of Inl _ \<Rightarrow> lost_in now 1 r' | Inr _ \<Rightarrow> r'))"
  proof (cases res)
    case (Inl x)
    with deliver_fails [OF assms(1), of ask "[e']" x r'] d show ?thesis by (auto simp: gains_def)
  next
    case (Inr missing)
    with deliver_gains [OF assms(1), of ask "[e']" missing r'] d have "rc_enabled r'" "kept r' + missing = kept r + 1" by auto
    moreover have "missing = 0"
      using single_row_lands_or_raises [of ask "rc_keys r" "rc_credentials r" e' "rc_db r"] d Inr assms(1)
      by (auto simp: deliver_def split: prod.splits)
    ultimately show ?thesis using Inr by (simp add: gains_def)
  qed
  have "record_event ask now here starts e r =
      (if here \<and> rc_enabled r then (case res of Inl _ \<Rightarrow> lost_in now 1 r' | Inr _ \<Rightarrow> r')
       else if \<not> rc_running r \<and> \<not> starts then lost_in now 1 r
       else if rc_maxsize r \<le> length (rc_queue r) then lost_in now 1 (r\<lparr> rc_running := True \<rparr>)
       else r\<lparr> rc_running := True, rc_queue := rc_queue r @ [Ev e'] \<rparr>)"
    using assms d by (simp add: record_event_def active_def e'_def Let_def split: sum.splits)
  then show ?thesis using here assms(1) queued running by (auto simp: gains_def split del: if_split split: if_splits)
qed

lemma flush_write_gains:
  assumes "rc_enabled r" and "flush_write ask batch r = (res, r')"
  shows "rc_enabled r' \<and> gains ask (length batch) (kept r) (kept r')"
proof -
  obtain x r1 where d: "deliver ask batch r = (x, r1)" by (cases "deliver ask batch r")
  have quiet: "kept (s\<lparr> rc_ledger := lost_quietly n (rc_ledger s) \<rparr>) = kept s + n" for s n by (simp add: kept_def)
  show ?thesis
  proof (cases x)
    case (Inl e)
    with deliver_fails [OF assms(1), of ask batch e r1] d assms(2) show ?thesis
      by (auto simp: flush_write_def gains_def quiet)
  next
    case (Inr missing)
    with deliver_gains [OF assms(1), of ask batch missing r1] d assms(2) show ?thesis
      by (auto simp: flush_write_def gains_def quiet)
  qed
qed

lemma claim_gap_moves:
  assumes "claim_gap most r = (claimed, r')"
  shows "rc_enabled r' = rc_enabled r" "kept r' + claimed = kept r"
  using assms by (auto simp: claim_gap_def claim_drops_def Let_def kept_def)

lemma write_gap_moves:
  assumes "rc_enabled r" and "write_gap ask correlation now claimed r = (landed, r')"
  shows "rc_enabled r' \<and> gains ask (if landed then 1 else claimed) (kept r) (kept r')"
proof -
  define g where "g = gap_event correlation now claimed"
  obtain x r1 where d: "deliver ask [g] r = (x, r1)" by (cases "deliver ask [g] r")
  have returned: "kept (s\<lparr> rc_ledger := give_back n (rc_ledger s) \<rparr>) = kept s + n" for s n by (simp add: kept_def give_back_def)
  show ?thesis
  proof (cases x)
    case (Inl e)
    with deliver_fails [OF assms(1), of ask "[g]" e r1] d assms(2) show ?thesis
      by (auto simp: write_gap_def gains_def returned simp flip: g_def)
  next
    case (Inr missing)
    with deliver_gains [OF assms(1), of ask "[g]" missing r1] d have "rc_enabled r1" "kept r1 + missing = kept r + 1" by auto
    moreover have "missing = 0"
      using single_row_lands_or_raises [of ask "rc_keys r" "rc_credentials r" g "rc_db r"] d Inr assms(1)
      by (auto simp: deliver_def split: prod.splits)
    ultimately show ?thesis using Inr d assms(2) by (auto simp: write_gap_def gains_def simp flip: g_def)
  qed
qed

lemma rehome_event_gains:
  "rc_enabled (rehome now [Ev e] r) = rc_enabled r \<and> kept (rehome now [Ev e] r) = kept r + 1"
  by (simp add: kept_def lost_in_def Let_def)

lemma stop_gains:
  assumes "rc_enabled r"
  shows "rc_enabled (stop ask now r) \<and> gains ask 0 (kept r) (kept (stop ask now r))"
proof (cases "rc_running r \<and> events_of (rc_queue r) \<noteq> []")
  case True
  define batch where "batch = events_of (rc_queue r)"
  define r1 where "r1 = acknowledge_wakes (wakes_of (rc_queue r)) (r\<lparr> rc_running := False, rc_queue := [] \<rparr>)"
  have r1: "rc_enabled r1" "kept r = kept r1 + length batch"
    using assms by (simp_all add: r1_def batch_def acknowledge_wakes_def kept_def)
  obtain x r2 where d: "deliver ask batch r1 = (x, r2)" by (cases "deliver ask batch r1")
  have "stop ask now r = (case x of Inl _ \<Rightarrow> lost_in now (length batch) r2 | Inr missing \<Rightarrow> lost_in now missing r2)"
    using True d by (simp add: stop_def abandon_def Let_def batch_def r1_def split: sum.splits)
  then show ?thesis
    using deliver_fails [OF r1(1), of ask batch _ r2] deliver_gains [OF r1(1), of ask batch _ r2] d r1(2)
    by (cases x) (fastforce simp: gains_def)+
next
  case False
  with assms show ?thesis by (auto simp: stop_def abandon_def Let_def gains_def acknowledge_wakes_def kept_def)
qed

text \<open>The invariant, and that every run keeps it.\<close>

definition total :: "system \<Rightarrow> nat" where
  "total S = kept (sy_recorder S) + sum_list (map in_hand (sy_threads S)) + sum_list (sy_gaps S)"

lemma log_run_total:
  assumes "log_run ask n S"
  shows "rc_enabled (sy_recorder S) \<and> gains ask 0 (n + length (sy_gaps S)) (total S)"
  using assms
proof induction
  case (start r)
  then show ?case by (simp add: total_def gains_def kept_def)
next
  case (recorded n S e now here starts)
  with record_event_gains [of "sy_recorder S" e ask now here starts] show ?case by (simp add: total_def gains_def)
next
  case (late n S now e)
  with rehome_event_gains [of now e "sy_recorder S"] show ?case by (simp add: total_def gains_def del: rehome.simps)
next
  case (taken n S limit batch wakes q)
  with collect_items_events [OF taken.hyps(2)] show ?case by (auto simp: total_def gains_def kept_def)
next
  case (discarded n S ts batch before ts' now)
  then show ?case by (auto simp: total_def gains_def)
next
  case (written n S ts batch before ts' res r)
  with flush_write_gains [OF _ written.hyps(3)] show ?case by (auto simp: total_def gains_def)
next
  case (claimed n S ts most ts' claimed r)
  with claim_gap_moves [OF claimed.hyps(3)] show ?case by (auto simp: total_def gains_def)
next
  case (reported n S ts claimed ts' correlation now landed r)
  with write_gap_moves [OF _ reported.hyps(3)] show ?case by (auto simp: total_def gains_def)
next
  case (drained n S now)
  with stop_gains [of "sy_recorder S" ask now] show ?case by (auto simp: total_def gains_def)
qed

section \<open>Properties of the recorder\<close>

text \<open>
  C13. Nothing is lost in silence.  On every run, however the threads interleave and whatever the
  database answers, the events the recorder was asked to keep are covered by the event rows that
  landed, the events waiting in the queue, those in a thread's hand, the count of lost ones, and
  what gap rows that landed say, including a count a thread has claimed and not yet reported; and
  the books are exact when the database layer raises its own errors only.
\<close>

theorem nothing_is_lost_in_silence:
  assumes "log_run ask n S"
  shows "let r = sy_recorder S;
             covered = length (db_rows (rc_db r)) + length (events_of (rc_queue r)) + sum_list (map in_hand (sy_threads S)) +
                       lg_dropped (rc_ledger r) + sum_list (sy_gaps S)
         in n + length (sy_gaps S) \<le> covered \<and> ((\<forall>k rs. ask k rs \<noteq> OtherError) \<longrightarrow> n + length (sy_gaps S) = covered)"
proof -
  from log_run_total [OF assms] have "gains ask 0 (n + length (sy_gaps S)) (total S)" by simp
  moreover have "total S = length (db_rows (rc_db (sy_recorder S))) + length (events_of (rc_queue (sy_recorder S))) +
      sum_list (map in_hand (sy_threads S)) + lg_dropped (rc_ledger (sy_recorder S)) + sum_list (sy_gaps S)"
    by (simp add: total_def kept_def)
  ultimately show ?thesis by (simp add: gains_def only_database_errors_def Let_def)
qed

definition fresh_recorder :: recorder where
  "fresh_recorder = \<lparr> rc_enabled = True, rc_receivers = False, rc_kinds = [''outbound.sent''], rc_worker = ''w'', rc_maxsize = 1,
     rc_running = False, rc_queue = [], rc_ledger = drop_ledger, rc_db = fresh_db, rc_published = [], rc_acknowledged = [],
     rc_keys = [], rc_credentials = [] \<rparr>"

theorem nothing_is_lost_in_silence_witness:
  "\<exists>S. log_run picky 2 S \<and>
    2 + length (sy_gaps S) \<le> length (db_rows (rc_db (sy_recorder S))) + length (events_of (rc_queue (sy_recorder S))) +
      sum_list (map in_hand (sy_threads S)) + lg_dropped (rc_ledger (sy_recorder S)) + sum_list (sy_gaps S)"
proof -
  define S0 where "S0 = \<lparr> sy_recorder = fresh_recorder, sy_threads = [], sy_gaps = [] \<rparr>"
  define rec where "rec = record_event picky 0 False True (sample_event ''outbound.sent'')"
  define S1 where "S1 = S0\<lparr> sy_recorder := rec (sy_recorder S0) \<rparr>"
  define S2 where "S2 = S1\<lparr> sy_recorder := rec (sy_recorder S1) \<rparr>"
  have "log_run picky 0 S0" unfolding S0_def by (rule log_run.start) (simp_all add: fresh_recorder_def drop_ledger_def fresh_db_def)
  then have "log_run picky 1 S1" unfolding S1_def rec_def
    using log_run.recorded [of picky 0 S0 "sample_event ''outbound.sent''" 0 False True]
    by (simp add: S0_def wants_def fresh_recorder_def sample_event_def)
  then have run: "log_run picky 2 S2" unfolding S2_def rec_def
    using log_run.recorded [of picky 1 S1 "sample_event ''outbound.sent''" 0 False True]
    by (simp add: S1_def S0_def rec_def wants_def fresh_recorder_def sample_event_def record_event_def active_def numeral_2_eq_2)
  with nothing_is_lost_in_silence [OF run] show ?thesis by (auto simp: Let_def)
qed

end
