(* ===== verification/Producing.thy ===== *)
theory Producing
  imports EventWriter
begin

text \<open>
  What a producer does around the one line that writes to the transport: the payloads and the
  event rows of \<open>producer/queueing.py\<close>, and when that line runs relative to the caller's
  transaction, \<open>producer/committing.py\<close>.

  The serializer is an argument, \<open>dumps\<close>, and so is what is written of the arguments,
  \<open>described\<close>.  An exception is the name of its class and its text.  The events handed to the
  recorder are part of the result of each operation.
\<close>

section \<open>A queue write\<close>

type_synonym exn = "string \<times> string"
type_synonym message = "nat \<times> pydict"

record queueing =
  qw_payloads :: "bytes list"
  qw_messages :: "message list"
  qw_queued_at :: rat
  qw_details :: "pydict option list"
  qw_bot_id :: "int option"

definition blank_event :: "string \<Rightarrow> nat \<Rightarrow> rat \<Rightarrow> event" where
  "blank_event kind correlation now =
     \<lparr> ev_kind = kind, ev_correlation_id = correlation, ev_created_at = now, ev_function = [], ev_chat_id = None,
       ev_user_id = None, ev_message_id = None, ev_update_id = None, ev_worker = [], ev_attempt = 0, ev_duration_ms = None,
       ev_error_code = [], ev_error = [], ev_detail = None, ev_bot_id = None \<rparr>"

definition chat_of :: "pydict \<Rightarrow> int option" where
  "chat_of kwargs = as_identifier (dget kwargs ''chat_id'' PNone)"

definition dropped :: "string \<Rightarrow> message list \<Rightarrow> string \<Rightarrow> exn \<Rightarrow> int option \<Rightarrow> rat \<Rightarrow> event list" where
  "dropped function messages stage error who now =
     map (\<lambda>(identifier, kwargs). (blank_event ''outbound.dropped'' identifier now)
            \<lparr> ev_bot_id := who, ev_function := function, ev_chat_id := chat_of kwargs,
              ev_error_code := fst error, ev_error := snd error, ev_detail := Some [(''stage'', PStr stage)] \<rparr>) messages"

fun dump_all :: "(pydict \<Rightarrow> exn + bytes) \<Rightarrow> pydict list \<Rightarrow> exn + bytes list" where
  "dump_all dumps [] = Inr []"
| "dump_all dumps (p # ps) =
     (case dumps p of
        Inl e \<Rightarrow> Inl e
      | Inr b \<Rightarrow> (case dump_all dumps ps of Inl e \<Rightarrow> Inl e | Inr bs \<Rightarrow> Inr (b # bs)))"

definition serialise ::
  "(pydict \<Rightarrow> exn + bytes) \<Rightarrow> (pydict \<Rightarrow> pydict) option \<Rightarrow> rat \<Rightarrow> string \<Rightarrow> message list \<Rightarrow> rat option \<Rightarrow> int option
     \<Rightarrow> (exn + queueing) \<times> event list" where
  "serialise dumps described now function messages queued who =
     (let queued_at = (case queued of None \<Rightarrow> now | Some t \<Rightarrow> t)
      in case dump_all dumps (map (\<lambda>(identifier, kwargs). pack function kwargs identifier (Fin queued_at) who) messages) of
           Inl e \<Rightarrow> (Inl e, dropped function messages ''serialising'' e who now)
         | Inr payloads \<Rightarrow>
             (Inr \<lparr> qw_payloads = payloads, qw_messages = messages, qw_queued_at = queued_at,
                    qw_details = map (\<lambda>(_, kwargs). map_option (\<lambda>f. f kwargs) described) messages, qw_bot_id = who \<rparr>, []))"

text \<open>
  \<open>publishing\<close>, given how the line it wraps came out; the strict \<open>zip\<close> raises where the
  details are not one per message.
\<close>

definition queued_event :: "string \<Rightarrow> queueing \<Rightarrow> message \<Rightarrow> pydict option \<Rightarrow> event" where
  "queued_event function w m detail =
     (blank_event ''outbound.queued'' (fst m) (qw_queued_at w))
        \<lparr> ev_bot_id := qw_bot_id w, ev_function := function, ev_chat_id := chat_of (snd m), ev_detail := detail \<rparr>"

definition publishing :: "bool \<Rightarrow> rat \<Rightarrow> string \<Rightarrow> queueing \<Rightarrow> exn option \<Rightarrow> exn option \<times> event list" where
  "publishing active_log now function w raised =
     (case raised of
        Some e \<Rightarrow> (Some e, dropped function (qw_messages w) ''queueing'' e (qw_bot_id w) now)
      | None \<Rightarrow>
          if \<not> active_log then (None, [])
          else ((if length (qw_messages w) = length (qw_details w) then None else Some (''ValueError'', ''zip()'')),
                map (\<lambda>(m, detail). queued_event function w m detail) (zip (qw_messages w) (qw_details w))))"

text \<open>\<open>queueing\<close>: both halves; \<open>write\<close> is the line on the transport.\<close>

definition queueing_write ::
  "(pydict \<Rightarrow> exn + bytes) \<Rightarrow> (pydict \<Rightarrow> pydict) option \<Rightarrow> bool \<Rightarrow> rat \<Rightarrow> (bytes list \<Rightarrow> exn option) \<Rightarrow> string \<Rightarrow> message list \<Rightarrow> int option
     \<Rightarrow> exn option \<times> event list" where
  "queueing_write dumps described active_log now write function messages who =
     (case serialise dumps described now function messages None who of
        (Inl e, events) \<Rightarrow> (Some e, events)
      | (Inr w, events) \<Rightarrow>
          (let (raised, more) = publishing active_log now function w (write (qw_payloads w)) in (raised, events @ more)))"

section \<open>Batches\<close>

text \<open>
  \<open>chunks\<close>, over the chats and the identifiers minted for them; \<open>chunk\<close> is the batch
  being filled.
\<close>

fun chunks_loop :: "nat \<Rightarrow> pydict \<Rightarrow> (nat \<times> pyval) list \<Rightarrow> message list \<Rightarrow> message list list" where
  "chunks_loop size_bound kwargs [] chunk = (if chunk \<noteq> [] then [chunk] else [])"
| "chunks_loop size_bound kwargs ((identifier, chat) # rest) chunk =
     (let chunk = chunk @ [(identifier, dset ''chat_id'' chat kwargs)]
      in if size_bound \<le> length chunk then chunk # chunks_loop size_bound kwargs rest []
         else chunks_loop size_bound kwargs rest chunk)"

definition chunks :: "int \<Rightarrow> pydict \<Rightarrow> (nat \<times> pyval) list \<Rightarrow> message list list" where
  "chunks chunk_size kwargs chats = chunks_loop (nat (max 1 chunk_size)) kwargs chats []"

section \<open>When a write happens\<close>

text \<open>
  A connection and the hooks waiting for its commit.  \<open>cn_commit_on_exit\<close> is the attribute
  Django clears where a block was entered with autocommit off, \<open>cn_open\<close> whether the connection
  has been opened, \<open>cn_mentioned\<close> the line said once per process.
\<close>

record 'w connection =
  cn_in_atomic_block :: bool
  cn_commit_on_exit :: bool
  cn_open :: bool
  cn_autocommit :: bool
  cn_hooks :: "'w list"
  cn_mentioned :: bool

definition mention_manual :: "'w connection \<Rightarrow> 'w connection" where
  "mention_manual c = c\<lparr> cn_mentioned := True \<rparr>"

definition will_commit :: "'w connection \<Rightarrow> bool \<times> 'w connection" where
  "will_commit c =
     (if cn_in_atomic_block c then (if cn_commit_on_exit c then (True, c) else (False, mention_manual c))
      else if cn_open c \<and> \<not> cn_autocommit c then (False, mention_manual c)
      else (False, c))"

definition defer_write :: "bool \<Rightarrow> 'w \<Rightarrow> 'w connection \<Rightarrow> bool \<times> 'w connection" where
  "defer_write transactional work c =
     (if \<not> transactional then (False, c)
      else (case will_commit c of
              (False, c') \<Rightarrow> (False, c')
            | (True, c') \<Rightarrow> (True, c'\<lparr> cn_hooks := cn_hooks c' @ [work] \<rparr>)))"

text \<open>\<open>after_commit\<close>; the list is the work done at once.\<close>

definition after_commit :: "'w \<Rightarrow> 'w connection \<Rightarrow> bool \<times> 'w list \<times> 'w connection" where
  "after_commit work c =
     (if cn_in_atomic_block c then (True, [], c\<lparr> cn_hooks := cn_hooks c @ [work] \<rparr>)
      else (let c' = (if cn_open c \<and> \<not> cn_autocommit c then mention_manual c else c) in (False, [work], c')))"

section \<open>Properties of queue writes\<close>

lemma dump_all_length: "dump_all dumps ps = Inr bs \<Longrightarrow> length bs = length ps"
  by (induction ps arbitrary: bs) (auto split: sum.splits)

lemma dropped_ids: "map ev_correlation_id (dropped function messages stage error who now) = map fst messages"
  by (auto simp: dropped_def blank_event_def)

lemma dropped_kinds: "e \<in> set (dropped function messages stage error who now) \<Longrightarrow> ev_kind e = ''outbound.dropped''"
  by (auto simp: dropped_def blank_event_def)



lemma chunks_loop_concat:
  "concat (chunks_loop n kwargs chats chunk) = chunk @ map (\<lambda>(i, chat). (i, dset ''chat_id'' chat kwargs)) chats"
  by (induction n kwargs chats chunk rule: chunks_loop.induct) (auto simp: Let_def)

lemma chunks_loop_sizes:
  assumes "length chunk < n"
  shows "(\<forall>c \<in> set (chunks_loop n kwargs chats chunk). c \<noteq> [] \<and> length c \<le> n) \<and>
         (\<forall>c \<in> set (butlast (chunks_loop n kwargs chats chunk)). length c = n)"
  using assms
proof (induction chats arbitrary: chunk)
  case (Cons p chats)
  obtain i chat where p: "p = (i, chat)" by (cases p)
  define filled where "filled = chunk @ [(i, dset ''chat_id'' chat kwargs)]"
  have filled: "filled \<noteq> []" "length filled \<le> n" using Cons.prems by (simp_all add: filled_def)
  show ?case
  proof (cases "n \<le> length filled")
    case True
    then have "chunks_loop n kwargs (p # chats) chunk = filled # chunks_loop n kwargs chats []" by (simp add: p filled_def)
    moreover have "length ([] :: message list) < n" using Cons.prems by simp
    ultimately show ?thesis using Cons.IH [of "[]"] filled True by auto
  next
    case False
    then have "chunks_loop n kwargs (p # chats) chunk = chunks_loop n kwargs chats filled" by (simp add: p filled_def)
    with Cons.IH [of filled] False show ?thesis by simp
  qed
qed (use assms in auto)

text \<open>
  A broadcast is cut into batches that together are its chats, each once and in order: no batch
  is empty or over the size, and only the last may be short of it.
\<close>

theorem chunks_cover_the_chats:
  "concat (chunks chunk_size kwargs chats) = map (\<lambda>(i, chat). (i, dset ''chat_id'' chat kwargs)) chats \<and>
   (\<forall>c \<in> set (chunks chunk_size kwargs chats). c \<noteq> [] \<and> int (length c) \<le> max 1 chunk_size) \<and>
   (\<forall>c \<in> set (butlast (chunks chunk_size kwargs chats)). int (length c) = max 1 chunk_size)"
proof -
  define n where "n = nat (max 1 chunk_size)"
  have "length ([] :: message list) < n" and n: "max 1 chunk_size = int n" by (simp_all add: n_def)
  with chunks_loop_sizes [of "[]" n kwargs chats] chunks_loop_concat [of n kwargs chats "[]"] show ?thesis
    unfolding n by (simp add: chunks_def n)
qed

theorem chunks_cover_the_chats_witness:
  "\<forall>c \<in> set (chunks 2 [] [(1, PInt 7), (2, PInt 8), (3, PInt 9)]). c \<noteq> [] \<and> int (length c) \<le> 2"
  using chunks_cover_the_chats [of 2 "[]" "[(1, PInt 7), (2, PInt 8), (3, PInt 9)]"] by simp

end
