(* ===== verification/Scheduling.thy ===== *)
theory Scheduling
  imports Producing
begin

text \<open>
  Sends that are not due yet: the table of \<open>producer/scheduling.py\<close> and the mover,
  \<open>management/commands/tgbot_dispatch_scheduled.py\<close>.

  The table is the list of its rows.  Each statement is one step; between the selection of
  rows, the claim of each, the publish, the deletion and the writes after a failure, anything
  else may happen, and the runs of several movers interleave these steps.
\<close>

declare dict_simps [simp]

section \<open>When a send is due\<close>

datatype eta = NotDatetime string | Naive rat | Aware rat

definition due_moment :: "bool \<Rightarrow> eta \<Rightarrow> string + rat" where
  "due_moment use_tz eta =
     (case eta of
        NotDatetime ty \<Rightarrow> Inl (''eta must be a datetime, got '' @ ty @ ''.'')
      | Naive t \<Rightarrow> if use_tz then Inl ''eta must be an aware datetime under USE_TZ'' else Inr t
      | Aware t \<Rightarrow> if \<not> use_tz then Inl ''eta must be a naive datetime while USE_TZ is False'' else Inr t)"

section \<open>The table\<close>

record srow =
  sr_id :: nat
  sr_correlation_id :: nat
  sr_due_at :: rat
  sr_function :: string
  sr_chat_id :: "int option"
  sr_bot_id :: "int option"
  sr_payload :: bytes
  sr_claimed_at :: "rat option"
  sr_claimed_by :: string
  sr_claimed_until :: "rat option"
  sr_attempts :: nat

text \<open>\<open>_rows\<close>; the identities are those the insertion gives.\<close>

definition scheduled_rows :: "string \<Rightarrow> queueing \<Rightarrow> rat \<Rightarrow> nat \<Rightarrow> srow list" where
  "scheduled_rows function w due first_id =
     map (\<lambda>(n, (identifier, kwargs), payload).
            \<lparr> sr_id = n, sr_correlation_id = identifier, sr_due_at = due, sr_function = function, sr_chat_id = chat_of kwargs,
              sr_bot_id = None, sr_payload = payload, sr_claimed_at = None, sr_claimed_by = [], sr_claimed_until = None,
              sr_attempts = 0 \<rparr>)
       (zip [first_id..<first_id + length (qw_messages w)] (zip (qw_messages w) (qw_payloads w)))"

text \<open>The events of \<open>_record\<close>; \<open>isoformat\<close> is the text of the moment.\<close>

definition scheduled_events :: "string \<Rightarrow> queueing \<Rightarrow> string \<Rightarrow> rat \<Rightarrow> event list" where
  "scheduled_events function w isoformat now =
     map (\<lambda>((identifier, kwargs), detail). (blank_event ''outbound.scheduled'' identifier now)
            \<lparr> ev_bot_id := qw_bot_id w, ev_function := function, ev_chat_id := chat_of kwargs,
              ev_detail := Some (dset ''due_at'' (PStr isoformat) (case detail of None \<Rightarrow> [] | Some d \<Rightarrow> d)) \<rparr>)
       (zip (qw_messages w) (qw_details w))"

text \<open>
  \<open>schedule\<close>: the rows and the hook that records the events, inside a block of its own; \<open>hook\<close>
  makes the work of a commit hook of those events.  Leaving an outermost block with autocommit on
  commits it and runs the hooks; the list is the work that is done on the way.
\<close>

definition schedule ::
  "(event list \<Rightarrow> 'w) \<Rightarrow> bool \<Rightarrow> string \<Rightarrow> queueing \<Rightarrow> rat \<Rightarrow> string \<Rightarrow> rat \<Rightarrow> nat \<Rightarrow> 'w connection \<Rightarrow> srow list
     \<Rightarrow> 'w list \<times> 'w connection \<times> srow list" where
  "schedule hook active_log function w due isoformat now first_id c table =
     (let table' = table @ scheduled_rows function w due first_id;
          inner = c\<lparr> cn_in_atomic_block := True \<rparr>;
          (later, done, inner') = (if active_log then after_commit (hook (scheduled_events function w isoformat now)) inner
                                   else (False, [], inner))
      in if cn_in_atomic_block c then (done, inner', table')
         else if cn_autocommit c
         then (done @ cn_hooks inner', inner'\<lparr> cn_in_atomic_block := False, cn_hooks := [] \<rparr>, table')
         else (done, inner'\<lparr> cn_in_atomic_block := False \<rparr>, table'))"

definition DEFAULT_LEASE :: int where "DEFAULT_LEASE = 300"

definition unheld :: "rat \<Rightarrow> srow \<Rightarrow> bool" where
  "unheld moment r = (sr_claimed_at r = None \<or> (case sr_claimed_until r of None \<Rightarrow> False | Some u \<Rightarrow> u \<le> moment))"

text \<open>The rows a call of \<open>claim\<close> selects, oldest first.\<close>

definition due_before :: "srow \<Rightarrow> srow \<Rightarrow> bool" where
  "due_before r r' = (sr_due_at r < sr_due_at r' \<or> (sr_due_at r = sr_due_at r' \<and> sr_id r \<le> sr_id r'))"

fun insert_by_due :: "srow \<Rightarrow> srow list \<Rightarrow> srow list" where
  "insert_by_due r [] = [r]"
| "insert_by_due r (x # xs) = (if due_before r x then r # x # xs else x # insert_by_due r xs)"

definition order_by_due :: "srow list \<Rightarrow> srow list" where
  "order_by_due rows = foldr insert_by_due rows []"

definition available :: "nat \<Rightarrow> int list \<Rightarrow> rat \<Rightarrow> srow list \<Rightarrow> srow list" where
  "available limit bots moment table =
     take limit (order_by_due (filter (\<lambda>r. unheld moment r \<and> sr_due_at r \<le> moment \<and>
                                           (bots \<noteq> [] \<longrightarrow> (case sr_bot_id r of None \<Rightarrow> False | Some b \<Rightarrow> b \<in> set bots))) table))"

definition lapses :: "int \<Rightarrow> rat \<Rightarrow> rat option" where
  "lapses lease moment = (if lease \<le> 0 then None else Some (moment + of_int lease))"

definition stamp :: "rat \<Rightarrow> string \<Rightarrow> rat option \<Rightarrow> srow \<Rightarrow> srow" where
  "stamp moment worker until r = r\<lparr> sr_claimed_at := Some moment, sr_claimed_by := worker, sr_claimed_until := until \<rparr>"

text \<open>The compare-and-set on one row: whether it took the row, and the table after it.\<close>

definition claim_row :: "rat \<Rightarrow> string \<Rightarrow> rat option \<Rightarrow> nat \<Rightarrow> srow list \<Rightarrow> bool \<times> srow list" where
  "claim_row moment worker until pk table =
     (list_ex (\<lambda>r. sr_id r = pk \<and> unheld moment r) table,
      map (\<lambda>r. if sr_id r = pk \<and> unheld moment r then stamp moment worker until r else r) table)"

fun claim_each :: "rat \<Rightarrow> string \<Rightarrow> rat option \<Rightarrow> srow list \<Rightarrow> srow list \<Rightarrow> srow list \<times> srow list" where
  "claim_each moment worker until [] table = ([], table)"
| "claim_each moment worker until (r # rs) table =
     (let (took, table1) = claim_row moment worker until (sr_id r) table;
          (won, table2) = claim_each moment worker until rs table1
      in (if took then stamp moment worker until r # won else won, table2))"

definition claim_due :: "nat \<Rightarrow> int \<Rightarrow> int list \<Rightarrow> string \<Rightarrow> rat \<Rightarrow> srow list \<Rightarrow> srow list \<times> srow list" where
  "claim_due limit lease bots worker moment table =
     claim_each moment worker (lapses lease moment) (available limit bots moment table) table"

definition still_held_by :: "srow \<Rightarrow> srow \<Rightarrow> bool" where
  "still_held_by mine r \<longleftrightarrow>
     sr_id r = sr_id mine \<and> sr_claimed_at r = sr_claimed_at mine \<and> sr_claimed_by r = sr_claimed_by mine"

definition cancel :: "rat \<Rightarrow> nat \<Rightarrow> srow list \<Rightarrow> nat \<times> srow list" where
  "cancel moment correlation table =
     (length (filter (\<lambda>r. unheld moment r \<and> sr_correlation_id r = correlation) table),
      filter (\<lambda>r. \<not> (unheld moment r \<and> sr_correlation_id r = correlation)) table)"

section \<open>The mover\<close>

text \<open>
  \<open>_count_failure\<close>: its transaction, which answers the count it read back, and the giving up.
\<close>

definition count_failure :: "srow \<Rightarrow> srow list \<Rightarrow> nat option \<times> srow list" where
  "count_failure mine table =
     (let table' = map (\<lambda>r. if still_held_by mine r then r\<lparr> sr_attempts := sr_attempts r + 1 \<rparr> else r) table
      in (map_option sr_attempts (find (still_held_by mine) table'), table'))"

definition drop_event :: "srow \<Rightarrow> rat \<Rightarrow> string \<Rightarrow> nat \<Rightarrow> string \<Rightarrow> pydict \<Rightarrow> event" where
  "drop_event mine now code attempt error detail =
     (blank_event ''outbound.dropped'' (sr_correlation_id mine) now)
        \<lparr> ev_function := sr_function mine, ev_chat_id := sr_chat_id mine, ev_attempt := int attempt, ev_error_code := code,
          ev_error := error, ev_detail := Some ((''stage'', PStr ''scheduling'') # detail) \<rparr>"

text \<open>A deletion on the condition that the claim still holds, and the event only where it took the row.\<close>

definition give_up_on :: "srow \<Rightarrow> event \<Rightarrow> srow list \<Rightarrow> event list \<times> srow list" where
  "give_up_on mine e table =
     (if list_ex (still_held_by mine) table then ([e], filter (\<lambda>r. \<not> still_held_by mine r) table) else ([], table))"

definition failed_publish :: "nat \<Rightarrow> srow \<Rightarrow> rat \<Rightarrow> srow list \<Rightarrow> event list \<times> srow list" where
  "failed_publish attempts mine now table =
     (let (failed, table') = count_failure mine table
      in case failed of
           None \<Rightarrow> ([], table')
         | Some n \<Rightarrow>
             if attempts = 0 \<or> n < attempts then ([], table')
             else give_up_on mine
                    (drop_event mine now ''TooManyAttempts'' n (''given up on after '' @ dec_nat n @ '' failed publishes'')
                       [(''attempts'', PInt (int n))]) table')"

definition drop_late :: "int \<Rightarrow> srow \<Rightarrow> rat \<Rightarrow> srow list \<Rightarrow> event list \<times> srow list" where
  "drop_late grace mine now table =
     (let overdue = \<lfloor>now - sr_due_at mine\<rfloor>
      in give_up_on mine
           (drop_event mine now ''TooLate'' 0 (dec_int overdue @ ''s overdue, past the '' @ dec_int grace @ ''s grace'')
              [(''overdue_s'', PInt overdue), (''grace_s'', PInt grace)]) table)"

definition delete_row :: "nat \<Rightarrow> srow list \<Rightarrow> srow list" where
  "delete_row pk table = filter (\<lambda>r. sr_id r \<noteq> pk) table"

definition too_late :: "int \<Rightarrow> rat \<Rightarrow> srow \<Rightarrow> bool" where
  "too_late grace now r = (grace \<noteq> 0 \<and> of_int grace < now - sr_due_at r)"

text \<open>The write \<open>_publish\<close> makes of a row.\<close>

definition write_of :: "srow \<Rightarrow> queueing" where
  "write_of r = \<lparr> qw_payloads = [sr_payload r],
     qw_messages = [(sr_correlation_id r, [(''chat_id'', case sr_chat_id r of None \<Rightarrow> PNone | Some c \<Rightarrow> PInt c)])],
     qw_queued_at = sr_due_at r, qw_details = [None], qw_bot_id = None \<rparr>"

text \<open>
  One pass of one mover with nothing else happening: what it claims, and for each row how the
  transport answers its publish.
\<close>

fun move_each :: "(srow \<Rightarrow> exn option) \<Rightarrow> bool \<Rightarrow> nat \<Rightarrow> int \<Rightarrow> rat \<Rightarrow> srow list \<Rightarrow> srow list \<Rightarrow> bytes list \<times> event list \<times> srow list" where
  "move_each publish active_log attempts grace now [] table = ([], [], table)"
| "move_each publish active_log attempts grace now (r # rs) table =
     (let (sent, events, table1) =
            (if too_late grace now r then (let (es, t) = drop_late grace r now table in ([], es, t))
             else (let (raised, es) = publishing active_log now (sr_function r) (write_of r) (publish r)
                   in case raised of
                        None \<Rightarrow> ([sr_payload r], es, delete_row (sr_id r) table)
                      | Some _ \<Rightarrow> (let (es', t) = failed_publish attempts r now table in ([], es @ es', t))));
          (sent', events', table2) = move_each publish active_log attempts grace now rs table1
      in (sent @ sent', events @ events', table2))"

definition one_pass ::
  "(srow \<Rightarrow> exn option) \<Rightarrow> bool \<Rightarrow> nat \<Rightarrow> int \<Rightarrow> int \<Rightarrow> nat \<Rightarrow> int list \<Rightarrow> string \<Rightarrow> rat \<Rightarrow> srow list
     \<Rightarrow> nat \<times> bytes list \<times> event list \<times> srow list" where
  "one_pass publish active_log limit lease grace attempts bots worker now table =
     (let (won, table1) = claim_due limit lease bots worker now table;
          (sent, events, table2) = move_each publish active_log attempts grace now won table1
      in (length won, sent, events, table2))"

section \<open>Runs of several movers\<close>

text \<open>
  \<open>mv_table\<close> is the table, \<open>mv_hands\<close> the rows won and not yet settled, with the claim that
  won them, \<open>mv_going\<close> those whose publish succeeded and whose deletion is still to come.  What
  became of rows is kept by their identities: \<open>mv_sent\<close>, \<open>mv_cancelled\<close>, and the rows given up
  on with the events that say so.
\<close>

record moving =
  mv_next :: nat
  mv_table :: "srow list"
  mv_hands :: "srow list"
  mv_going :: "srow list"
  mv_sent :: "nat list"
  mv_cancelled :: "nat list"
  mv_dropped :: "(nat \<times> event) list"

definition nothing_scheduled :: moving where
  "nothing_scheduled = \<lparr> mv_next = 0, mv_table = [], mv_hands = [], mv_going = [], mv_sent = [], mv_cancelled = [], mv_dropped = [] \<rparr>"

inductive moving_run :: "moving \<Rightarrow> bool" where
  start: "moving_run nothing_scheduled"
| scheduled: "moving_run M \<Longrightarrow> moving_run (M\<lparr> mv_next := mv_next M + length (scheduled_rows function w due (mv_next M)),
                                            mv_table := mv_table M @ scheduled_rows function w due (mv_next M) \<rparr>)"
| claimed: "\<lbrakk> moving_run M; r \<in> set (mv_table M); claim_row moment worker until (sr_id r) (mv_table M) = (True, table) \<rbrakk>
    \<Longrightarrow> moving_run (M\<lparr> mv_table := table, mv_hands := stamp moment worker until r # mv_hands M \<rparr>)"
| published: "\<lbrakk> moving_run M; mine \<in> set (mv_hands M) \<rbrakk>
    \<Longrightarrow> moving_run (M\<lparr> mv_hands := remove1 mine (mv_hands M), mv_going := mine # mv_going M, mv_sent := sr_id mine # mv_sent M \<rparr>)"
| deleted: "\<lbrakk> moving_run M; mine \<in> set (mv_going M) \<rbrakk>
    \<Longrightarrow> moving_run (M\<lparr> mv_going := remove1 mine (mv_going M), mv_table := delete_row (sr_id mine) (mv_table M) \<rparr>)"
| failed: "\<lbrakk> moving_run M; mine \<in> set (mv_hands M); failed_publish attempts mine now (mv_table M) = (events, table) \<rbrakk>
    \<Longrightarrow> moving_run (M\<lparr> mv_hands := remove1 mine (mv_hands M), mv_table := table,
          mv_dropped := map (\<lambda>e. (sr_id mine, e)) events @ mv_dropped M \<rparr>)"
| late: "\<lbrakk> moving_run M; mine \<in> set (mv_hands M); drop_late grace mine now (mv_table M) = (events, table) \<rbrakk>
    \<Longrightarrow> moving_run (M\<lparr> mv_hands := remove1 mine (mv_hands M), mv_table := table,
          mv_dropped := map (\<lambda>e. (sr_id mine, e)) events @ mv_dropped M \<rparr>)"
| cancelled: "\<lbrakk> moving_run M; cancel moment correlation (mv_table M) = (n, table) \<rbrakk>
    \<Longrightarrow> moving_run (M\<lparr> mv_table := table,
          mv_cancelled := map sr_id (filter (\<lambda>r. unheld moment r \<and> sr_correlation_id r = correlation) (mv_table M)) @ mv_cancelled M \<rparr>)"
| died: "\<lbrakk> moving_run M; set hands \<subseteq> set (mv_hands M); set going \<subseteq> set (mv_going M) \<rbrakk>
    \<Longrightarrow> moving_run (M\<lparr> mv_hands := hands, mv_going := going \<rparr>)"

section \<open>Nothing scheduled is lost\<close>

text \<open>What each statement does to the identities in the table.\<close>

abbreviation ids :: "srow list \<Rightarrow> nat list" where
  "ids table \<equiv> map sr_id table"

lemma ids_claim_row: "claim_row moment worker until pk table = (took, table') \<Longrightarrow> ids table' = ids table"
  by (auto simp: claim_row_def stamp_def)

lemma ids_delete_row: "ids (delete_row pk table) = filter (\<lambda>i. i \<noteq> pk) (ids table)"
  by (simp add: delete_row_def filter_map o_def)

lemma ids_count_failure: "count_failure mine table = (failed, table') \<Longrightarrow> ids table' = ids table"
  by (auto simp: count_failure_def Let_def)

lemma ids_give_up_on:
  assumes "distinct (ids table)" and "give_up_on mine e table = (events, table')"
  shows "(events = [] \<and> table' = table) \<or>
         (events = [e] \<and> sr_id mine \<in> set (ids table) \<and> ids table' = filter (\<lambda>i. i \<noteq> sr_id mine) (ids table))"
proof (cases "list_ex (still_held_by mine) table")
  case True
  then obtain r where r: "r \<in> set table" "still_held_by mine r" by (auto simp: list_ex_iff)
  have only: "still_held_by mine x \<longleftrightarrow> sr_id x = sr_id mine" if "x \<in> set table" for x
  proof
    assume "sr_id x = sr_id mine"
    with r that assms(1) have "x = r" by (auto simp: still_held_by_def distinct_map inj_on_def)
    with r show "still_held_by mine x" by simp
  qed (simp add: still_held_by_def)
  have "filter (\<lambda>x. \<not> still_held_by mine x) table = filter (\<lambda>x. sr_id x \<noteq> sr_id mine) table"
    using only by (auto intro: filter_cong)
  moreover have "sr_id mine \<in> set (ids table)" using r by (auto simp: still_held_by_def image_iff intro: bexI [where x = r])
  ultimately show ?thesis using True assms(2) by (simp add: give_up_on_def filter_map o_def)
qed (use assms(2) in \<open>simp add: give_up_on_def\<close>)

definition judged :: "srow \<Rightarrow> srow list \<Rightarrow> event list \<Rightarrow> srow list \<Rightarrow> bool" where
  "judged mine table events table' \<longleftrightarrow>
     (events = [] \<and> ids table' = ids table) \<or>
     (\<exists>e. events = [e] \<and> sr_id mine \<in> set (ids table) \<and> ids table' = filter (\<lambda>i. i \<noteq> sr_id mine) (ids table))"

lemma judged_failed:
  assumes "distinct (ids table)" and "failed_publish attempts mine now table = (events, table')"
  shows "judged mine table events table'"
proof -
  obtain failed t where c: "count_failure mine table = (failed, t)" by (cases "count_failure mine table")
  note t = ids_count_failure [OF c]
  show ?thesis
  proof (cases "case failed of None \<Rightarrow> True | Some n \<Rightarrow> attempts = 0 \<or> n < attempts")
    case True
    with assms(2) c t show ?thesis by (auto simp: failed_publish_def judged_def split: option.splits if_splits)
  next
    case False
    then obtain n where n: "failed = Some n" "\<not> (attempts = 0 \<or> n < attempts)" by (auto split: option.splits)
    define e where "e = drop_event mine now ''TooManyAttempts'' n (''given up on after '' @ dec_nat n @ '' failed publishes'')
        [(''attempts'', PInt (int n))]"
    from n c assms(2) have "give_up_on mine e t = (events, table')" by (simp add: failed_publish_def e_def)
    with ids_give_up_on [of t mine e events table'] assms(1) t show ?thesis by (auto simp: judged_def)
  qed
qed

lemma judged_late:
  assumes "distinct (ids table)" and "drop_late grace mine now table = (events, table')"
  shows "judged mine table events table'"
  using ids_give_up_on [OF assms(1)] assms(2) by (fastforce simp: drop_late_def judged_def Let_def)

lemma scheduled_rows_ids:
  assumes "length (qw_payloads w) = length (qw_messages w)"
  shows "ids (scheduled_rows function w due n) = [n..<n + length (qw_messages w)]"
  using assms by (auto simp: scheduled_rows_def split_def o_def intro!: nth_equalityI)

lemma scheduled_rows_ids_prefix:
  "ids (scheduled_rows function w due n) = [n..<n + length (scheduled_rows function w due n)]"
  by (auto simp: scheduled_rows_def split_def o_def intro!: nth_equalityI)

text \<open>
  The invariant of every run, over the identities given out, in the table, sent, cancelled,
  dropped and published but not yet deleted.
\<close>

definition accounted_ids :: "nat \<Rightarrow> nat list \<Rightarrow> nat set \<Rightarrow> nat set \<Rightarrow> nat list \<Rightarrow> nat set \<Rightarrow> bool" where
  "accounted_ids n T S C D G \<longleftrightarrow>
     distinct T \<and> distinct D \<and> set T \<inter> set D = {} \<and> (\<forall>i \<in> set T \<union> set D. i < n) \<and>
     (\<forall>i < n. i \<in> set T \<union> S \<union> C \<union> set D) \<and> G \<subseteq> S"

lemma accounted_ids_scheduled:
  assumes "accounted_ids n T S C D G"
  shows "accounted_ids (n + k) (T @ [n..<n + k]) S C D G"
proof -
  have below: "i < n" if "i \<in> set T \<union> set D" for i using assms that by (simp add: accounted_ids_def)
  have "i \<in> set (T @ [n..<n + k]) \<union> S \<union> C \<union> set D" if "i < n + k" for i
  proof (cases "i < n")
    case True
    with assms have "i \<in> set T \<union> S \<union> C \<union> set D" unfolding accounted_ids_def by blast
    then show ?thesis by auto
  qed (use that in simp)
  moreover have "set (T @ [n..<n + k]) \<inter> set D = {}" "distinct (T @ [n..<n + k])"
    using assms below by (force simp: accounted_ids_def)+
  moreover have "i < n + k" if "i \<in> set (T @ [n..<n + k]) \<union> set D" for i using that below [of i] by auto
  ultimately show ?thesis using assms unfolding accounted_ids_def by blast
qed

lemma accounted_ids_dropped:
  "\<lbrakk> accounted_ids n T S C D G; i \<in> set T \<rbrakk> \<Longrightarrow> accounted_ids n (filter (\<lambda>j. j \<noteq> i) T) S C (i # D) G"
  by (auto simp: accounted_ids_def)

lemma accounted_ids_sent: "accounted_ids n T S C D G \<Longrightarrow> accounted_ids n T (insert i S) C D (insert i G)"
  by (auto simp: accounted_ids_def)

lemma accounted_ids_fewer:
  assumes "accounted_ids n T S C D G" and "distinct T'" and "set T' \<subseteq> set T" and "set T \<subseteq> set T' \<union> S \<union> X" and "G' \<subseteq> G"
  shows "accounted_ids n T' S (X \<union> C) D G'"
proof -
  have "i \<in> set T' \<union> S \<union> (X \<union> C) \<union> set D" if "i < n" for i
  proof -
    have "i \<in> set T \<union> S \<union> C \<union> set D" using assms(1) that unfolding accounted_ids_def by blast
    with assms(4) show ?thesis by blast
  qed
  moreover have "set T' \<inter> set D = {}" "\<forall>i \<in> set T' \<union> set D. i < n" "G' \<subseteq> S"
    using assms(1,3,5) unfolding accounted_ids_def by blast+
  ultimately show ?thesis using assms(1,2) unfolding accounted_ids_def by blast
qed

definition accounted :: "moving \<Rightarrow> bool" where
  "accounted M \<longleftrightarrow> accounted_ids (mv_next M) (ids (mv_table M)) (set (mv_sent M)) (set (mv_cancelled M))
                     (map fst (mv_dropped M)) (sr_id ` set (mv_going M))"

lemma accounted_distinct: "accounted M \<Longrightarrow> distinct (ids (mv_table M))"
  by (simp add: accounted_def accounted_ids_def)

lemma accounted_judged:
  assumes "accounted M" and "judged mine (mv_table M) events table"
  shows "accounted (M\<lparr> mv_hands := hands, mv_table := table, mv_dropped := map (\<lambda>e. (sr_id mine, e)) events @ mv_dropped M \<rparr>)"
  using assms accounted_ids_dropped [of "mv_next M" "ids (mv_table M)" _ _ _ _ "sr_id mine"]
  by (auto simp: accounted_def judged_def simp del: set_map)

lemma moving_run_accounted: "moving_run M \<Longrightarrow> accounted M"
proof (induction rule: moving_run.induct)
  case start
  then show ?case by (simp add: accounted_def accounted_ids_def nothing_scheduled_def)
next
  case (scheduled M fn w due)
  then show ?case
    using scheduled_rows_ids_prefix [of fn w due "mv_next M"] by (simp add: accounted_def accounted_ids_scheduled)
next
  case (claimed M r moment worker until table)
  with ids_claim_row [OF claimed.hyps(3)] show ?case by (simp add: accounted_def)
next
  case (published M mine)
  then show ?case by (simp add: accounted_def accounted_ids_sent)
next
  case (deleted M mine)
  then have "sr_id mine \<in> set (mv_sent M)" by (auto simp: accounted_def accounted_ids_def)
  then have "set (ids (mv_table M)) \<subseteq> set (ids (delete_row (sr_id mine) (mv_table M))) \<union> set (mv_sent M) \<union> {}"
    by (auto simp: delete_row_def)
  moreover have "set (ids (delete_row (sr_id mine) (mv_table M))) \<subseteq> set (ids (mv_table M))" by (auto simp: delete_row_def)
  moreover have "distinct (ids (delete_row (sr_id mine) (mv_table M)))"
    using accounted_distinct [OF deleted.IH] by (simp add: ids_delete_row)
  moreover have "sr_id ` set (remove1 mine (mv_going M)) \<subseteq> sr_id ` set (mv_going M)"
    by (rule image_mono) (rule set_remove1_subset)
  ultimately show ?case
    using accounted_ids_fewer [OF deleted.IH [unfolded accounted_def], of "ids (delete_row (sr_id mine) (mv_table M))" "{}"]
    by (simp add: accounted_def)
next
  case (failed M mine attempts now events table)
  show ?case by (rule accounted_judged [OF failed.IH judged_failed [OF accounted_distinct [OF failed.IH] failed.hyps(3)]])
next
  case (late M mine grace now events table)
  show ?case by (rule accounted_judged [OF late.IH judged_late [OF accounted_distinct [OF late.IH] late.hyps(3)]])
next
  case (cancelled M moment correlation n table)
  define gone where "gone = filter (\<lambda>r. unheld moment r \<and> sr_correlation_id r = correlation) (mv_table M)"
  have table: "table = filter (\<lambda>r. \<not> (unheld moment r \<and> sr_correlation_id r = correlation)) (mv_table M)"
    using cancelled.hyps(2) by (simp add: cancel_def)
  have "distinct (ids table)" using accounted_distinct [OF cancelled.IH] by (simp add: table distinct_map_filter)
  moreover have "set (ids table) \<subseteq> set (ids (mv_table M))" by (auto simp: table)
  moreover have "set (ids (mv_table M)) \<subseteq> set (ids table) \<union> set (mv_sent M) \<union> set (ids gone)" by (auto simp: table gone_def)
  ultimately show ?case
    using accounted_ids_fewer [OF cancelled.IH [unfolded accounted_def] _ _ _ order_refl] by (simp add: accounted_def flip: gone_def)
next
  case (died M hands going)
  have "sr_id ` set going \<subseteq> sr_id ` set (mv_going M)" using died.hyps(3) by (rule image_mono)
  with accounted_ids_fewer [OF died.IH [unfolded accounted_def], of "ids (mv_table M)" "{}"] accounted_distinct [OF died.IH] show ?case
    by (simp add: accounted_def)
qed

text \<open>No row the producer writes names its bot, and no statement of the mover sets it.\<close>

lemma moving_run_unnamed: "moving_run M \<Longrightarrow> \<forall>r \<in> set (mv_table M). sr_bot_id r = None"
proof (induction rule: moving_run.induct)
  case (failed M mine attempts now events table)
  have "count_failure mine (mv_table M) = (n, t) \<Longrightarrow> \<forall>r \<in> set t. sr_bot_id r = None" for n t
    using failed.IH by (auto simp: count_failure_def Let_def)
  with failed.hyps(3) show ?case by (auto simp: failed_publish_def give_up_on_def split: prod.splits option.splits if_splits)
qed (auto simp: nothing_scheduled_def scheduled_rows_def claim_row_def stamp_def delete_row_def drop_late_def give_up_on_def
       cancel_def Let_def split: if_splits)

lemma insert_by_due_set: "set (insert_by_due r rows) = insert r (set rows)"
  by (induction rows) auto

lemma order_by_due_set: "set (order_by_due rows) = set rows"
  by (induction rows) (auto simp: order_by_due_def insert_by_due_set)

section \<open>Claims on one row\<close>

text \<open>The claims that succeed, of a sequence of tries on one row by any movers, with what they were taken for.\<close>

fun wins :: "nat \<Rightarrow> (rat \<times> string \<times> int) list \<Rightarrow> srow list \<Rightarrow> (rat \<times> int) list" where
  "wins pk [] table = []"
| "wins pk ((moment, worker, lease) # tries) table =
     (let (took, table') = claim_row moment worker (lapses lease moment) pk table
      in (if took then (moment, lease) # wins pk tries table' else wins pk tries table'))"

text \<open>What the row says of the last claim that succeeded.\<close>

definition held_until :: "nat \<Rightarrow> rat \<times> int \<Rightarrow> srow list \<Rightarrow> bool" where
  "held_until pk w table \<longleftrightarrow>
     (\<forall>r \<in> set table. sr_id r = pk \<longrightarrow> sr_claimed_at r \<noteq> None \<and> sr_claimed_until r = lapses (snd w) (fst w))"

lemma claim_row_held:
  assumes "distinct (ids table)" and "claim_row moment worker (lapses lease moment) pk table = (True, table')"
  shows "held_until pk (moment, lease) table'"
proof -
  obtain r where r: "r \<in> set table" "sr_id r = pk" "unheld moment r" using assms(2) by (auto simp: claim_row_def list_ex_iff)
  have same: "x = r" if "x \<in> set table" "sr_id x = pk" for x
    using that r assms(1) by (auto simp: distinct_map inj_on_def)
  have table': "table' = map (\<lambda>r. if sr_id r = pk \<and> unheld moment r then stamp moment worker (lapses lease moment) r else r) table"
    using assms(2) by (simp add: claim_row_def)
  show ?thesis unfolding held_until_def
  proof (intro ballI impI)
    fix x assume "x \<in> set table'" "sr_id x = pk"
    then obtain y where y: "y \<in> set table"
      "x = (if sr_id y = pk \<and> unheld moment y then stamp moment worker (lapses lease moment) y else y)"
      by (auto simp: table')
    with \<open>sr_id x = pk\<close> have "sr_id y = pk" by (simp add: stamp_def split: if_splits)
    with same [OF y(1)] r have "unheld moment y" by simp
    with y \<open>sr_id y = pk\<close> have "x = stamp moment worker (lapses lease moment) y" by simp
    then show "sr_claimed_at x \<noteq> None \<and> sr_claimed_until x = lapses (snd (moment, lease)) (fst (moment, lease))"
      by (simp add: stamp_def)
  qed
qed

lemma claim_row_refused:
  assumes "claim_row moment worker until pk table = (False, table')"
  shows "table' = table"
proof -
  have "\<forall>r \<in> set table. \<not> (sr_id r = pk \<and> unheld moment r)" using assms by (simp add: claim_row_def list_ex_iff)
  then have "map (\<lambda>r. if sr_id r = pk \<and> unheld moment r then stamp moment worker until r else r) table = table"
    by (intro map_idI) auto
  with assms show ?thesis by (simp add: claim_row_def)
qed

lemma claim_row_after:
  assumes "held_until pk (m, l) table" and "claim_row moment worker until pk table = (True, table')"
  shows "0 < l \<and> m + of_int l \<le> moment"
proof -
  obtain r where "r \<in> set table" "sr_id r = pk" "unheld moment r" using assms(2) by (auto simp: claim_row_def list_ex_iff)
  with assms(1) show ?thesis by (auto simp: held_until_def unheld_def lapses_def split: if_splits)
qed

lemma wins_after:
  assumes "distinct (ids table)" and "held_until pk (m, l) table"
  shows "case wins pk tries table of [] \<Rightarrow> True | (m', l') # _ \<Rightarrow> 0 < l \<and> m + of_int l \<le> m'"
  using assms
proof (induction tries arbitrary: table)
  case (Cons t tries)
  obtain moment worker lease where t: "t = (moment, worker, lease)" by (cases t)
  obtain took table' where c: "claim_row moment worker (lapses lease moment) pk table = (took, table')"
    by (cases "claim_row moment worker (lapses lease moment) pk table")
  show ?case
  proof (cases took)
    case True
    with claim_row_after [OF Cons.prems(2)] c t show ?thesis by simp
  next
    case False
    then have "table' = table" using claim_row_refused [of moment worker _ pk table table'] c by simp
    with Cons.IH [OF Cons.prems] c t False show ?thesis by simp
  qed
qed simp

section \<open>Properties of scheduled sends\<close>


definition one_write :: queueing where
  "one_write = \<lparr> qw_payloads = [''p''], qw_messages = [(5, [(''chat_id'', PInt 7)])], qw_queued_at = 0, qw_details = [None], qw_bot_id = Some 7 \<rparr>"

definition one_scheduled :: moving where
  "one_scheduled = nothing_scheduled\<lparr> mv_next := mv_next nothing_scheduled + length (scheduled_rows ''send_message'' one_write 10 (mv_next nothing_scheduled)),
     mv_table := mv_table nothing_scheduled @ scheduled_rows ''send_message'' one_write 10 (mv_next nothing_scheduled) \<rparr>"

lemma one_scheduled_run: "moving_run one_scheduled"
  unfolding one_scheduled_def by (intro moving_run.scheduled moving_run.start)


text \<open>
  Claims on a row do not overlap: of any tries by any movers, each success after another comes
  no earlier than the moment the other's lease lapses, and a claim without a lease is never
  followed by another.
\<close>

theorem claims_do_not_overlap:
  assumes "distinct (ids table)"
  shows "sorted_wrt (\<lambda>(m, l) (m', l'). 0 < l \<and> m + of_int l \<le> m') (wins pk tries table)"
  using assms
proof (induction tries arbitrary: table)
  case (Cons t tries)
  obtain moment worker lease where t: "t = (moment, worker, lease)" by (cases t)
  obtain took table' where c: "claim_row moment worker (lapses lease moment) pk table = (took, table')"
    by (cases "claim_row moment worker (lapses lease moment) pk table")
  have d: "distinct (ids table')" using ids_claim_row [OF c] Cons.prems by simp
  note IH = Cons.IH [OF d]
  show ?case
  proof (cases took)
    case False
    with IH c t show ?thesis by simp
  next
    case True
    have "0 < lease \<and> moment + of_int lease \<le> m'" if won: "(m', l') \<in> set (wins pk tries table')" for m' l'
    proof -
      obtain m1 l1 rest where w: "wins pk tries table' = (m1, l1) # rest" using won by (cases "wins pk tries table'") auto
      have "0 < lease \<and> moment + of_int lease \<le> m1"
        using wins_after [OF d claim_row_held [OF Cons.prems], of moment worker lease pk tries] c True w by simp
      moreover have "m1 \<le> m'" if later: "(m', l') \<in> set rest"
      proof -
        have "0 < l1" "m1 + of_int l1 \<le> m'" using IH later by (auto simp: w)
        moreover from this(1) have "0 < (of_int l1 :: rat)" by simp
        ultimately show ?thesis by linarith
      qed
      ultimately show ?thesis using won w by fastforce
    qed
    with IH c t True show ?thesis by auto
  qed
qed simp

theorem claims_do_not_overlap_witness:
  "wins 0 [(10, ''a'', 300), (20, ''b'', 300), (310, ''b'', 300)] (mv_table one_scheduled) = [(10, 300), (310, 300)] \<and>
   sorted_wrt (\<lambda>(m, l) (m', l'). 0 < l \<and> m + of_int l \<le> m')
     (wins 0 [(10, ''a'', 300), (20, ''b'', 300), (310, ''b'', 300)] (mv_table one_scheduled))"
proof
  have "ids (mv_table one_scheduled) = [0]" by code_simp
  then show "sorted_wrt (\<lambda>(m, l) (m', l'). 0 < l \<and> m + of_int l \<le> m')
     (wins 0 [(10, ''a'', 300), (20, ''b'', 300), (310, ''b'', 300)] (mv_table one_scheduled))"
    by (intro claims_do_not_overlap) simp
qed code_simp

text \<open>
  C30. A mover told which bots to move for moves nothing: on every run no row of the table names a
  bot, because the rows a producer writes leave the column empty, and so no row is available to a
  mover that names any.
\<close>

theorem mover_for_named_bots_moves_nothing:
  assumes "moving_run M" and "bots \<noteq> []"
  shows "available limit bots moment (mv_table M) = [] \<and>
    (\<forall>publish active_log lease grace attempts worker.
       one_pass publish active_log limit lease grace attempts bots worker moment (mv_table M) = (0, [], [], mv_table M))"
proof -
  have "filter (\<lambda>r. unheld moment r \<and> sr_due_at r \<le> moment \<and>
      (bots \<noteq> [] \<longrightarrow> (case sr_bot_id r of None \<Rightarrow> False | Some b \<Rightarrow> b \<in> set bots))) (mv_table M) = []"
    using moving_run_unnamed [OF assms(1)] assms(2) by (auto simp: filter_empty_conv)
  then have "available limit bots moment (mv_table M) = []" by (simp add: available_def order_by_due_def)
  then show ?thesis by (simp add: one_pass_def claim_due_def)
qed

theorem mover_for_named_bots_moves_nothing_witness:
  "available 10 [7] 100 (mv_table one_scheduled) = [] \<and> available 10 [] 100 (mv_table one_scheduled) \<noteq> []"
proof
  show "available 10 [7] 100 (mv_table one_scheduled) = []"
    using mover_for_named_bots_moves_nothing [OF one_scheduled_run, of "[7]"] by simp
qed code_simp

end
