(* ===== verification/Enqueueing.thy ===== *)
theory Enqueueing
  imports Scheduling
begin

text \<open>
  The queueing half of the bot client, \<open>producer/client.py\<close>: which route a send takes, and how a
  single message and a fan-out are serialised, published, put into the schedule or handed to the
  caller's transaction.  The transport is an argument, \<open>pe_publish\<close>, with its state; so are the
  names of the API methods, the settings a call reads, the serializer and the clock, which is read
  once per batch.
\<close>

section \<open>What a call finds\<close>

text \<open>What waits for a commit: writes to the transport, or rows for the event log.\<close>

datatype work = PublishWrites string "queueing list" | RecordEvents "event list"

record 's penv =
  pe_methods :: "string \<Rightarrow> bool"
  pe_enabled :: bool
  pe_worker :: bool
  pe_broker :: "exn option"
  pe_publish :: "bytes list \<Rightarrow> 's \<Rightarrow> exn option \<times> 's"
  pe_dumps :: "pydict \<Rightarrow> exn + bytes"
  pe_described :: "(pydict \<Rightarrow> pydict) option"
  pe_log :: bool
  pe_clock :: "nat \<Rightarrow> rat"
  pe_raises :: bool
  pe_transactional :: bool
  pe_use_tz :: bool
  pe_bot :: "int option"
  pe_isoformat :: "rat \<Rightarrow> string"

record 's pstate =
  ps_broker :: 's
  ps_conn :: "work connection"
  ps_events :: "event list"
  ps_table :: "srow list"
  ps_next_id :: nat

text \<open>\<open>resolve_correlation_id\<close>; the context's identifier and a fresh one are arguments.\<close>

datatype supplied = NoIdentifier | AsUuid nat | AsText string

definition resolve_correlation_id :: "nat option \<Rightarrow> nat \<Rightarrow> supplied \<Rightarrow> exn + nat" where
  "resolve_correlation_id current minted given =
     (let inherited = (case current of Some i \<Rightarrow> i | None \<Rightarrow> minted)
      in case given of
           AsUuid i \<Rightarrow> Inr i
         | AsText s \<Rightarrow>
             if s = [] then Inr inherited
             else (case uuid_of_str s of
                     Some i \<Rightarrow> Inr i
                   | None \<Rightarrow> Inl (''ValueError'', ''correlation_id must be a UUID''))
         | NoIdentifier \<Rightarrow> Inr inherited)"

definition check_function :: "'s penv \<Rightarrow> string \<Rightarrow> exn option" where
  "check_function E function = (if pe_methods E function then None else Some (''UnknownApiMethodError'', function))"

definition accept_send :: "'s penv \<Rightarrow> nat option \<Rightarrow> nat \<Rightarrow> string \<Rightarrow> supplied \<Rightarrow> exn + nat \<times> bool" where
  "accept_send E current minted function given =
     (case check_function E function of
        Some e \<Rightarrow> Inl e
      | None \<Rightarrow>
          (case resolve_correlation_id current minted given of
             Inl e \<Rightarrow> Inl e
           | Inr i \<Rightarrow> Inr (i, pe_enabled E)))"

definition accept_bulk :: "'s penv \<Rightarrow> string \<Rightarrow> exn + bool" where
  "accept_bulk E function = (case check_function E function of Some e \<Rightarrow> Inl e | None \<Rightarrow> Inr (pe_enabled E))"

section \<open>Writing and committing\<close>

definition publish_one :: "'s penv \<Rightarrow> rat \<Rightarrow> string \<Rightarrow> queueing \<Rightarrow> 's pstate \<Rightarrow> exn option \<times> 's pstate" where
  "publish_one E now function w st =
     (case pe_publish E (qw_payloads w) (ps_broker st) of (raised, s) \<Rightarrow>
        (case publishing (pe_log E) now function w raised of (r, events) \<Rightarrow>
           (r, st\<lparr> ps_broker := s, ps_events := ps_events st @ events \<rparr>)))"

fun publish_writes :: "'s penv \<Rightarrow> rat \<Rightarrow> string \<Rightarrow> queueing list \<Rightarrow> 's pstate \<Rightarrow> exn option \<times> 's pstate" where
  "publish_writes E now function [] st = (None, st)"
| "publish_writes E now function (w # ws) st =
     (case publish_one E now function w st of
        (Some e, st1) \<Rightarrow> (Some e, st1)
      | (None, st1) \<Rightarrow> publish_writes E now function ws st1)"

text \<open>One hook of a commit; \<open>publish_after_commit\<close> swallows its failure unless told to raise.\<close>

fun run_work :: "'s penv \<Rightarrow> rat \<Rightarrow> work \<Rightarrow> 's pstate \<Rightarrow> exn option \<times> 's pstate" where
  "run_work E now (PublishWrites function ws) st =
     (case publish_writes E now function ws st of
        (Some e, st1) \<Rightarrow> (if pe_raises E then Some e else None, st1)
      | (None, st1) \<Rightarrow> (None, st1))"
| "run_work E now (RecordEvents events) st = (None, st\<lparr> ps_events := ps_events st @ events \<rparr>)"

text \<open>Django runs the hooks in order; one that raises takes those behind it with it.\<close>

fun run_hooks :: "'s penv \<Rightarrow> rat \<Rightarrow> work list \<Rightarrow> 's pstate \<Rightarrow> exn option \<times> 's pstate" where
  "run_hooks E now [] st = (None, st)"
| "run_hooks E now (h # hs) st =
     (case run_work E now h st of
        (Some e, st1) \<Rightarrow> (Some e, st1)
      | (None, st1) \<Rightarrow> run_hooks E now hs st1)"

definition closed :: "'s pstate \<Rightarrow> 's pstate" where
  "closed st = st\<lparr> ps_conn := (ps_conn st)\<lparr> cn_in_atomic_block := False, cn_hooks := [] \<rparr> \<rparr>"

definition commit_block :: "'s penv \<Rightarrow> rat \<Rightarrow> 's pstate \<Rightarrow> exn option \<times> 's pstate" where
  "commit_block E now st = run_hooks E now (cn_hooks (ps_conn st)) (closed st)"

definition deferred :: "'s penv \<Rightarrow> string \<Rightarrow> queueing list \<Rightarrow> 's pstate \<Rightarrow> bool \<times> 's pstate" where
  "deferred E function ws st =
     (case defer_write (pe_transactional E) (PublishWrites function ws) (ps_conn st) of
        (b, c) \<Rightarrow> (b, st\<lparr> ps_conn := c \<rparr>))"

definition schedule_write :: "'s penv \<Rightarrow> rat \<Rightarrow> string \<Rightarrow> queueing \<Rightarrow> rat \<Rightarrow> 's pstate \<Rightarrow> exn option \<times> 's pstate" where
  "schedule_write E now function w due st =
     (case schedule RecordEvents (pe_log E) function w due (pe_isoformat E due) now (ps_next_id st) (ps_conn st) (ps_table st) of
        (todo, c, table) \<Rightarrow>
          run_hooks E now todo (st\<lparr> ps_conn := c, ps_table := table, ps_next_id := ps_next_id st + length (qw_messages w) \<rparr>))"

section \<open>One message\<close>

definition enqueue ::
  "'s penv \<Rightarrow> nat option \<Rightarrow> nat \<Rightarrow> string \<Rightarrow> supplied \<Rightarrow> eta option \<Rightarrow> pydict \<Rightarrow> 's pstate \<Rightarrow> (exn + nat) \<times> 's pstate" where
  "enqueue E current minted function given eta kwargs st =
     (case accept_send E current minted function given of
        Inl e \<Rightarrow> (Inl e, st)
      | Inr (i, False) \<Rightarrow> (Inr i, st)
      | Inr (i, True) \<Rightarrow>
          (case eta of
             Some moment \<Rightarrow>
               (case due_moment (pe_use_tz E) moment of
                  Inl m \<Rightarrow> (Inl (''ImproperlyConfigured'', m), st)
                | Inr due \<Rightarrow>
                    (case serialise (pe_dumps E) (pe_described E) (pe_clock E 0) function [(i, kwargs)] (Some due) (pe_bot E) of
                       (Inl e, events) \<Rightarrow> (Inl e, st\<lparr> ps_events := ps_events st @ events \<rparr>)
                     | (Inr w, _) \<Rightarrow>
                         (case schedule_write E (pe_clock E 0) function w due st of
                            (Some e, st1) \<Rightarrow> (Inl e, st1)
                          | (None, st1) \<Rightarrow> (Inr i, st1))))
           | None \<Rightarrow>
               (case pe_broker E of
                  Some e \<Rightarrow> (Inl e, st)
                | None \<Rightarrow>
                    (case serialise (pe_dumps E) (pe_described E) (pe_clock E 0) function [(i, kwargs)] None (pe_bot E) of
                       (Inl e, events) \<Rightarrow> (Inl e, st\<lparr> ps_events := ps_events st @ events \<rparr>)
                     | (Inr w, _) \<Rightarrow>
                         (case deferred E function [w] st of
                            (True, st1) \<Rightarrow> (Inr i, st1)
                          | (False, st1) \<Rightarrow>
                              (case publish_one E (pe_clock E 0) function w st1 of
                                 (Some e, st2) \<Rightarrow> (Inl e, st2)
                               | (None, st2) \<Rightarrow> (Inr i, st2)))))))"

text \<open>
  \<open>send\<close>: the schedule before the worker's shortcut, which is \<open>direct\<close>; the checks made before
  the advice about the asynchronous twin are made again by \<open>enqueue\<close>.
\<close>

definition send ::
  "'s penv \<Rightarrow> (string \<Rightarrow> pydict \<Rightarrow> nat \<Rightarrow> 's pstate \<Rightarrow> (exn + nat) \<times> 's pstate) \<Rightarrow> nat option \<Rightarrow> nat \<Rightarrow> string \<Rightarrow> supplied
    \<Rightarrow> eta option \<Rightarrow> pydict \<Rightarrow> 's pstate \<Rightarrow> (exn + nat) \<times> 's pstate" where
  "send E direct current minted function given eta kwargs st =
     (case resolve_correlation_id current minted given of
        Inl e \<Rightarrow> (Inl e, st)
      | Inr i \<Rightarrow>
          if eta \<noteq> None then enqueue E current minted function (AsUuid i) eta kwargs st
          else if pe_worker E then direct function kwargs i st
          else if pe_enabled E \<and> check_function E function \<noteq> None then (Inl (the (check_function E function)), st)
          else if pe_enabled E \<and> pe_broker E \<noteq> None then (Inl (the (pe_broker E)), st)
          else enqueue E current minted function (AsUuid i) None kwargs st)"

section \<open>A fan-out\<close>

text \<open>
  How the batches of a fan-out are written: not at all, to the schedule, to the transport, or to
  the list the hook at a position reads when it runs.
\<close>

datatype writing = NotWriting | ToSchedule rat | ToBroker | ToHook nat

definition fill_hook :: "nat \<Rightarrow> string \<Rightarrow> queueing list \<Rightarrow> 's pstate \<Rightarrow> 's pstate" where
  "fill_hook n function ws st =
     st\<lparr> ps_conn := (ps_conn st)\<lparr> cn_hooks := (cn_hooks (ps_conn st))[n := PublishWrites function ws] \<rparr> \<rparr>"

definition write_batch_of ::
  "'s penv \<Rightarrow> writing \<Rightarrow> string \<Rightarrow> nat \<Rightarrow> message list \<Rightarrow> queueing list \<Rightarrow> 's pstate \<Rightarrow> (exn + queueing list) \<times> 's pstate" where
  "write_batch_of E mode function n chunk held st =
     (case mode of
        NotWriting \<Rightarrow> (Inr held, st)
      | ToSchedule due \<Rightarrow>
          (case serialise (pe_dumps E) (pe_described E) (pe_clock E n) function chunk (Some due) (pe_bot E) of
             (Inl e, events) \<Rightarrow> (Inl e, st\<lparr> ps_events := ps_events st @ events \<rparr>)
           | (Inr w, _) \<Rightarrow>
               (case schedule_write E (pe_clock E n) function w due st of
                  (Some e, st1) \<Rightarrow> (Inl e, st1)
                | (None, st1) \<Rightarrow> (Inr held, st1)))
      | _ \<Rightarrow>
          (case serialise (pe_dumps E) (pe_described E) (pe_clock E n) function chunk None (pe_bot E) of
             (Inl e, events) \<Rightarrow> (Inl e, st\<lparr> ps_events := ps_events st @ events \<rparr>)
           | (Inr w, _) \<Rightarrow>
               (case mode of
                  ToHook h \<Rightarrow> (Inr (held @ [w]), fill_hook h function (held @ [w]) st)
                | _ \<Rightarrow>
                    (case publish_one E (pe_clock E n) function w st of
                       (Some e, st1) \<Rightarrow> (Inl e, st1)
                     | (None, st1) \<Rightarrow> (Inr held, st1)))))"

fun write_batches ::
  "'s penv \<Rightarrow> writing \<Rightarrow> string \<Rightarrow> nat \<Rightarrow> message list list \<Rightarrow> queueing list \<Rightarrow> 's pstate \<Rightarrow> exn option \<times> 's pstate" where
  "write_batches E mode function n [] held st = (None, st)"
| "write_batches E mode function n (chunk # rest) held st =
     (case write_batch_of E mode function n chunk held st of
        (Inl e, st1) \<Rightarrow> (Some e, st1)
      | (Inr held1, st1) \<Rightarrow> write_batches E mode function (Suc n) rest held1 st1)"

definition send_many ::
  "'s penv \<Rightarrow> (nat \<times> pyval) list \<Rightarrow> string \<Rightarrow> int \<Rightarrow> eta option \<Rightarrow> pydict \<Rightarrow> 's pstate \<Rightarrow> (exn + nat list) \<times> 's pstate" where
  "send_many E chats function chunk_size eta kwargs st =
     (let batches = chunks chunk_size kwargs chats;
          answered = (\<lambda>r. case r of (Some e, st1) \<Rightarrow> (Inl e, st1) | (None, st1) \<Rightarrow> (Inr (map fst (concat batches)), st1))
      in case accept_bulk E function of
           Inl e \<Rightarrow> (Inl e, st)
         | Inr False \<Rightarrow> answered (write_batches E NotWriting function 0 batches [] st)
         | Inr True \<Rightarrow>
             (case eta of
                Some moment \<Rightarrow>
                  (case due_moment (pe_use_tz E) moment of
                     Inl m \<Rightarrow> (Inl (''ImproperlyConfigured'', m), st)
                   | Inr due \<Rightarrow> answered (write_batches E (ToSchedule due) function 0 batches [] st))
              | None \<Rightarrow>
                  (case pe_broker E of
                     Some e \<Rightarrow> (Inl e, st)
                   | None \<Rightarrow>
                       (case deferred E function [] st of
                          (True, st1) \<Rightarrow> answered (write_batches E (ToHook (length (cn_hooks (ps_conn st)))) function 0 batches [] st1)
                        | (False, st1) \<Rightarrow> answered (write_batches E ToBroker function 0 batches [] st1)))))"

section \<open>A fan-out inside a transaction\<close>

text \<open>The batches a fan-out gets serialised before the first that fails.\<close>

fun serialised :: "'s penv \<Rightarrow> string \<Rightarrow> nat \<Rightarrow> message list list \<Rightarrow> queueing list" where
  "serialised E function n [] = []"
| "serialised E function n (chunk # rest) =
     (case serialise (pe_dumps E) (pe_described E) (pe_clock E n) function chunk None (pe_bot E) of
        (Inl e, _) \<Rightarrow> []
      | (Inr w, _) \<Rightarrow> w # serialised E function (Suc n) rest)"

lemma publish_one_broker:
  assumes "ps_broker st = ps_broker st'"
  shows "fst (publish_one E now function w st) = fst (publish_one E now' function w st')"
    and "ps_broker (snd (publish_one E now function w st)) = ps_broker (snd (publish_one E now' function w st'))"
  using assms by (auto simp: publish_one_def publishing_def split: prod.splits option.splits if_splits)

lemma publish_one_transactional [simp]:
  "publish_one (E\<lparr> pe_transactional := b \<rparr>) now function w st = publish_one E now function w st"
  by (simp add: publish_one_def)

lemma publish_writes_same:
  "ps_broker st = ps_broker st' \<Longrightarrow>
     fst (publish_writes E now function ws st) = fst (publish_writes E now' function ws st') \<and>
     ps_broker (snd (publish_writes E now function ws st)) = ps_broker (snd (publish_writes E now' function ws st'))"
proof (induction ws arbitrary: st st')
  case (Cons w ws)
  obtain r1 s1 r2 s2 where p: "publish_one E now function w st = (r1, s1)" "publish_one E now' function w st' = (r2, s2)"
    by (meson surj_pair)
  with publish_one_broker [OF Cons.prems, of E now "function" w now'] have eq: "r1 = r2" "ps_broker s1 = ps_broker s2" by simp_all
  then show ?case using Cons.IH [OF eq(2)] p by (auto split: option.splits)
qed simp

lemmas publish_writes_broker = publish_writes_same [THEN conjunct1] publish_writes_same [THEN conjunct2]

lemma run_work_same:
  assumes "ps_broker st = ps_broker st'"
  shows "fst (run_work E now h st) = fst (run_work E now h st') \<and>
         ps_broker (snd (run_work E now h st)) = ps_broker (snd (run_work E now h st'))"
proof (cases h)
  case (PublishWrites f ws)
  then show ?thesis using publish_writes_broker [OF assms, of E now f ws now]
    by (auto split: prod.splits option.splits)
qed (use assms in simp)

lemma run_hooks_same:
  "ps_broker st = ps_broker st' \<Longrightarrow>
     fst (run_hooks E now hs st) = fst (run_hooks E now hs st') \<and>
     ps_broker (snd (run_hooks E now hs st)) = ps_broker (snd (run_hooks E now hs st'))"
proof (induction hs arbitrary: st st')
  case (Cons h hs)
  obtain r s s' where p: "run_work E now h st = (r, s)" "run_work E now h st' = (r, s')"
    using run_work_same [OF Cons.prems, of E now h] by (metis prod.collapse)
  with run_work_same [OF Cons.prems, of E now h] have b: "ps_broker s = ps_broker s'" by simp
  then show ?case using Cons.IH [OF b] p by (auto split: option.splits)
qed simp

lemmas run_hooks_broker = run_hooks_same [THEN conjunct1] run_hooks_same [THEN conjunct2]

lemma run_hooks_append:
  "run_hooks E now (hs @ hs') st =
     (case run_hooks E now hs st of (Some e, st1) \<Rightarrow> (Some e, st1) | (None, st1) \<Rightarrow> run_hooks E now hs' st1)"
  by (induction hs arbitrary: st) (auto split: prod.splits option.splits)

lemma write_batches_to_broker:
  "ps_broker (snd (write_batches (E\<lparr> pe_transactional := b \<rparr>) ToBroker function n batches held st)) =
   ps_broker (snd (publish_writes E now function (serialised E function n batches) st))"
proof (induction batches arbitrary: n st)
  case (Cons chunk rest)
  show ?case
  proof (cases "serialise (pe_dumps E) (pe_described E) (pe_clock E n) function chunk None (pe_bot E)")
    case (Pair r events)
    show ?thesis
    proof (cases r)
      case (Inr w)
      obtain r1 s1 r2 s2 where p: "publish_one E (pe_clock E n) function w st = (r1, s1)" "publish_one E now function w st = (r2, s2)"
        by (meson surj_pair)
      with publish_one_broker [OF refl, of E "pe_clock E n" "function" w st now] have eq: "r1 = r2" "ps_broker s1 = ps_broker s2"
        by simp_all
      show ?thesis
      proof (cases r1)
        case None
        have "ps_broker (snd (write_batches (E\<lparr> pe_transactional := b \<rparr>) ToBroker function n (chunk # rest) held st)) =
              ps_broker (snd (publish_writes E now function (serialised E function (Suc n) rest) s1))"
          using Pair Inr p None Cons.IH [of "Suc n" s1] by (simp add: write_batch_of_def)
        also have "\<dots> = ps_broker (snd (publish_writes E now function (serialised E function (Suc n) rest) s2))"
          using publish_writes_broker(2) [OF eq(2)] .
        finally show ?thesis using Pair Inr p None eq by simp
      qed (use Pair Inr p eq in \<open>simp add: write_batch_of_def\<close>)
    qed (use Pair in \<open>simp add: write_batch_of_def\<close>)
  qed
qed simp

lemma write_batches_to_hook:
  "cn_hooks (ps_conn st) = hs @ [PublishWrites function held] \<Longrightarrow>
     ps_broker (snd (write_batches E (ToHook (length hs)) function n batches held st)) = ps_broker st \<and>
     cn_hooks (ps_conn (snd (write_batches E (ToHook (length hs)) function n batches held st))) =
       hs @ [PublishWrites function (held @ serialised E function n batches)]"
proof (induction batches arbitrary: n held st)
  case (Cons chunk rest)
  obtain r events where s: "serialise (pe_dumps E) (pe_described E) (pe_clock E n) function chunk None (pe_bot E) = (r, events)"
    by fastforce
  show ?case
  proof (cases r)
    case (Inr w)
    define st1 where "st1 = fill_hook (length hs) function (held @ [w]) st"
    have "cn_hooks (ps_conn st1) = hs @ [PublishWrites function (held @ [w])]" "ps_broker st1 = ps_broker st"
      using Cons.prems by (simp_all add: st1_def fill_hook_def)
    with Cons.IH [of st1 "held @ [w]" "Suc n"] s Inr show ?thesis
      by (simp add: write_batch_of_def flip: st1_def)
  qed (use s Cons.prems in \<open>simp add: write_batch_of_def\<close>)
qed simp

lemma fan_out_waits_in_the_hook:
  assumes "pe_transactional E" "cn_in_atomic_block (ps_conn st)" "cn_commit_on_exit (ps_conn st)"
    and "pe_methods E function" "pe_enabled E" "pe_broker E = None"
  shows "ps_broker (snd (send_many E chats function chunk_size None kwargs st)) = ps_broker st"
    and "cn_hooks (ps_conn (snd (send_many E chats function chunk_size None kwargs st))) =
         cn_hooks (ps_conn st) @ [PublishWrites function (serialised E function 0 (chunks chunk_size kwargs chats))]"
proof -
  define st1 where "st1 = snd (deferred E function [] st)"
  have d: "deferred E function [] st = (True, st1)" and st1: "ps_broker st1 = ps_broker st"
    "cn_hooks (ps_conn st1) = cn_hooks (ps_conn st) @ [PublishWrites function []]"
    using assms by (simp_all add: st1_def deferred_def defer_write_def will_commit_def)
  note written = write_batches_to_hook [OF st1(2), of E 0 "chunks chunk_size kwargs chats"]
  have "snd (send_many E chats function chunk_size None kwargs st) =
        snd (write_batches E (ToHook (length (cn_hooks (ps_conn st)))) function 0 (chunks chunk_size kwargs chats) [] st1)"
    using assms d by (simp add: send_many_def accept_bulk_def check_function_def Let_def split: prod.splits option.splits)
  with written st1(1) show "ps_broker (snd (send_many E chats function chunk_size None kwargs st)) = ps_broker st"
    and "cn_hooks (ps_conn (snd (send_many E chats function chunk_size None kwargs st))) =
         cn_hooks (ps_conn st) @ [PublishWrites function (serialised E function 0 (chunks chunk_size kwargs chats))]"
    by simp_all
qed

lemma fan_out_at_once:
  assumes "pe_methods E function" "pe_enabled E" "pe_broker E = None"
  shows "ps_broker (snd (send_many (E\<lparr> pe_transactional := False \<rparr>) chats function chunk_size None kwargs st)) =
         ps_broker (snd (publish_writes E now function (serialised E function 0 (chunks chunk_size kwargs chats)) st))"
proof -
  have "deferred (E\<lparr> pe_transactional := False \<rparr>) function [] st = (False, st)"
    by (simp add: deferred_def defer_write_def)
  then have "snd (send_many (E\<lparr> pe_transactional := False \<rparr>) chats function chunk_size None kwargs st) =
        snd (write_batches (E\<lparr> pe_transactional := False \<rparr>) ToBroker function 0 (chunks chunk_size kwargs chats) [] st)"
    using assms by (simp add: send_many_def accept_bulk_def check_function_def Let_def split: prod.splits option.splits)
  with write_batches_to_broker show ?thesis by metis
qed

lemma write_batches_idle: "snd (write_batches E NotWriting function n batches held st) = st"
  by (induction batches arbitrary: n held) (simp_all add: write_batch_of_def)

lemma fan_out_refused:
  assumes "\<not> (pe_methods E function \<and> pe_enabled E \<and> pe_broker E = None)"
  shows "snd (send_many E chats function chunk_size None kwargs st) = st"
proof -
  consider "\<not> pe_methods E function" | "pe_methods E function" "\<not> pe_enabled E"
    | e where "pe_methods E function" "pe_enabled E" "pe_broker E = Some e"
    using assms by auto
  then show ?thesis
  proof cases
    case 2
    then have "snd (send_many E chats function chunk_size None kwargs st) =
        snd (write_batches E NotWriting function 0 (chunks chunk_size kwargs chats) [] st)"
      by (simp add: send_many_def accept_bulk_def check_function_def Let_def split: prod.splits option.splits)
    then show ?thesis by (simp add: write_batches_idle)
  qed (simp_all add: send_many_def accept_bulk_def check_function_def Let_def)
qed

text \<open>
  C9. A fan-out made inside a transaction that will commit touches the transport only at the commit,
  and then leaves it exactly as the same fan-out made outside a transaction, right after whatever
  the block had already left for its commit; also where a batch does not serialise or the
  transport fails part of the way.
\<close>

theorem deferred_fan_out_is_the_immediate_one:
  assumes "pe_transactional E" "cn_in_atomic_block (ps_conn st)" "cn_commit_on_exit (ps_conn st)"
    and "commit_block E now st = (None, st0)"
    and "send_many E chats function chunk_size None kwargs st = (r, st1)"
  shows "ps_broker st1 = ps_broker st \<and>
         ps_broker (snd (commit_block E now st1)) =
         ps_broker (snd (send_many (E\<lparr> pe_transactional := False \<rparr>) chats function chunk_size None kwargs st0))"
proof (cases "pe_methods E function \<and> pe_enabled E \<and> pe_broker E = None")
  case True
  then have ok: "pe_methods E function" "pe_enabled E" "pe_broker E = None" by simp_all
  define held where "held = serialised E function 0 (chunks chunk_size kwargs chats)"
  note waits = fan_out_waits_in_the_hook [OF assms(1-3) ok, of chats chunk_size kwargs, unfolded assms(5) snd_conv, folded held_def]
  have broker: "ps_broker (closed st1) = ps_broker (closed st)" using waits by (simp add: closed_def)
  have before: "run_hooks E now (cn_hooks (ps_conn st)) (closed st) = (None, st0)"
    using assms(4) by (simp add: commit_block_def)
  obtain st0' where st0': "run_hooks E now (cn_hooks (ps_conn st)) (closed st1) = (None, st0')" "ps_broker st0' = ps_broker st0"
    using run_hooks_broker [OF broker, of E now "cn_hooks (ps_conn st)"] before
    by (metis eq_fst_iff eq_snd_iff fst_conv snd_conv)
  have "ps_broker (snd (commit_block E now st1)) = ps_broker (snd (publish_writes E now function held st0'))"
    using waits st0' by (simp add: commit_block_def run_hooks_append split: prod.splits option.splits)
  also have "\<dots> = ps_broker (snd (publish_writes E now function held st0))"
    by (rule publish_writes_broker(2) [OF st0'(2)])
  also have "\<dots> = ps_broker (snd (send_many (E\<lparr> pe_transactional := False \<rparr>) chats function chunk_size None kwargs st0))"
    unfolding held_def by (rule fan_out_at_once [OF ok, symmetric])
  finally show ?thesis using waits by simp
next
  case False
  then have "st1 = st" "snd (send_many (E\<lparr> pe_transactional := False \<rparr>) chats function chunk_size None kwargs st0) = st0"
    using fan_out_refused [of E "function" chats chunk_size kwargs st]
      fan_out_refused [of "E\<lparr> pe_transactional := False \<rparr>" "function" chats chunk_size kwargs st0] assms(5)
    by simp_all
  with assms(4) show ?thesis by simp
qed

definition list_env :: "bytes list penv" where
  "list_env = \<lparr> pe_methods = (\<lambda>f. f = ''send_message''), pe_enabled = True, pe_worker = False, pe_broker = None,
     pe_publish = (\<lambda>payloads s. (None, s @ payloads)), pe_dumps = (\<lambda>d. Inr ''bytes''), pe_described = None, pe_log = False,
     pe_clock = (\<lambda>_. 5), pe_raises = False, pe_transactional = True, pe_use_tz = True, pe_bot = None, pe_isoformat = (\<lambda>_. []) \<rparr>"

definition open_block :: "bytes list pstate" where
  "open_block = \<lparr> ps_broker = [''old''],
     ps_conn = \<lparr> cn_in_atomic_block = True, cn_commit_on_exit = True, cn_open = True, cn_autocommit = False,
       cn_hooks = [PublishWrites ''send_message''
         [\<lparr> qw_payloads = [''first''], qw_messages = [(1, [])], qw_queued_at = 0, qw_details = [None], qw_bot_id = None \<rparr>]],
       cn_mentioned = False \<rparr>,
     ps_events = [], ps_table = [], ps_next_id = 1 \<rparr>"

theorem deferred_fan_out_is_the_immediate_one_witness:
  "ps_broker (snd (commit_block list_env 9 (snd (send_many list_env [(1, PInt 7), (2, PInt 8), (3, PInt 9)] ''send_message'' 2 None [] open_block)))) =
     [''old'', ''first'', ''bytes'', ''bytes'', ''bytes'']"
proof -
  have block: "pe_transactional list_env" "cn_in_atomic_block (ps_conn open_block)" "cn_commit_on_exit (ps_conn open_block)"
    by (simp_all add: list_env_def open_block_def)
  have "fst (commit_block list_env 9 open_block) = None" by code_simp
  then have before: "commit_block list_env 9 open_block = (None, snd (commit_block list_env 9 open_block))"
    by (metis prod.collapse)
  have st0: "ps_broker (snd (commit_block list_env 9 open_block)) = [''old'', ''first'']" by code_simp
  have ok: "pe_methods list_env ''send_message''" "pe_enabled list_env" "pe_broker list_env = None"
    by (simp_all add: list_env_def)
  have "chunks 2 [] [(1, PInt 7), (2, PInt 8), (3, PInt 9)] =
          [[(1, dset ''chat_id'' (PInt 7) []), (2, dset ''chat_id'' (PInt 8) [])], [(3, dset ''chat_id'' (PInt 9) [])]]"
    by (simp add: chunks_def Let_def)
  then have "ps_broker (snd (send_many (list_env\<lparr> pe_transactional := False \<rparr>) [(1, PInt 7), (2, PInt 8), (3, PInt 9)]
          ''send_message'' 2 None [] (snd (commit_block list_env 9 open_block)))) = [''old'', ''first'', ''bytes'', ''bytes'', ''bytes'']"
    unfolding fan_out_at_once [OF ok, of _ _ _ _ 0]
    by (simp add: list_env_def serialise_def Let_def publish_one_def publishing_def st0 [unfolded list_env_def])
  with deferred_fan_out_is_the_immediate_one [OF block before prod.collapse [symmetric],
      of "[(1, PInt 7), (2, PInt 8), (3, PInt 9)]" "''send_message''" 2 "[]"]
  show ?thesis by simp
qed

end
