(* ===== verification/Sending.thy ===== *)
theory Sending
  imports Enqueueing
begin

text \<open>
  The sending half of the bot client, \<open>producer/client.py\<close>: the loop that makes a call and makes it
  again while Telegram asks for a wait, and the way a send reaches the event loop, is driven,
  handed over, refused, drained or canceled.  What Telegram answers is a feed of attempts; the
  threads are the steps of \<open>sender_run\<close>, whose grain is a section under one lock or one callback
  of the loop.  The settings a send reads do not change while it runs.
\<close>

section \<open>One send\<close>

record outbound =
  ob_id :: nat
  ob_function :: string
  ob_kwargs :: pydict
  ob_bot :: "int option"

text \<open>A result, by the identifiers it carries: one message, or a collection of them.\<close>

datatype result = OneMessage "int option" | Messages "int option list"

definition message_ids :: "result \<Rightarrow> int list option" where
  "message_ids r =
     (case r of
        OneMessage _ \<Rightarrow> None
      | Messages found \<Rightarrow> (let several = map the (filter (\<lambda>i. i \<noteq> None) found) in if several = [] then None else Some several))"

text \<open>
  How one attempt ends: a result, a request to wait (its seconds, its text, and whether the send
  is canceled in that sleep), any other exception, the limiter's included, or a cancellation.
\<close>

datatype reply = Answered result | AskedToWait int string bool | Broke exn | Interrupted

record attempt =
  at_began :: rat
  at_paced :: rat
  at_ended :: rat
  at_wall :: rat
  at_says :: reply

record sconf =
  sc_active :: bool
  sc_raises :: bool
  sc_max_retries :: int

definition ms :: "rat \<Rightarrow> int" where
  "ms seconds = (if 0 \<le> seconds then \<lfloor>seconds * 1000\<rfloor> else \<lceil>seconds * 1000\<rceil>)"

definition record_send ::
  "sconf \<Rightarrow> string \<Rightarrow> outbound \<Rightarrow> rat \<Rightarrow> nat \<Rightarrow> exn option \<Rightarrow> (string \<times> pyval) list \<Rightarrow> int option \<Rightarrow> int option \<Rightarrow> event list" where
  "record_send C kind ob now attempt error detail message duration =
     (if \<not> sc_active C then []
      else [(blank_event kind (ob_id ob) now)
              \<lparr> ev_bot_id := ob_bot ob, ev_function := ob_function ob, ev_chat_id := chat_of (ob_kwargs ob), ev_attempt := int attempt,
                ev_error_code := (case error of Some e \<Rightarrow> fst e | None \<Rightarrow> []),
                ev_error := (case error of Some e \<Rightarrow> snd e | None \<Rightarrow> []),
                ev_detail := Some (filter (\<lambda>(k, v). v \<noteq> PNone) detail), ev_message_id := message, ev_duration_ms := duration \<rparr>])"

definition sent_detail :: "rat \<Rightarrow> attempt \<Rightarrow> result \<Rightarrow> (string \<times> pyval) list" where
  "sent_detail queued a r =
     [(''paced_ms'', PInt (ms (at_paced a - at_began a))),
      (''queue_ms'', if queued \<noteq> 0 then PInt (ms (at_wall a - queued)) else PNone),
      (''message_ids'', case message_ids r of Some several \<Rightarrow> PList (map PInt several) | None \<Rightarrow> PNone)]"

datatype ending = Returned | Raised exn | Canceled

text \<open>
  The coroutine: the rows it records, how many attempts it made and how it ended.  \<open>gave_up\<close> is
  when the last wait was over.
\<close>

function send_attempts ::
  "sconf \<Rightarrow> outbound \<Rightarrow> rat \<Rightarrow> rat \<Rightarrow> (nat \<Rightarrow> attempt) \<Rightarrow> rat \<Rightarrow> nat \<Rightarrow> exn option \<Rightarrow> event list \<times> nat \<times> ending" where
  "send_attempts C ob queued started feed gave_up retries last_error =
     (if int retries \<le> sc_max_retries C then
        (let a = feed retries
         in case at_says a of
              Interrupted \<Rightarrow> ([], 1, Canceled)
            | AskedToWait seconds said stopped \<Rightarrow>
                (let row = record_send C ''outbound.retried'' ob (at_wall a) retries None [(''retry_after'', PInt seconds)] None None
                 in if stopped then (row, 1, Canceled)
                    else (case send_attempts C ob queued started feed gave_up (Suc retries) (Some (''TelegramRetryAfter'', said)) of
                            (rows, n, e) \<Rightarrow> (row @ rows, Suc n, e)))
            | Broke error \<Rightarrow>
                (record_send C ''outbound.failed'' ob (at_wall a) retries (Some error) [] None None, 1,
                 if sc_raises C then Raised error else Returned)
            | Answered r \<Rightarrow>
                (record_send C ''outbound.sent'' ob (at_wall a) retries None (sent_detail queued a r)
                   (case r of OneMessage i \<Rightarrow> i | Messages _ \<Rightarrow> None) (Some (ms (at_ended a - started))), 1, Returned))
      else
        (record_send C ''outbound.dropped'' ob gave_up retries last_error [(''max_retries'', PInt (sc_max_retries C))] None None, 0,
         case last_error of Some e \<Rightarrow> if sc_raises C then Raised e else Returned | None \<Rightarrow> Returned))"
  by pat_completeness auto
termination
  by (relation "measure (\<lambda>(C, ob, q, s, feed, g, retries, l). nat (sc_max_retries C + 1 - int retries))") auto

declare send_attempts.simps [simp del]

definition send_once :: "sconf \<Rightarrow> outbound \<Rightarrow> rat \<Rightarrow> rat \<Rightarrow> (nat \<Rightarrow> attempt) \<Rightarrow> rat \<Rightarrow> event list \<times> nat \<times> ending" where
  "send_once C ob queued started feed gave_up = send_attempts C ob queued started feed gave_up 0 None"

section \<open>The client's sends\<close>

text \<open>
  What became of a send, kept beside the client's own state: the callbacks it made are
  \<open>sr_calls\<close>.  A send waits for the lock of the loop it found, is a callback of the loop, is one of
  \<open>_sends\<close>, or has ended.  Loops are numbered; those before \<open>sr_loop\<close> are closed.
\<close>

datatype fate = Completed | Disabled | Dropped string | CanceledAtShutdown | CanceledElsewhere | Surfaced exn

datatype callback = OnComplete nat | OnRefused nat

record sender =
  sr_closing :: bool
  sr_draining :: bool
  sr_tearing_down :: bool
  sr_loop :: nat
  sr_waiting :: "(nat \<times> outbound \<times> nat) list"
  sr_ready :: "(nat \<times> outbound) list"
  sr_sends :: "(nat \<times> outbound) list"
  sr_calls :: "callback list"
  sr_events :: "event list"
  sr_ended :: "(nat \<times> outbound \<times> fate) list"
  sr_next :: nat

definition fresh_sender :: sender where
  "fresh_sender = \<lparr> sr_closing = False, sr_draining = False, sr_tearing_down = False, sr_loop = 0, sr_waiting = [], sr_ready = [],
     sr_sends = [], sr_calls = [], sr_events = [], sr_ended = [], sr_next = 0 \<rparr>"

definition drop_event :: "outbound \<Rightarrow> string \<Rightarrow> rat \<Rightarrow> event" where
  "drop_event ob reason now =
     (blank_event ''outbound.dropped'' (ob_id ob) now)
       \<lparr> ev_bot_id := ob_bot ob, ev_function := ob_function ob, ev_chat_id := chat_of (ob_kwargs ob),
         ev_error_code := ''NotScheduled'', ev_error := reason \<rparr>"

definition record_drop :: "outbound \<Rightarrow> string \<Rightarrow> rat \<Rightarrow> sender \<Rightarrow> sender" where
  "record_drop ob reason now st = st\<lparr> sr_events := sr_events st @ [drop_event ob reason now] \<rparr>"

definition settle :: "callback \<Rightarrow> sender \<Rightarrow> sender" where
  "settle c st = st\<lparr> sr_calls := sr_calls st @ [c] \<rparr>"

definition ended :: "nat \<Rightarrow> outbound \<Rightarrow> fate \<Rightarrow> sender \<Rightarrow> sender" where
  "ended n ob f st = st\<lparr> sr_ended := sr_ended st @ [(n, ob, f)] \<rparr>"

definition refuse :: "nat \<Rightarrow> outbound \<Rightarrow> string \<Rightarrow> rat \<Rightarrow> sender \<Rightarrow> sender" where
  "refuse n ob reason now st = ended n ob (Dropped reason) (settle (OnRefused n) (record_drop ob reason now st))"

definition register :: "nat \<Rightarrow> outbound \<Rightarrow> sender \<Rightarrow> sender" where
  "register n ob st = st\<lparr> sr_sends := sr_sends st @ [(n, ob)] \<rparr>"

text \<open>\<open>completion\<close>: a task that was canceled is not settled, any other is.\<close>

definition completion :: "nat \<Rightarrow> outbound \<Rightarrow> ending \<Rightarrow> sender \<Rightarrow> sender" where
  "completion n ob e st =
     (if e = Canceled then ended n ob CanceledElsewhere st else ended n ob Completed (settle (OnComplete n) st))"

text \<open>
  \<open>send_raw\<close> and the part of \<open>_schedule\<close> before its lock.  \<open>on_loop\<close>: the caller is on the
  client's own loop.
\<close>

record world =
  wo_methods :: "string \<Rightarrow> bool"
  wo_enabled :: bool
  wo_default_kwargs :: "string \<Rightarrow> pydict"
  wo_bot :: "int option"
  wo_current :: "nat option"
  wo_minted :: nat
  wo_now :: rat

definition send_raw :: "world \<Rightarrow> bool \<Rightarrow> string \<Rightarrow> supplied \<Rightarrow> pydict \<Rightarrow> sender \<Rightarrow> (exn + nat) \<times> sender" where
  "send_raw W on_loop function given kwargs st =
     (if \<not> wo_methods W function then (Inl (''UnknownApiMethodError'', function), st)
      else case resolve_correlation_id (wo_current W) (wo_minted W) given of
             Inl e \<Rightarrow> (Inl e, st)
           | Inr i \<Rightarrow>
               (let n = sr_next st;
                    ob = \<lparr> ob_id = i, ob_function = function, ob_kwargs = fold (\<lambda>(k, v). dset k v) kwargs (wo_default_kwargs W function), ob_bot = wo_bot W \<rparr>;
                    st1 = st\<lparr> sr_next := Suc n \<rparr>
                in (Inr i,
                    if \<not> wo_enabled W then ended n ob Disabled (settle (OnRefused n) st1)
                    else if sr_closing st then refuse n ob ''the bot is shutting down'' (wo_now W) st1
                    else if on_loop then register n ob st1
                    else st1\<lparr> sr_waiting := sr_waiting st1 @ [(n, ob, sr_loop st1)] \<rparr>)))"

text \<open>
  The rest of \<open>_schedule\<close>, under the lock of the loop the send found.  What the send finds there:
  whether the loop runs, whether its thread is alive, whether \<open>call_soon_threadsafe\<close> raises, and
  how driving the loop comes out, \<open>Taken\<close> being the loop that polling started in between.
\<close>

datatype drive = Drove "event list" ending | Taken

record found =
  fo_running :: bool
  fo_runner_alive :: bool
  fo_call_raises :: bool
  fo_drive :: drive
  fo_now :: rat

definition hand_off :: "found \<Rightarrow> nat \<Rightarrow> outbound \<Rightarrow> sender \<Rightarrow> sender" where
  "hand_off F n ob st =
     (if fo_call_raises F then refuse n ob ''the event loop is closed'' (fo_now F) st
      else st\<lparr> sr_ready := sr_ready st @ [(n, ob)] \<rparr>)"

definition under_lock :: "found \<Rightarrow> nat \<Rightarrow> outbound \<Rightarrow> nat \<Rightarrow> sender \<Rightarrow> sender" where
  "under_lock F n ob loop st0 =
     (let st = st0\<lparr> sr_waiting := remove1 (n, ob, loop) (sr_waiting st0) \<rparr>
      in if sr_closing st \<or> loop < sr_loop st then refuse n ob ''the event loop was closed'' (fo_now F) st
         else if fo_running F \<or> fo_runner_alive F then hand_off F n ob st
         else (case fo_drive F of
                 Taken \<Rightarrow> hand_off F n ob st
               | Drove events e \<Rightarrow>
                   (let st1 = st\<lparr> sr_events := sr_events st @ events \<rparr>
                    in case e of
                         Returned \<Rightarrow> ended n ob Completed (settle (OnComplete n) st1)
                       | Raised x \<Rightarrow> ended n ob (Surfaced x) st1
                       | Canceled \<Rightarrow> ended n ob CanceledElsewhere st1)))"

text \<open>\<open>start\<close>, one callback of the loop; and a task that is done.\<close>

definition start_send :: "rat \<Rightarrow> nat \<times> outbound \<Rightarrow> sender \<Rightarrow> sender" where
  "start_send now c st =
     (case c of (n, ob) \<Rightarrow>
        if sr_closing st \<and> \<not> sr_draining st then refuse n ob ''the bot started shutting down'' now st
        else register n ob st)"

definition next_callback :: "rat \<Rightarrow> sender \<Rightarrow> sender" where
  "next_callback now st =
     (case sr_ready st of [] \<Rightarrow> st | c # rest \<Rightarrow> start_send now c (st\<lparr> sr_ready := rest \<rparr>))"

definition task_done :: "nat \<times> outbound \<Rightarrow> event list \<Rightarrow> ending \<Rightarrow> sender \<Rightarrow> sender" where
  "task_done t events e st =
     (case t of (n, ob) \<Rightarrow>
        completion n ob e (st\<lparr> sr_sends := remove1 t (sr_sends st), sr_events := sr_events st @ events \<rparr>))"

section \<open>Closing\<close>

text \<open>
  \<open>close\<close>, by the parts other threads see: the two flags, raised one after the other; the turn of
  the loop that makes tasks of the callbacks; the end of the drain, which cancels what is left and
  closes the loop; and what the \<open>finally\<close> puts back.
\<close>

definition begin_draining :: "sender \<Rightarrow> sender" where
  "begin_draining st = st\<lparr> sr_draining := True \<rparr>"

definition begin_closing :: "sender \<Rightarrow> sender" where
  "begin_closing st = st\<lparr> sr_closing := True \<rparr>"

definition clear_flags :: "sender \<Rightarrow> sender" where
  "clear_flags st = st\<lparr> sr_closing := False, sr_draining := False, sr_tearing_down := False \<rparr>"

definition drain_turn :: "rat \<Rightarrow> sender \<Rightarrow> sender" where
  "drain_turn now st =
     (fold (start_send now) (sr_ready st) (st\<lparr> sr_tearing_down := True, sr_draining := True, sr_ready := [] \<rparr>))\<lparr> sr_draining := False \<rparr>"

definition cancel_send :: "rat \<Rightarrow> nat \<times> outbound \<Rightarrow> sender \<Rightarrow> sender" where
  "cancel_send now t st = (case t of (n, ob) \<Rightarrow> ended n ob CanceledAtShutdown (record_drop ob ''cancelled at shutdown'' now st))"

definition drain_end :: "rat \<Rightarrow> sender \<Rightarrow> sender" where
  "drain_end now st =
     (let st1 = fold (cancel_send now) (sr_sends st) (st\<lparr> sr_sends := [] \<rparr>)
      in clear_flags (st1\<lparr> sr_loop := Suc (sr_loop st1) \<rparr>))"

text \<open>
  The threads of a process, interleaved.  A section under the loop's lock waits for a teardown to
  let go of it; a skipped or failed close only puts the flags back.  One thread closes at a time.
\<close>

inductive sender_run :: "sender \<Rightarrow> bool" where
  fresh: "sender_run fresh_sender"
| sends: "sender_run st \<Longrightarrow> sender_run (snd (send_raw W on_loop function given kwargs st))"
| locked: "sender_run st \<Longrightarrow> \<not> sr_tearing_down st \<Longrightarrow> (n, ob, loop) \<in> set (sr_waiting st) \<Longrightarrow> sender_run (under_lock F n ob loop st)"
| callback: "sender_run st \<Longrightarrow> sender_run (next_callback now st)"
| finishes: "sender_run st \<Longrightarrow> t \<in> set (sr_sends st) \<Longrightarrow> sender_run (task_done t events e st)"
| draining: "sender_run st \<Longrightarrow> \<not> sr_tearing_down st \<Longrightarrow> sender_run (begin_draining st)"
| closing: "sender_run st \<Longrightarrow> \<not> sr_tearing_down st \<Longrightarrow> sender_run (begin_closing st)"
| stays_open: "sender_run st \<Longrightarrow> sender_run (clear_flags st)"
| turn: "sender_run st \<Longrightarrow> \<not> sr_tearing_down st \<Longrightarrow> sr_closing st \<Longrightarrow> sender_run (drain_turn now st)"
| closes: "sender_run st \<Longrightarrow> sr_tearing_down st \<Longrightarrow> sender_run (drain_end now st)"

section \<open>Properties of one send\<close>

definition terminal_kinds :: "string list" where
  "terminal_kinds = [''outbound.sent'', ''outbound.failed'', ''outbound.dropped'']"

text \<open>
  The rows of a send from an attempt on: its own, numbered one after the other, every one but the
  last a retry, and the last one naming the outcome unless the send was canceled.
\<close>

definition told :: "sconf \<Rightarrow> outbound \<Rightarrow> nat \<Rightarrow> event list \<Rightarrow> ending \<Rightarrow> bool" where
  "told C ob retries events e \<longleftrightarrow>
     (\<forall>ev \<in> set events. ev_correlation_id ev = ob_id ob \<and> ev_bot_id ev = ob_bot ob) \<and>
     map ev_attempt events = map int [retries..<retries + length events] \<and>
     (if e = Canceled then set (map ev_kind events) \<subseteq> {''outbound.retried''}
      else \<exists>n. \<exists>k \<in> set terminal_kinds. map ev_kind events = replicate n ''outbound.retried'' @ [k] \<and>
             (e = Returned \<or> sc_raises C \<and> k \<noteq> ''outbound.sent''))"

definition sends_row :: "outbound \<Rightarrow> string \<Rightarrow> nat \<Rightarrow> event \<Rightarrow> bool" where
  "sends_row ob kind n ev \<longleftrightarrow> ev_kind ev = kind \<and> ev_attempt ev = int n \<and> ev_correlation_id ev = ob_id ob \<and> ev_bot_id ev = ob_bot ob"

lemma record_send_row:
  assumes "sc_active C"
  shows "record_send C kind ob now n error detail message duration = [hd (record_send C kind ob now n error detail message duration)]"
    and "sends_row ob kind n (hd (record_send C kind ob now n error detail message duration))"
  using assms by (simp_all add: record_send_def blank_event_def sends_row_def)

lemma told_retried:
  assumes "told C ob (Suc n) events e" "sends_row ob ''outbound.retried'' n ev"
  shows "told C ob n (ev # events) e"
proof -
  have nums: "[n..<n + length (ev # events)] = n # [Suc n..<Suc n + length events]" by (simp add: upt_rec)
  show ?thesis
  proof (cases "e = Canceled")
    case False
    then obtain m k where "k \<in> set terminal_kinds" "map ev_kind events = replicate m ''outbound.retried'' @ [k]"
      "e = Returned \<or> sc_raises C \<and> k \<noteq> ''outbound.sent''"
      using assms(1) by (auto simp: told_def)
    then have "\<exists>m. \<exists>k \<in> set terminal_kinds. map ev_kind (ev # events) = replicate m ''outbound.retried'' @ [k] \<and>
        (e = Returned \<or> sc_raises C \<and> k \<noteq> ''outbound.sent'')"
      using assms(2) by (intro exI [of _ "Suc m"] bexI [of _ k]) (simp_all add: sends_row_def)
    with False assms nums show ?thesis unfolding told_def sends_row_def by simp
  qed (use assms nums in \<open>simp add: told_def sends_row_def\<close>)
qed

lemma told_terminal:
  assumes "sends_row ob k n ev" "k \<in> set terminal_kinds" "e = Returned \<or> sc_raises C \<and> k \<noteq> ''outbound.sent''" "e \<noteq> Canceled"
  shows "told C ob n [ev] e"
proof -
  have "\<exists>m. \<exists>k \<in> set terminal_kinds. map ev_kind [ev] = replicate m ''outbound.retried'' @ [k] \<and>
      (e = Returned \<or> sc_raises C \<and> k \<noteq> ''outbound.sent'')"
    using assms by (intro exI [of _ 0] bexI [of _ k]) (simp_all add: sends_row_def)
  with assms show ?thesis unfolding told_def sends_row_def by simp
qed

lemma told_nothing [simp]: "told C ob n [] Canceled"
  by (simp add: told_def)

lemma send_attempts_told:
  assumes "sc_active C"
  shows "send_attempts C ob q s feed g retries l = (events, calls, e) \<Longrightarrow>
           told C ob retries events e \<and> int calls \<le> max 0 (sc_max_retries C + 1 - int retries)"
proof (induction "nat (sc_max_retries C + 1 - int retries)" arbitrary: retries l events calls e rule: less_induct)
  case less
  note run = less.prems [unfolded send_attempts.simps [of C ob q s feed g retries l] Let_def]
  define ev where "ev kind now n error detail message duration = hd (record_send C kind ob now n error detail message duration)"
    for kind now n error detail message duration
  note sends_row = record_send_row [OF assms, where ob = ob, folded ev_def]
  show ?case
  proof (cases "int retries \<le> sc_max_retries C")
    case allowed: True
    show ?thesis
    proof (cases "at_says (feed retries)")
      case (AskedToWait seconds said stopped)
      show ?thesis
      proof (cases stopped)
        case False
        obtain rows n' where rest: "send_attempts C ob q s feed g (Suc retries) (Some (''TelegramRetryAfter'', said)) = (rows, n', e)"
          and this_one: "events = ev ''outbound.retried'' (at_wall (feed retries)) retries None [(''retry_after'', PInt seconds)] None None # rows"
            "calls = Suc n'"
          using run allowed AskedToWait False sends_row by (auto split: prod.splits)
        have smaller: "nat (sc_max_retries C + 1 - int (Suc retries)) < nat (sc_max_retries C + 1 - int retries)"
          using allowed by simp
        show ?thesis
          using less.hyps [OF smaller rest] told_retried sends_row(2) this_one allowed by auto
      qed (use run allowed AskedToWait sends_row(1) told_retried [OF told_nothing sends_row(2)] in auto)
    qed (use run allowed sends_row(1) in \<open>auto intro!: told_terminal [OF sends_row(2)] simp: terminal_kinds_def split: if_splits\<close>)
  qed (use run sends_row(1) in \<open>auto intro!: told_terminal [OF sends_row(2)] simp: terminal_kinds_def split: if_splits option.splits\<close>)
qed


definition busy_feed :: "nat \<Rightarrow> attempt" where
  "busy_feed n = \<lparr> at_began = 1, at_paced = 2, at_ended = 3, at_wall = 10,
     at_says = (if n < 2 then AskedToWait 5 ''Flood control'' False else Answered (OneMessage (Some 77))) \<rparr>"

definition some_send :: outbound where
  "some_send = \<lparr> ob_id = 6, ob_function = ''send_message'', ob_kwargs = [(''chat_id'', PInt 42)], ob_bot = Some 7 \<rparr>"


section \<open>Properties of the client\<close>

text \<open>Where each send is, by its number; and the callbacks of a fate.\<close>

definition placed :: "sender \<Rightarrow> nat multiset" where
  "placed st = mset (map fst (sr_waiting st)) + mset (map fst (sr_ready st)) + mset (map fst (sr_sends st)) + mset (map fst (sr_ended st))"

fun calls_of :: "nat \<times> outbound \<times> fate \<Rightarrow> callback list" where
  "calls_of (n, ob, Completed) = [OnComplete n]"
| "calls_of (n, ob, Disabled) = [OnRefused n]"
| "calls_of (n, ob, Dropped r) = [OnRefused n]"
| "calls_of (n, ob, f) = []"

fun explained :: "event list \<Rightarrow> nat \<times> outbound \<times> fate \<Rightarrow> bool" where
  "explained events (n, ob, Dropped r) = (\<exists>now. drop_event ob r now \<in> set events)"
| "explained events (n, ob, CanceledAtShutdown) = (\<exists>now. drop_event ob ''cancelled at shutdown'' now \<in> set events)"
| "explained events (n, ob, f) = True"

definition answered_for :: "sender \<Rightarrow> bool" where
  "answered_for st \<longleftrightarrow>
     sr_calls st = concat (map calls_of (sr_ended st)) \<and> list_all (explained (sr_events st)) (sr_ended st)"

definition orderly :: "sender \<Rightarrow> bool" where
  "orderly st \<longleftrightarrow>
     (sr_tearing_down st \<longrightarrow> sr_closing st \<and> \<not> sr_draining st \<and> sr_ready st = []) \<and>
     (\<forall>(n, ob, loop) \<in> set (sr_waiting st). loop \<le> sr_loop st)"

lemma remove1_placed:
  assumes "x \<in> set xs"
  shows "add_mset (f x) (mset (map f (remove1 x xs))) = mset (map f xs)"
  using assms by (metis image_mset_add_mset insert_DiffM mset_map mset_remove1 set_mset_mset)

lemma explained_append [simp]: "explained events x \<Longrightarrow> explained (events @ later) x"
  by (cases "(events, x)" rule: explained.cases) auto

lemma list_all_explained [simp]: "list_all (explained events) xs \<Longrightarrow> list_all (explained (events @ later)) xs"
  by (auto simp: list_all_iff)

lemmas sender_ops = settle_def ended_def record_drop_def refuse_def register_def

lemma placed_ops [simp]:
  "placed (settle c st) = placed st" "placed (record_drop ob r now st) = placed st"
  "placed (ended n ob f st) = add_mset n (placed st)" "placed (register n ob st) = add_mset n (placed st)"
  "placed (refuse n ob r now st) = add_mset n (placed st)"
  "placed (st\<lparr> sr_events := es \<rparr>) = placed st" "placed (st\<lparr> sr_closing := b \<rparr>) = placed st"
  "placed (st\<lparr> sr_draining := b \<rparr>) = placed st" "placed (st\<lparr> sr_tearing_down := b \<rparr>) = placed st"
  "placed (st\<lparr> sr_loop := l \<rparr>) = placed st" "placed (st\<lparr> sr_next := k \<rparr>) = placed st"
  by (simp_all add: placed_def sender_ops)

lemma answered_for_ops:
  "answered_for (st\<lparr> sr_events := sr_events st @ es \<rparr>)" "answered_for (st\<lparr> sr_waiting := w \<rparr>)"
  "answered_for (st\<lparr> sr_waiting := w, sr_events := sr_events st @ es \<rparr>)" "answered_for (st\<lparr> sr_ready := rd \<rparr>)"
  "answered_for (st\<lparr> sr_sends := ss \<rparr>)" "answered_for (st\<lparr> sr_sends := ss, sr_events := sr_events st @ es \<rparr>)" "answered_for (st\<lparr> sr_closing := b \<rparr>)" "answered_for (st\<lparr> sr_draining := b \<rparr>)"
  "answered_for (st\<lparr> sr_tearing_down := b \<rparr>)" "answered_for (st\<lparr> sr_loop := l \<rparr>)" "answered_for (st\<lparr> sr_next := k \<rparr>)"
  "answered_for (refuse n ob r now st)" "answered_for (register n ob st)"
  "answered_for (ended n ob Completed (settle (OnComplete n) st))" "answered_for (ended n ob Disabled (settle (OnRefused n) st))"
  "answered_for (ended n ob (Surfaced x) st)" "answered_for (ended n ob CanceledElsewhere st)" "answered_for (cancel_send now (n, ob) st)"
  if "answered_for st"
  using that by (auto simp: answered_for_def sender_ops cancel_send_def)

text \<open>The operations, each under the three parts of the invariant.\<close>

lemma send_raw_next:
  "placed (snd (send_raw W on_loop function given kwargs st)) =
     placed st + mset [sr_next st..<sr_next (snd (send_raw W on_loop function given kwargs st))]"
  by (simp add: send_raw_def Let_def sender_ops placed_def split: sum.splits)

lemma under_lock_placed:
  assumes "(n, ob, loop) \<in> set (sr_waiting st)"
  shows "placed (under_lock F n ob loop st) = placed st" "sr_next (under_lock F n ob loop st) = sr_next st"
proof -
  note gone = remove1_placed [OF assms, of fst]
  show "placed (under_lock F n ob loop st) = placed st"
    using gone by (auto simp: under_lock_def hand_off_def placed_def sender_ops Let_def split: drive.splits ending.splits)
  show "sr_next (under_lock F n ob loop st) = sr_next st"
    by (simp add: under_lock_def hand_off_def sender_ops Let_def split: drive.splits ending.splits)
qed

lemma start_send_placed [simp]:
  "placed (start_send now c st) = add_mset (fst c) (placed st)" "sr_next (start_send now c st) = sr_next st"
  by (simp_all add: start_send_def split: prod.splits) (simp add: sender_ops)

lemma next_callback_placed: "placed (next_callback now st) = placed st" "sr_next (next_callback now st) = sr_next st"
  by (simp_all add: next_callback_def split: list.splits) (simp add: placed_def)

lemma task_done_placed:
  assumes "t \<in> set (sr_sends st)"
  shows "placed (task_done t events e st) = placed st" "sr_next (task_done t events e st) = sr_next st"
  using remove1_placed [OF assms, of fst]
  by (auto simp: task_done_def completion_def sender_ops placed_def split: prod.splits)

lemma fold_start_send:
  "placed (fold (start_send now) cs st) = mset (map fst cs) + placed st" "sr_next (fold (start_send now) cs st) = sr_next st"
  by (induction cs arbitrary: st) simp_all

lemma fold_cancel_send:
  "placed (fold (cancel_send now) ts st) = mset (map fst ts) + placed st" "sr_next (fold (cancel_send now) ts st) = sr_next st"
  by (induction ts arbitrary: st) (auto simp: cancel_send_def sender_ops placed_def)

lemma drain_placed:
  "placed (drain_turn now st) = placed st" "sr_next (drain_turn now st) = sr_next st"
  "placed (drain_end now st) = placed st" "sr_next (drain_end now st) = sr_next st"
  by (simp_all add: drain_turn_def drain_end_def clear_flags_def fold_start_send fold_cancel_send Let_def)
    (simp_all add: placed_def)

lemma placed_fresh [simp]: "placed fresh_sender = {#}" "sr_next fresh_sender = 0"
  by (simp_all add: placed_def fresh_sender_def)

lemma run_places_every_send:
  "sender_run st \<Longrightarrow> placed st = mset [0..<sr_next st]"
proof (induction rule: sender_run.induct)
  case (sends st W on_loop "function" given kwargs)
  have "sr_next st \<le> sr_next (snd (send_raw W on_loop function given kwargs st))"
    by (simp add: send_raw_def Let_def sender_ops split: sum.splits)
  then show ?case
    unfolding send_raw_next sends.IH by (metis mset_append upt_add_eq_append le_add_diff_inverse zero_le)
qed (simp_all add: under_lock_placed next_callback_placed task_done_placed drain_placed begin_draining_def
    begin_closing_def clear_flags_def)

lemma fold_answered_for:
  assumes "\<And>c st. answered_for st \<Longrightarrow> answered_for (f c st)" "answered_for st"
  shows "answered_for (fold f cs st)"
  using assms(2) by (induction cs arbitrary: st) (simp_all add: assms(1))

lemma run_answered_for: "sender_run st \<Longrightarrow> answered_for st"
proof (induction rule: sender_run.induct)
  case fresh show ?case by (simp add: answered_for_def fresh_sender_def)
next
  case sends then show ?case by (auto simp: send_raw_def Let_def answered_for_ops split: sum.splits)
next
  case (locked st n ob loop F)
  then show ?case by (auto simp: under_lock_def hand_off_def Let_def intro!: answered_for_ops split: drive.splits ending.splits)
next
  case callback then show ?case by (auto simp: next_callback_def start_send_def answered_for_ops split: list.splits)
next
  case finishes
  then show ?case by (auto simp: task_done_def completion_def intro!: answered_for_ops split: prod.splits)
next
  case (turn st now)
  then show ?case unfolding drain_turn_def
    by (intro answered_for_ops fold_answered_for) (auto simp: start_send_def answered_for_ops split: prod.splits)
next
  case (closes st now)
  then show ?case unfolding drain_end_def Let_def clear_flags_def
    by (intro answered_for_ops fold_answered_for) (auto simp: answered_for_ops)
qed (auto simp: begin_draining_def begin_closing_def clear_flags_def answered_for_ops)

lemma sender_ops_frame [simp]:
  "sr_tearing_down (refuse n ob r now st) = sr_tearing_down st" "sr_closing (refuse n ob r now st) = sr_closing st"
  "sr_draining (refuse n ob r now st) = sr_draining st" "sr_ready (refuse n ob r now st) = sr_ready st"
  "sr_waiting (refuse n ob r now st) = sr_waiting st" "sr_loop (refuse n ob r now st) = sr_loop st"
  "sr_sends (refuse n ob r now st) = sr_sends st"
  by (simp_all add: sender_ops)

lemma start_send_frame [simp]:
  "sr_tearing_down (start_send now c st) = sr_tearing_down st" "sr_closing (start_send now c st) = sr_closing st"
  "sr_draining (start_send now c st) = sr_draining st" "sr_ready (start_send now c st) = sr_ready st"
  "sr_waiting (start_send now c st) = sr_waiting st" "sr_loop (start_send now c st) = sr_loop st"
  by (simp_all add: start_send_def register_def split: prod.splits)

lemma fold_start_send_frame [simp]:
  "sr_tearing_down (fold (start_send now) cs st) = sr_tearing_down st" "sr_closing (fold (start_send now) cs st) = sr_closing st"
  "sr_draining (fold (start_send now) cs st) = sr_draining st" "sr_ready (fold (start_send now) cs st) = sr_ready st"
  "sr_waiting (fold (start_send now) cs st) = sr_waiting st" "sr_loop (fold (start_send now) cs st) = sr_loop st"
  by (induction cs arbitrary: st) simp_all

lemma fold_cancel_send_frame [simp]:
  "sr_ready (fold (cancel_send now) ts st) = sr_ready st" "sr_waiting (fold (cancel_send now) ts st) = sr_waiting st"
  "sr_loop (fold (cancel_send now) ts st) = sr_loop st" "sr_sends (fold (cancel_send now) ts st) = sr_sends st"
  by (induction ts arbitrary: st) (auto simp: cancel_send_def sender_ops)

lemma run_orderly: "sender_run st \<Longrightarrow> orderly st"
proof (induction rule: sender_run.induct)
  case fresh show ?case by (simp add: orderly_def fresh_sender_def)
next
  case (sends st W on_loop "function" given kwargs)
  then show ?case by (auto simp: send_raw_def Let_def orderly_def sender_ops split: sum.splits)
next
  case (locked st n ob loop F)
  have "set (remove1 (n, ob, loop) (sr_waiting st)) \<subseteq> set (sr_waiting st)" by (rule set_remove1_subset)
  with locked show ?case
    by (auto simp: under_lock_def hand_off_def orderly_def Let_def sender_ops split: drive.splits ending.splits)
next
  case (callback st now)
  then show ?case by (auto simp: next_callback_def orderly_def split: list.splits)
next
  case (finishes st t events e)
  then show ?case by (auto simp: task_done_def completion_def orderly_def sender_ops split: prod.splits)
next
  case (turn st now)
  then show ?case by (auto simp: drain_turn_def orderly_def)
next
  case (closes st now)
  then show ?case by (force simp: drain_end_def clear_flags_def orderly_def Let_def)
qed (auto simp: begin_draining_def begin_closing_def clear_flags_def orderly_def)

fun send_of :: "callback \<Rightarrow> nat" where
  "send_of (OnComplete n) = n"
| "send_of (OnRefused n) = n"

lemma calls_of_ended:
  "set (map send_of (concat (map calls_of xs))) \<subseteq> set (map fst xs)"
  "distinct (map fst xs) \<Longrightarrow> distinct (map send_of (concat (map calls_of xs)))"
proof -
  have one: "calls_of x = [] \<or> (\<exists>c. calls_of x = [c] \<and> send_of c = fst x)" for x
    by (cases x rule: calls_of.cases) auto
  show sub: "set (map send_of (concat (map calls_of xs))) \<subseteq> set (map fst xs)" for xs
  proof (induction xs)
    case (Cons x xs) then show ?case using one [of x] by auto
  qed simp
  show "distinct (map fst xs) \<Longrightarrow> distinct (map send_of (concat (map calls_of xs)))"
  proof (induction xs)
    case (Cons x xs)
    then have "fst x \<notin> set (map send_of (concat (map calls_of xs)))" using sub [of xs] by auto
    with Cons one [of x] show ?case by auto
  qed simp
qed

text \<open>
  C7. However sends, the loop and a shutdown interleave, every send is at every moment in one place:
  waiting for the loop's lock, handed to the loop, in flight, or ended.  The consumer is called
  back at most once for a send, whether it completed or was refused, never for one that was
  canceled or is still on its way; and a send that was refused or canceled at shutdown has its row.
\<close>

theorem send_is_settled_at_most_once:
  assumes "sender_run st"
  shows "placed st = mset [0..<sr_next st] \<and> distinct (map send_of (sr_calls st)) \<and>
         sr_calls st = concat (map calls_of (sr_ended st)) \<and> list_all (explained (sr_events st)) (sr_ended st)"
proof -
  have places: "placed st = mset [0..<sr_next st]" by (rule run_places_every_send [OF assms])
  then have "mset (map fst (sr_waiting st) @ map fst (sr_ready st) @ map fst (sr_sends st) @ map fst (sr_ended st)) = mset [0..<sr_next st]"
    by (simp add: placed_def ac_simps)
  then have "distinct (map fst (sr_waiting st) @ map fst (sr_ready st) @ map fst (sr_sends st) @ map fst (sr_ended st))"
    by (metis distinct_upt mset_eq_imp_distinct_iff)
  then have "distinct (map fst (sr_ended st))" by simp
  with calls_of_ended(2) run_answered_for [OF assms] places show ?thesis by (auto simp: answered_for_def)
qed

definition quiet_world :: world where
  "quiet_world = \<lparr> wo_methods = (\<lambda>_. True), wo_enabled = True, wo_default_kwargs = (\<lambda>_. []), wo_bot = Some 7, wo_current = None,
     wo_minted = 6, wo_now = 3 \<rparr>"

definition running_loop :: found where
  "running_loop = \<lparr> fo_running = True, fo_runner_alive = True, fo_call_raises = False, fo_drive = Taken, fo_now = 3 \<rparr>"

text \<open>One send handed over and one that waits for the lock, when the client is closed.\<close>

definition two_sends :: sender where
  "two_sends = snd (send_raw quiet_world False ''send_message'' NoIdentifier []
     (under_lock running_loop 0 \<lparr> ob_id = 6, ob_function = ''send_message'', ob_kwargs = [], ob_bot = Some 7 \<rparr> 0
       (snd (send_raw quiet_world False ''send_message'' NoIdentifier [] fresh_sender))))"

lemma two_sends_run: "sender_run two_sends"
  unfolding two_sends_def
  by (intro sender_run.sends sender_run.locked sender_run.fresh)
    (simp_all add: send_raw_def fresh_sender_def quiet_world_def resolve_correlation_id_def Let_def)

definition shut_down :: sender where
  "shut_down = drain_turn 4 (begin_closing (begin_draining two_sends))"

lemma shut_down_run: "sender_run shut_down" "sr_tearing_down shut_down"
proof -
  have open_still: "\<not> sr_tearing_down two_sends" by code_simp
  show "sender_run shut_down" unfolding shut_down_def
    by (intro sender_run.turn sender_run.closing sender_run.draining two_sends_run)
      (simp_all add: open_still begin_closing_def begin_draining_def)
  show "sr_tearing_down shut_down" by code_simp
qed

theorem send_is_settled_at_most_once_witness:
  "placed shut_down = mset [0..<2] \<and> distinct (map send_of (sr_calls (drain_end 5 shut_down)))"
proof -
  have "sr_next shut_down = 2" by code_simp
  with send_is_settled_at_most_once [OF shut_down_run(1)]
    send_is_settled_at_most_once [OF sender_run.closes [OF shut_down_run, of 5]] show ?thesis by metis
qed

text \<open>
  C11. Once a close has drained the loop and closed it, no send is left on the loop or among its tasks:
  each one ever made has ended, with a row for it where it was refused or canceled, or still waits
  for the lock of a loop that is closed by now, and will be refused there.
\<close>

theorem close_leaves_no_send_behind:
  assumes "sender_run st" "sr_tearing_down st"
  shows "sr_ready (drain_end now st) = [] \<and> sr_sends (drain_end now st) = [] \<and>
         mset (map fst (sr_waiting (drain_end now st))) + mset (map fst (sr_ended (drain_end now st))) = mset [0..<sr_next st] \<and>
         list_all (explained (sr_events (drain_end now st))) (sr_ended (drain_end now st)) \<and>
         (\<forall>(n, ob, loop) \<in> set (sr_waiting st). \<forall>F.
            sr_ended (under_lock F n ob loop (drain_end now st)) =
            sr_ended (drain_end now st) @ [(n, ob, Dropped ''the event loop was closed'')])"
proof -
  have order: "sr_ready st = []" "\<forall>(n, ob, loop) \<in> set (sr_waiting st). loop \<le> sr_loop st"
    using run_orderly [OF assms(1)] assms(2) by (simp_all add: orderly_def)
  have run: "sender_run (drain_end now st)" by (rule sender_run.closes [OF assms])
  have empty: "sr_ready (drain_end now st) = []" "sr_sends (drain_end now st) = []"
    using order(1) by (simp_all add: drain_end_def clear_flags_def Let_def)
  have loop: "sr_loop (drain_end now st) = Suc (sr_loop st)" by (simp add: drain_end_def clear_flags_def Let_def)
  have "mset (map fst (sr_waiting (drain_end now st))) + mset (map fst (sr_ended (drain_end now st))) = mset [0..<sr_next st]"
    using run_places_every_send [OF run] drain_placed empty by (simp add: placed_def)
  moreover have "list_all (explained (sr_events (drain_end now st))) (sr_ended (drain_end now st))"
    using run_answered_for [OF run] by (simp add: answered_for_def)
  moreover have "\<forall>(n, ob, loop) \<in> set (sr_waiting st). \<forall>F.
      sr_ended (under_lock F n ob loop (drain_end now st)) =
      sr_ended (drain_end now st) @ [(n, ob, Dropped ''the event loop was closed'')]"
    using order(2) loop by (fastforce simp: under_lock_def Let_def sender_ops)
  ultimately show ?thesis using empty by blast
qed

theorem close_leaves_no_send_behind_witness:
  "sr_sends (drain_end 5 shut_down) = [] \<and> map (\<lambda>(n, ob, f). (n, f)) (sr_ended (drain_end 5 shut_down)) = [(0, CanceledAtShutdown)]"
proof -
  have "map (\<lambda>(n, ob, f). (n, f)) (sr_ended (drain_end 5 shut_down)) = [(0, CanceledAtShutdown)]" by code_simp
  with close_leaves_no_send_behind [OF shut_down_run, of 5] show ?thesis by blast
qed

end
