(* ===== verification/Settings.thy ===== *)
theory Settings
  imports Texts
begin

text \<open>
  How the package and each bot get their settings: \<open>config/settings.py\<close>,
  \<open>config/bots.py\<close> and the table of \<open>config/defaults.py\<close>.  The environment is a map
  from variable names to texts, the project's settings are Python values, and every
  \<open>ImproperlyConfigured\<close> is an error value.  The conversion of a text to a float is the
  argument \<open>py_text\<close> that the envelope reader has as well.
\<close>

declare dict_simps [simp]

type_synonym environ = "string \<Rightarrow> string option"

datatype config_error =
    NotABoolean string string
  | BooleanOfType string string
  | NotAnInteger string string
  | NotANumber string string
  | NotFinite string string
  | DefaultsOfType string
  | BotsOfType string
  | NotAnAlias string
  | SectionOfType string string
  | NoSuchBot string "string list"

section \<open>The table of defaults\<close>

text \<open>
  \<open>DEFAULTS\<close>, in its order.  A tuple is a list here: nothing that reads this table tells them
  apart.  The default of \<open>DEFAULT_KWARGS\<close> is a function.
\<close>

definition DEFAULTS :: pydict where
  "DEFAULTS =
    [(''ENABLED'', PBool True), (''TOKEN'', PStr []), (''REDIS_URL'', PStr []),
     (''AUTODISCOVER'', PBool True), (''MODULE_NAME'', PStr ''tg_router''),
     (''DELIVERY'', PStr ''django_aiogram.consumer.delivery.BlpopDelivery''),
     (''BROKER'', PStr ''django_aiogram.broker.redis_list.RedisListBroker''),
     (''SERIALIZER'', PStr ''json''), (''ALLOW_PICKLE'', PBool False),
     (''FSM_STORAGE'', PStr ''redis''), (''DEFAULT_BOT_PROPERTIES'', PDict []),
     (''DEFAULT_KWARGS'', PObj ''function''),
     (''RATE_LIMIT'', PDict [(''overall_per_second'', PInt 30), (''per_chat_per_second'', PInt 1), (''group_per_minute'', PInt 20)]),
     (''MAX_RETRIES'', PInt 10), (''RAISE_EXCEPTION'', PBool False), (''TRANSACTIONAL'', PBool False),
     (''WORKER_NAME'', PStr []), (''BLPOP_TIMEOUT'', PInt 5), (''DRAIN_TIMEOUT'', PFloat (Fin 5)),
     (''MAX_IN_FLIGHT'', PInt 0), (''REQUIRE_CRASH_SAFE'', PBool False), (''REDIS_TIMEOUT'', PInt 10),
     (''HEARTBEAT_INTERVAL'', PInt 10), (''HEALTHCHECK_MAX_QUEUE'', PInt 0), (''MODE'', PStr ''polling''),
     (''WEBHOOK_URL'', PStr []), (''WEBHOOK_SECRET'', PStr []), (''WEBHOOK_ALLOWED_UPDATES'', PList []),
     (''EVENT_LOG'', PBool False), (''EVENT_LOG_KINDS'', PList []), (''EVENT_LOG_PAYLOAD'', PStr ''summary''),
     (''EVENT_LOG_MAX_PAYLOAD_BYTES'', PInt 8192),
     (''EVENT_LOG_REDACT_KEYS'', PList [PStr ''token'', PStr ''secret'', PStr ''password'', PStr ''authorization'', PStr ''api_key'', PStr ''session'']),
     (''EVENT_LOG_BUFFER_SIZE'', PInt 1000), (''EVENT_LOG_BATCH_SIZE'', PInt 200),
     (''EVENT_LOG_FLUSH_INTERVAL'', PInt 1), (''EVENT_LOG_RETENTION_DAYS'', PInt 0),
     (''EVENT_LOG_DATABASE'', PStr []), (''EVENT_LOG_SYNC'', PBool False),
     (''MAX_IN_FLIGHT_PER_BOT'', PInt 0), (''QUEUE'', PStr []), (''REMOVED_QUEUE_POLICY'', PStr ''park''),
     (''METRICS_PER_BOT'', PBool False), (''TOKEN_STORAGE'', PStr ''django_aiogram.tokens.PlainTokenStorage''),
     (''TOKEN_ENCRYPTION_KEYS'', PList []), (''QUEUES'', PList []),
     (''BOT_PROVIDERS'', PList [PStr ''django_aiogram.runtime.providers.from_settings'']),
     (''BOT_REFRESH_INTERVAL'', PInt 30), (''MAX_BOTS_PER_WORKER'', PInt 0), (''BOT_LEASE_SECONDS'', PInt 90)]"

definition PROCESS_SCOPED :: "string list" where
  "PROCESS_SCOPED =
     [''AUTODISCOVER'', ''MODULE_NAME'', ''WORKER_NAME'', ''FSM_STORAGE'', ''BOT_PROVIDERS'', ''BOT_REFRESH_INTERVAL'',
      ''MAX_BOTS_PER_WORKER'', ''BOT_LEASE_SECONDS'', ''QUEUES'', ''REMOVED_QUEUE_POLICY'', ''METRICS_PER_BOT'',
      ''TOKEN_STORAGE'', ''TOKEN_ENCRYPTION_KEYS'']
     @ filter (\<lambda>key. take 9 key = ''EVENT_LOG'') (map fst DEFAULTS)"

section \<open>Reading the environment\<close>

definition parse_bool :: "string \<Rightarrow> string \<Rightarrow> config_error + bool" where
  "parse_bool value source =
     (let normalized = lower (strip_if is_space value)
      in if normalized \<in> {''1'', ''true'', ''yes'', ''on''} then Inr True
         else if normalized \<in> {''0'', ''false'', ''no'', ''off''} then Inr False
         else Inl (NotABoolean source value))"

definition coerce_bool :: "pyval \<Rightarrow> string \<Rightarrow> config_error + bool" where
  "coerce_bool value source =
     (case value of
        PBool b \<Rightarrow> Inr b
      | PInt n \<Rightarrow> Inr (n \<noteq> 0)
      | PStr s \<Rightarrow> parse_bool s source
      | _ \<Rightarrow> Inl (BooleanOfType source (type_name value)))"

definition ENV_PREFIX :: string where "ENV_PREFIX = ''DJANGO_AIOGRAM_''"

text \<open>\<open>from_env\<close>; \<open>None\<close> is the sentinel \<open>MISSING\<close>.\<close>

definition from_env :: "py_text \<Rightarrow> environ \<Rightarrow> string \<Rightarrow> pyval \<Rightarrow> string \<Rightarrow> config_error + pyval option" where
  "from_env T env key default_value prefix =
     (let name = prefix @ key
      in case env name of
           None \<Rightarrow> Inr None
         | Some raw \<Rightarrow>
             (case default_value of
                PBool _ \<Rightarrow> (case parse_bool raw name of Inl e \<Rightarrow> Inl e | Inr b \<Rightarrow> Inr (Some (PBool b)))
              | PInt _ \<Rightarrow> (case py_int raw of None \<Rightarrow> Inl (NotAnInteger name raw) | Some n \<Rightarrow> Inr (Some (PInt n)))
              | PFloat _ \<Rightarrow>
                  (case float_text T raw of
                     None \<Rightarrow> Inl (NotANumber name raw)
                   | Some (Fin q) \<Rightarrow> Inr (Some (PFloat (Fin q)))
                   | Some _ \<Rightarrow> Inl (NotFinite name raw))
              | PStr _ \<Rightarrow> Inr (Some (PStr raw))
              | _ \<Rightarrow> Inr None))"

section \<open>The settings of the process\<close>

text \<open>The loop over the table: the project's own value, else the environment's, else the default.\<close>

fun resolve_defaults :: "py_text \<Rightarrow> environ \<Rightarrow> pydict \<Rightarrow> pydict \<Rightarrow> pydict \<Rightarrow> config_error + pydict" where
  "resolve_defaults T env overrides [] resolved = Inr resolved"
| "resolve_defaults T env overrides ((key, default_value) # rest) resolved =
     (case map_of overrides key of
        Some value \<Rightarrow> resolve_defaults T env overrides rest (dset key value resolved)
      | None \<Rightarrow>
          (case from_env T env key default_value ENV_PREFIX of
             Inl e \<Rightarrow> Inl e
           | Inr None \<Rightarrow> resolve_defaults T env overrides rest resolved
           | Inr (Some value) \<Rightarrow> resolve_defaults T env overrides rest (dset key value resolved)))"

definition setdefault :: "string \<Rightarrow> pyval \<Rightarrow> pydict \<Rightarrow> pydict" where
  "setdefault key value d = (if dhas d key then d else dset key value d)"

definition resolve_settings :: "py_text \<Rightarrow> environ \<Rightarrow> pyval option \<Rightarrow> config_error + pydict" where
  "resolve_settings T env configured =
     (case (case configured of None \<Rightarrow> PDict [] | Some PNone \<Rightarrow> PDict [] | Some v \<Rightarrow> v) of
        PDict overrides \<Rightarrow>
          (case resolve_defaults T env overrides DEFAULTS DEFAULTS of
             Inl e \<Rightarrow> Inl e
           | Inr resolved \<Rightarrow> Inr (fold (\<lambda>(key, value). setdefault key value) overrides resolved))
      | v \<Rightarrow> Inl (DefaultsOfType (type_name v)))"

section \<open>The settings of a bot\<close>

text \<open>\<open>_TOKEN\<close> takes the digits before the first colon and anything without white space after it.\<close>

definition parse_bot_id :: "py_text \<Rightarrow> pyval \<Rightarrow> int option" where
  "parse_bot_id T token =
     (let s = strip_if is_space (if truthy token then py_str T token else []);
          digits = takeWhile (\<lambda>c. c \<noteq> CHR '':'') s;
          secret = drop (length digits + 1) s
      in if digits \<noteq> [] \<and> (\<forall>c \<in> set digits. is_digit c) \<and> secret \<noteq> [] \<and> \<not> (\<exists>c \<in> set secret. is_space c)
         then Some (int (dec_value digits)) else None)"

definition env_prefix :: "string \<Rightarrow> string" where
  "env_prefix alias = ENV_PREFIX @ map upper_char alias @ ''_''"

text \<open>\<open>_ALIAS\<close>.\<close>

definition alias_chars :: string where
  "alias_chars = ''abcdefghijklmnopqrstuvwxyz0123456789_''"

definition is_alias :: "string \<Rightarrow> bool" where
  "is_alias s = (s \<noteq> [] \<and> hd s \<noteq> CHR ''_'' \<and> (\<forall>c \<in> set s. c \<in> set alias_chars))"

record bot_record =
  bt_alias :: string
  bt_resolved :: pydict
  bt_origins :: "(string \<times> string) list"
  bt_declared :: bool
  bt_provided :: bool

definition record_bot_id :: "py_text \<Rightarrow> bot_record \<Rightarrow> int option" where
  "record_bot_id T r = parse_bot_id T (dget (bt_resolved r) ''TOKEN'' PNone)"

type_synonym layer = "string \<times> pydict"

definition quoted_key :: "string \<Rightarrow> string \<Rightarrow> string" where
  "quoted_key place key = place @ [CHR ''['', CHR 0x27] @ key @ [CHR 0x27, CHR '']'']"

fun resolve_env :: "py_text \<Rightarrow> environ \<Rightarrow> string \<Rightarrow> string list \<Rightarrow> pydict \<Rightarrow> pydict \<times> (string \<times> string) list
    \<Rightarrow> config_error + pydict \<times> (string \<times> string) list" where
  "resolve_env T env prefix spoken_for [] (resolved, origins) = Inr (resolved, origins)"
| "resolve_env T env prefix spoken_for ((key, default_value) # rest) (resolved, origins) =
     (if key \<in> set PROCESS_SCOPED \<or> key \<in> set spoken_for
      then resolve_env T env prefix spoken_for rest (resolved, origins)
      else (case from_env T env key default_value prefix of
              Inl e \<Rightarrow> Inl e
            | Inr None \<Rightarrow> resolve_env T env prefix spoken_for rest (resolved, origins)
            | Inr (Some value) \<Rightarrow>
                resolve_env T env prefix spoken_for rest (dset key value resolved, dset key (prefix @ key) origins)))"

definition apply_said :: "string \<Rightarrow> string \<times> pyval \<Rightarrow> pydict \<times> (string \<times> string) list \<Rightarrow> pydict \<times> (string \<times> string) list" where
  "apply_said place kv acc =
     (if fst kv \<in> set PROCESS_SCOPED then acc
      else (dset (fst kv) (snd kv) (fst acc), dset (fst kv) (quoted_key place (fst kv)) (snd acc)))"

definition apply_layer :: "layer \<Rightarrow> pydict \<times> (string \<times> string) list \<Rightarrow> pydict \<times> (string \<times> string) list" where
  "apply_layer l acc = fold (apply_said (fst l)) (snd l) acc"

definition resolve :: "py_text \<Rightarrow> environ \<Rightarrow> pydict \<Rightarrow> string \<Rightarrow> layer list \<Rightarrow> bool \<Rightarrow> bool \<Rightarrow> config_error + bot_record" where
  "resolve T env shared alias layers declared provided =
     (let spoken_for = concat (map (\<lambda>l. map fst (snd l)) layers)
      in case resolve_env T env (env_prefix alias) spoken_for DEFAULTS (shared, []) of
           Inl e \<Rightarrow> Inl e
         | Inr acc \<Rightarrow>
             (let (resolved, origins) = fold apply_layer layers acc
              in Inr \<lparr> bt_alias = alias, bt_resolved = resolved, bt_origins = origins,
                       bt_declared = declared, bt_provided = provided \<rparr>))"

definition BOTS_SETTINGS_NAME :: string where "BOTS_SETTINGS_NAME = ''TELEGRAM_BOTS''"
definition DEFAULT_ALIAS :: string where "DEFAULT_ALIAS = ''default''"

text \<open>\<open>sections\<close>; the keys of the setting are texts here, another key is refused as an alias as well.\<close>

fun check_sections :: "pydict \<Rightarrow> config_error option" where
  "check_sections [] = None"
| "check_sections ((alias, section) # rest) =
     (if \<not> is_alias alias then Some (NotAnAlias alias)
      else case section of
             PDict _ \<Rightarrow> check_sections rest
           | _ \<Rightarrow> Some (SectionOfType alias (type_name section)))"

definition sections :: "pyval option \<Rightarrow> config_error + pydict" where
  "sections raw =
     (case raw of
        None \<Rightarrow> Inr []
      | Some PNone \<Rightarrow> Inr []
      | Some (PDict d) \<Rightarrow> (case check_sections d of Some e \<Rightarrow> Inl e | None \<Rightarrow> Inr d)
      | Some v \<Rightarrow> Inl (BotsOfType (type_name v)))"

fun as_section :: "pyval \<Rightarrow> pydict" where
  "as_section (PDict d) = d"
| "as_section _ = []"

fun from_sections :: "py_text \<Rightarrow> environ \<Rightarrow> pydict \<Rightarrow> bool \<Rightarrow> pydict \<Rightarrow> config_error + bot_record list" where
  "from_sections T env shared declared [] = Inr []"
| "from_sections T env shared declared ((alias, section) # rest) =
     (case resolve T env shared alias [(quoted_key BOTS_SETTINGS_NAME alias, as_section section)] declared False of
        Inl e \<Rightarrow> Inl e
      | Inr r \<Rightarrow> (case from_sections T env shared declared rest of Inl e \<Rightarrow> Inl e | Inr rs \<Rightarrow> Inr (r # rs)))"

definition records :: "py_text \<Rightarrow> environ \<Rightarrow> pydict \<Rightarrow> pyval option \<Rightarrow> config_error + bot_record list" where
  "records T env shared raw =
     (case sections raw of
        Inl e \<Rightarrow> Inl e
      | Inr [] \<Rightarrow> from_sections T env shared False [(DEFAULT_ALIAS, PDict [])]
      | Inr declared_sections \<Rightarrow> from_sections T env shared True declared_sections)"

definition record_of :: "string \<Rightarrow> bot_record list \<Rightarrow> config_error + bot_record" where
  "record_of alias rs =
     (case filter (\<lambda>r. bt_alias r = alias) rs of
        r # _ \<Rightarrow> Inr r
      | [] \<Rightarrow> Inl (NoSuchBot alias (map bt_alias rs)))"

section \<open>The ceiling of a blocking take\<close>

record take_ceiling =
  tc_seconds :: int
  tc_bound_by :: "string list"

definition take_ceiling_of :: "string \<Rightarrow> rat \<Rightarrow> int \<Rightarrow> take_ceiling" where
  "take_ceiling_of deadline_option deadline heartbeat =
     (let limits = [(''HEARTBEAT_INTERVAL'', max 1 heartbeat), (deadline_option, max 1 (floor (max 1 deadline) - 1))];
          seconds = min (snd (limits ! 0)) (snd (limits ! 1))
      in \<lparr> tc_seconds = seconds, tc_bound_by = fromkeys (map fst (filter (\<lambda>l. snd l = seconds) limits)) \<rparr>)"

section \<open>What a bot's settings come to\<close>

text \<open>
  The reference: of the layers that say a setting the last one decides, below them the bot's own
  environment, below that the settings of the process; a setting of the process is the
  process's alone.
\<close>

definition said_by :: "layer list \<Rightarrow> string \<Rightarrow> pyval option" where
  "said_by layers key = fold (\<lambda>l acc. case map_of (snd l) key of None \<Rightarrow> acc | Some v \<Rightarrow> Some v) layers None"

definition own_env :: "py_text \<Rightarrow> environ \<Rightarrow> string \<Rightarrow> string \<Rightarrow> pyval option" where
  "own_env T env alias key =
     (case map_of DEFAULTS key of
        None \<Rightarrow> None
      | Some d \<Rightarrow> (case from_env T env key d (env_prefix alias) of Inr (Some v) \<Rightarrow> Some v | _ \<Rightarrow> None))"

definition bot_setting :: "py_text \<Rightarrow> environ \<Rightarrow> pydict \<Rightarrow> string \<Rightarrow> layer list \<Rightarrow> string \<Rightarrow> pyval option" where
  "bot_setting T env shared alias layers key =
     (if key \<in> set PROCESS_SCOPED then map_of shared key
      else case said_by layers key of
             Some v \<Rightarrow> Some v
           | None \<Rightarrow> (case own_env T env alias key of Some v \<Rightarrow> Some v | None \<Rightarrow> map_of shared key))"

lemma apply_said_other [simp]: "fst kv \<noteq> key \<or> fst kv \<in> set PROCESS_SCOPED \<Longrightarrow> map_of (fst (apply_said place kv acc)) key = map_of (fst acc) key"
  by (auto simp: apply_said_def update_conv')

lemma apply_said_same [simp]: "key \<notin> set PROCESS_SCOPED \<Longrightarrow> map_of (fst (apply_said place (key, v) acc)) key = Some v"
  by (simp add: apply_said_def update_conv')

lemma fold_said_other:
  assumes "key \<notin> set (map fst said) \<or> key \<in> set PROCESS_SCOPED"
  shows "map_of (fst (fold (apply_said place) said acc)) key = map_of (fst acc) key"
  using assms by (induction said arbitrary: acc) (auto simp: apply_said_def update_conv')

lemma fold_said:
  assumes "distinct (map fst said)" and "key \<notin> set PROCESS_SCOPED"
  shows "map_of (fst (fold (apply_said place) said acc)) key =
    (case map_of said key of None \<Rightarrow> map_of (fst acc) key | Some v \<Rightarrow> Some v)"
  using assms(1)
proof (induction said arbitrary: acc)
  case (Cons kv said)
  show ?case
  proof (cases "fst kv = key")
    case True
    with Cons.prems have "key \<notin> set (map fst said)" by auto
    with fold_said_other [of key said place "apply_said place kv acc"] True assms(2) show ?thesis
      by (cases kv) simp
  next
    case False
    with Cons show ?thesis by (cases kv) (auto split: option.splits)
  qed
qed simp

lemma fold_layers_scoped:
  assumes "key \<in> set PROCESS_SCOPED"
  shows "map_of (fst (fold apply_layer layers acc)) key = map_of (fst acc) key"
proof (induction layers arbitrary: acc)
  case (Cons l layers)
  with assms fold_said_other [of key "snd l" "fst l" acc] show ?case by (simp add: apply_layer_def)
qed simp

lemma said_by_fold:
  "fold (\<lambda>l acc. case map_of (snd l) key of None \<Rightarrow> acc | Some v \<Rightarrow> Some v) layers acc =
   (case said_by layers key of None \<Rightarrow> acc | Some v \<Rightarrow> Some v)"
proof (induction layers arbitrary: acc)
  case (Cons l layers)
  have "said_by (l # layers) key =
      (case said_by layers key of None \<Rightarrow> (case map_of (snd l) key of None \<Rightarrow> None | Some v \<Rightarrow> Some v) | Some v \<Rightarrow> Some v)"
    using Cons.IH [of "case map_of (snd l) key of None \<Rightarrow> None | Some v \<Rightarrow> Some v"] by (simp add: said_by_def [of "l # layers"])
  with Cons.IH [of "case map_of (snd l) key of None \<Rightarrow> acc | Some v \<Rightarrow> Some v"] show ?case by (simp split: option.splits)
qed (simp add: said_by_def)

lemma fold_layers:
  assumes "\<forall>l \<in> set layers. distinct (map fst (snd l))" and "key \<notin> set PROCESS_SCOPED"
  shows "map_of (fst (fold apply_layer layers acc)) key =
    (case said_by layers key of None \<Rightarrow> map_of (fst acc) key | Some v \<Rightarrow> Some v)"
  using assms(1)
proof (induction layers arbitrary: acc)
  case (Cons l layers)
  then have "map_of (fst (fold apply_layer layers (apply_layer l acc))) key =
      (case said_by layers key of None \<Rightarrow> map_of (fst (apply_layer l acc)) key | Some v \<Rightarrow> Some v)" by simp
  moreover have "map_of (fst (apply_layer l acc)) key = (case map_of (snd l) key of None \<Rightarrow> map_of (fst acc) key | Some v \<Rightarrow> Some v)"
    using fold_said [of "snd l" key "fst l" acc] Cons.prems assms(2) by (simp add: apply_layer_def)
  moreover have "said_by (l # layers) key =
      (case said_by layers key of None \<Rightarrow> (case map_of (snd l) key of None \<Rightarrow> None | Some v \<Rightarrow> Some v) | Some v \<Rightarrow> Some v)"
    using said_by_fold [of key layers "case map_of (snd l) key of None \<Rightarrow> None | Some v \<Rightarrow> Some v"]
    by (simp add: said_by_def)
  ultimately show ?case by (simp split: option.splits)
qed (simp add: said_by_def)

lemma resolve_env_lookup:
  assumes "resolve_env T env prefix spoken_for table acc = Inr acc'" and "distinct (map fst table)"
  shows "map_of (fst acc') key =
    (if key \<in> set PROCESS_SCOPED \<or> key \<in> set spoken_for then map_of (fst acc) key
     else case map_of table key of
            None \<Rightarrow> map_of (fst acc) key
          | Some d \<Rightarrow> (case from_env T env key d prefix of Inr (Some v) \<Rightarrow> Some v | _ \<Rightarrow> map_of (fst acc) key))"
  using assms
proof (induction T env prefix spoken_for table acc rule: resolve_env.induct)
  case (2 T env prefix spoken_for k d rest resolved origins)
  show ?case
  proof (cases "k \<in> set PROCESS_SCOPED \<or> k \<in> set spoken_for")
    case True
    with 2 show ?thesis by auto
  next
    case False
    with "2.prems"(1) obtain got where got: "from_env T env k d prefix = Inr got" by (auto split: sum.splits)
    have fresh: "key = k \<Longrightarrow> map_of rest key = None" using "2.prems"(2) by (simp add: map_of_eq_None_iff)
    show ?thesis
    proof (cases got)
      case None
      with "2.IH"(2) [OF False got None] "2.prems" False got fresh show ?thesis by auto
    next
      case (Some v)
      with "2.IH"(3) [OF False got Some] "2.prems" False got fresh show ?thesis
        by (cases "key = k") (simp_all add: update_conv' split: option.splits sum.splits)
    qed
  qed
qed simp

lemma defaults_distinct: "distinct (map fst DEFAULTS)"
  by code_simp

lemma said_by_None: "said_by layers key = None \<longleftrightarrow> key \<notin> set (concat (map (\<lambda>l. map fst (snd l)) layers))"
proof (induction layers rule: rev_induct)
  case (snoc l layers)
  have "said_by (layers @ [l]) key = (case map_of (snd l) key of None \<Rightarrow> said_by layers key | Some v \<Rightarrow> Some v)"
    by (simp add: said_by_def split: option.splits)
  moreover have "map_of (snd l) key = None \<longleftrightarrow> key \<notin> fst ` set (snd l)" by (simp add: map_of_eq_None_iff)
  ultimately show ?case using snoc by (cases "map_of (snd l) key") auto
qed (simp add: said_by_def)

lemma resolve_lookup:
  assumes "resolve T env shared alias layers declared provided = Inr r" and "\<forall>l \<in> set layers. distinct (map fst (snd l))"
  shows "map_of (bt_resolved r) key = bot_setting T env shared alias layers key"
proof -
  define spoken_for where "spoken_for = concat (map (\<lambda>l. map fst (snd l)) layers)"
  from assms(1) obtain acc where acc: "resolve_env T env (env_prefix alias) spoken_for DEFAULTS (shared, []) = Inr acc"
    and r: "bt_resolved r = fst (fold apply_layer layers acc)"
    by (auto simp: resolve_def spoken_for_def split: sum.splits prod.splits)
  note below = resolve_env_lookup [OF acc defaults_distinct, of key]
  show ?thesis
  proof (cases "key \<in> set PROCESS_SCOPED")
    case True
    with below show ?thesis by (simp add: r fold_layers_scoped bot_setting_def)
  next
    case False
    with fold_layers [OF assms(2) False] below said_by_None [of layers key] show ?thesis
      by (auto simp: r bot_setting_def own_env_def spoken_for_def split: option.splits sum.splits)
  qed
qed

lemma from_env_type:
  assumes "from_env T env key d prefix = Inr (Some v)"
  shows "type_name v = type_name d"
  using assms by (cases d) (auto simp: from_env_def Let_def split: option.splits sum.splits pyfloat.splits)

section \<open>Names of variables\<close>

lemma upper_char_inj: "inj_on upper_char (set alias_chars)"
proof -
  have "distinct (map upper_char alias_chars)" by code_simp
  then show ?thesis by (simp only: distinct_map)
qed

lemma upper_alias_inj:
  assumes "\<forall>c \<in> set a. c \<in> set alias_chars"
    and "\<forall>c \<in> set b. c \<in> set alias_chars" and "map upper_char a = map upper_char b"
  shows "a = b"
proof -
  have "inj_on upper_char (set a \<union> set b)" by (rule inj_on_subset [OF upper_char_inj]) (use assms(1,2) in blast)
  with assms(3) show ?thesis by (simp add: map_inj_on)
qed

text \<open>One name of the table is another one's end, after an underscore, in one case only.\<close>

lemma suffix_names:
  assumes "k \<in> set (map fst DEFAULTS)" and "k' \<in> set (map fst DEFAULTS)" and "k' = us @ CHR ''_'' # k"
  shows "k = ''QUEUE'' \<and> k' = ''HEALTHCHECK_MAX_QUEUE''"
proof -
  define K where "K = map fst DEFAULTS"
  have "list_all (\<lambda>k. list_all (\<lambda>k'. drop (length k' - Suc (length k)) k' = CHR ''_'' # k \<longrightarrow>
      k = ''QUEUE'' \<and> k' = ''HEALTHCHECK_MAX_QUEUE'') (map fst DEFAULTS)) (map fst DEFAULTS)" by code_simp
  then have "\<forall>k \<in> set K. \<forall>k' \<in> set K. drop (length k' - Suc (length k)) k' = CHR ''_'' # k \<longrightarrow>
      k = ''QUEUE'' \<and> k' = ''HEALTHCHECK_MAX_QUEUE''" by (simp only: list_all_iff K_def)
  moreover have "drop (length k' - Suc (length k)) k' = CHR ''_'' # k" using assms(3) by simp
  ultimately show ?thesis using assms(1,2) unfolding K_def by blast
qed

lemma same_end:
  assumes "A @ CHR ''_'' # k = B @ CHR ''_'' # k'" and "k \<in> set (map fst DEFAULTS)" and "k' \<in> set (map fst DEFAULTS)"
  shows "A = B \<and> k = k' \<or> A = B @ ''_HEALTHCHECK_MAX'' \<and> k = ''QUEUE'' \<and> k' = ''HEALTHCHECK_MAX_QUEUE'' \<or>
    B = A @ ''_HEALTHCHECK_MAX'' \<and> k' = ''QUEUE'' \<and> k = ''HEALTHCHECK_MAX_QUEUE''"
proof -
  have longer: "k = k' \<and> A' = B' \<or> A' = B' @ ''_HEALTHCHECK_MAX'' \<and> k = ''QUEUE'' \<and> k' = ''HEALTHCHECK_MAX_QUEUE''"
    if "A' = B' @ us" "us @ CHR ''_'' # k = CHR ''_'' # k'" "k \<in> set (map fst DEFAULTS)" "k' \<in> set (map fst DEFAULTS)"
    for A' B' us and k k' :: string
  proof (cases us)
    case Nil
    with that(1,2) show ?thesis by simp
  next
    case (Cons c us')
    with that(2) have c: "c = CHR ''_''" and k': "k' = us' @ CHR ''_'' # k" by auto
    have names: "k = ''QUEUE''" "k' = ''HEALTHCHECK_MAX_QUEUE''" using suffix_names [OF that(3,4) k'] by blast+
    have "us' = take (length k' - 6) k'" by (simp add: k' names(1))
    then have "us' = ''HEALTHCHECK_MAX''" by (simp add: names(2))
    with that(1) Cons c names show ?thesis by simp
  qed
  from assms(1) obtain us where "A = B @ us \<and> us @ CHR ''_'' # k = CHR ''_'' # k' \<or> A @ us = B \<and> CHR ''_'' # k = us @ CHR ''_'' # k'"
    by (auto simp: append_eq_append_conv2)
  then show ?thesis
  proof
    assume "A = B @ us \<and> us @ CHR ''_'' # k = CHR ''_'' # k'"
    with longer [of A B us k k'] assms(2,3) show ?thesis by blast
  next
    assume "A @ us = B \<and> CHR ''_'' # k = us @ CHR ''_'' # k'"
    then have "B = A @ us" "us @ CHR ''_'' # k' = CHR ''_'' # k" by auto
    with longer [of B A us k' k] assms(2,3) show ?thesis by blast
  qed
qed

section \<open>Properties of the settings\<close>


definition plain_text :: py_text where
  "plain_text = \<lparr> float_text = (\<lambda>_. None), str_of = (\<lambda>_. []) \<rparr>"

definition sample_env :: environ where
  "sample_env = [''DJANGO_AIOGRAM_SHOP_MAX_RETRIES'' \<mapsto> ''3'', ''DJANGO_AIOGRAM_SHOP_MODE'' \<mapsto> ''webhook'', ''DJANGO_AIOGRAM_SHOP_QUEUES'' \<mapsto> ''x'']"

definition sample_layers :: "layer list" where
  "sample_layers = [(''profile'', [(''MODE'', PStr ''polling''), (''QUEUE'', PStr ''slow'')]), (''row'', [(''QUEUE'', PStr ''vip''), (''WORKER_NAME'', PStr ''me'')])]"

definition sample_bot :: bot_record where
  "sample_bot = (case resolve plain_text sample_env DEFAULTS ''shop'' sample_layers True True of Inr r \<Rightarrow> r | Inl _ \<Rightarrow> undefined)"

lemma sample_resolves: "resolve plain_text sample_env DEFAULTS ''shop'' sample_layers True True = Inr sample_bot"
proof -
  have "\<not> isl (resolve plain_text sample_env DEFAULTS ''shop'' sample_layers True True)" by code_simp
  then show ?thesis by (cases "resolve plain_text sample_env DEFAULTS ''shop'' sample_layers True True") (simp_all add: sample_bot_def)
qed






text \<open>
  The cap on a blocking take is a whole second at least, no more than the heartbeat interval and
  one second inside the transport's deadline where those leave room, and it names the settings
  that decide it, each once.
\<close>

theorem take_ceiling_bounds:
  "1 \<le> tc_seconds (take_ceiling_of opt deadline heartbeat) \<and>
   tc_seconds (take_ceiling_of opt deadline heartbeat) \<le> max 1 heartbeat \<and>
   (2 \<le> deadline \<longrightarrow> of_int (tc_seconds (take_ceiling_of opt deadline heartbeat)) \<le> deadline - 1) \<and>
   tc_bound_by (take_ceiling_of opt deadline heartbeat) \<noteq> [] \<and> distinct (tc_bound_by (take_ceiling_of opt deadline heartbeat))"
  for deadline :: rat
proof -
  define limit where "limit = max 1 (floor (max 1 deadline) - 1)"
  have "(of_int limit :: rat) \<le> deadline - 1" if "2 \<le> deadline"
    using that of_int_floor_le [of deadline] by (auto simp: limit_def max_def le_floor_iff)
  moreover have "tc_seconds (take_ceiling_of opt deadline heartbeat) = min (max 1 heartbeat) limit"
    by (simp add: take_ceiling_of_def Let_def limit_def)
  moreover have "(of_int (min (max 1 heartbeat) limit) :: rat) \<le> of_int limit" by simp
  moreover have "1 \<le> limit" by (simp add: limit_def)
  moreover have "tc_bound_by (take_ceiling_of opt deadline heartbeat) \<noteq> [] \<and> distinct (tc_bound_by (take_ceiling_of opt deadline heartbeat))"
    by (auto simp: take_ceiling_of_def Let_def min_def distinct_fromkeys)
  ultimately show ?thesis by linarith
qed

end
