(* ===== verification/Webhook.thy ===== *)
theory Webhook
  imports Settings
begin

text \<open>
  Updates over HTTP: \<open>consumer/webhook.py\<close>, with the registry that turns a record into the bot
  object serving it (\<open>runtime/registry.py\<close>).  A bot object is represented by the record it was
  built from, since its settings are all the view reads of it.  Reading the body and constructing
  aiogram's own \<open>Bot\<close> are arguments; the records the providers answer are an argument as well,
  \<open>None\<close> where the read raised.  The clock readings of a request are arguments in the order the
  code takes them.
\<close>

section \<open>The bots of this process\<close>

text \<open>
  \<open>Bots._made\<close>.  A row's bot is kept under \<open>#\<close> and its identity, which no alias can be; the
  two kinds of key are two constructors here.
\<close>

datatype bot_key = ById "int option" | ByAlias string

type_synonym made = "(bot_key \<times> bot_record) list"

text \<open>\<open>TelegramBot.settings\<close>, of a bot built from a record and of the process's own.\<close>

definition bot_settings :: "bot_record list \<Rightarrow> bot_record \<Rightarrow> bot_record" where
  "bot_settings rs r =
     (if bt_provided r then r
      else case record_of (bt_alias r) rs of Inr found \<Rightarrow> found | Inl _ \<Rightarrow> r)"

definition own_settings :: "bot_record list \<Rightarrow> config_error + bot_record" where
  "own_settings rs = record_of DEFAULT_ALIAS rs"

definition key_of :: "py_text \<Rightarrow> bot_record \<Rightarrow> bot_key" where
  "key_of T found = (if bt_provided found then ById (record_bot_id T found) else ByAlias (bt_alias found))"

text \<open>\<open>for_record\<close>: the settings of the bot it answers, and the bots made so far.\<close>

definition for_record :: "py_text \<Rightarrow> bot_record list \<Rightarrow> bot_record \<Rightarrow> made \<Rightarrow> (config_error + bot_record) \<times> made" where
  "for_record T rs found made =
     (if \<not> bt_provided found \<and> bt_alias found = DEFAULT_ALIAS then (own_settings rs, made)
      else (let key = key_of T found
            in case map_of made key of
                 None \<Rightarrow> (Inr (bot_settings rs found), dset key found made)
               | Some held \<Rightarrow>
                   if bt_provided found then (Inr (bot_settings rs found), dset key found made)
                   else (Inr (bot_settings rs held), made)))"

section \<open>Which bots are served\<close>

record wcache =
  wc_served :: "(int \<times> bot_record) list"
  wc_read_at :: "rat option"

definition MISS_GRACE :: rat where "MISS_GRACE = 1"

text \<open>
  \<open>_cache_for\<close>, as a float that is never \<open>nan\<close>.  An integer beyond the range of a double
  raises out of it.
\<close>

definition cache_for :: "py_text \<Rightarrow> pyval \<Rightarrow> env_error + pyfloat" where
  "cache_for T value =
     (let bounded = (\<lambda>x. case x of Fin q \<Rightarrow> Fin (max 1 q) | PosInf \<Rightarrow> PosInf | _ \<Rightarrow> Fin 1)
      in case value of
           PInt n \<Rightarrow> if float_limit \<le> \<bar>n\<bar> then Inl FloatOverflowError else Inr (bounded (Fin (of_int n)))
         | PBool b \<Rightarrow> Inr (Fin 1)
         | PFloat x \<Rightarrow> Inr (bounded x)
         | PStr s \<Rightarrow> (case float_text T s of Some x \<Rightarrow> Inr (bounded x) | None \<Rightarrow> Inr (Fin 30))
         | PBytes s \<Rightarrow> (case float_text T s of Some x \<Rightarrow> Inr (bounded x) | None \<Rightarrow> Inr (Fin 30))
         | _ \<Rightarrow> Inr (Fin 30))"

definition fresh_enough :: "pyfloat \<Rightarrow> bool \<Rightarrow> rat \<Rightarrow> wcache \<Rightarrow> bool" where
  "fresh_enough interval refresh now c =
     (case wc_read_at c of
        None \<Rightarrow> False
      | Some t \<Rightarrow> if refresh then now - t < MISS_GRACE
                  else (case interval of Fin q \<Rightarrow> now - t < q | _ \<Rightarrow> True))"

definition by_identity :: "py_text \<Rightarrow> bot_record list \<Rightarrow> (int \<times> bot_record) list" where
  "by_identity T found =
     fold (\<lambda>r d. case record_bot_id T r of None \<Rightarrow> d | Some b \<Rightarrow> dset b r d) found []"

text \<open>The part of \<open>served_records\<close> under the lock: it re-checks, stamps, and reads.\<close>

definition read_locked :: "py_text \<Rightarrow> pyfloat \<Rightarrow> bool \<Rightarrow> rat \<Rightarrow> rat \<Rightarrow> bot_record list option \<Rightarrow> wcache \<Rightarrow> wcache" where
  "read_locked T interval refresh checked stamped desired c =
     (if fresh_enough interval refresh checked c then c
      else \<lparr> wc_served = (case desired of None \<Rightarrow> wc_served c | Some found \<Rightarrow> by_identity T found),
             wc_read_at = Some stamped \<rparr>)"

text \<open>
  One call's view of the world: its three readings of the clock, what other requests did to the
  cache between its first look and the lock, and what the providers would answer.
\<close>

record look =
  lk_first :: rat
  lk_checked :: rat
  lk_stamped :: rat
  lk_others :: "wcache \<Rightarrow> wcache"
  lk_desired :: "bot_record list option"

definition served_records :: "py_text \<Rightarrow> pyfloat \<Rightarrow> bool \<Rightarrow> look \<Rightarrow> wcache \<Rightarrow> wcache" where
  "served_records T interval refresh l c =
     (if fresh_enough interval refresh (lk_first l) c then c
      else read_locked T interval refresh (lk_checked l) (lk_stamped l) (lk_desired l) (lk_others l c))"

text \<open>A record is a mapping, and an empty one is false.\<close>

definition get_served :: "int \<Rightarrow> wcache \<Rightarrow> bot_record option" where
  "get_served b c =
     (case map_of (wc_served c) b of Some r \<Rightarrow> if bt_resolved r = [] then None else Some r | None \<Rightarrow> None)"

definition forget_served :: "string \<Rightarrow> wcache \<Rightarrow> wcache" where
  "forget_served setting c =
     (if setting \<in> {''TELEGRAM_BOT_DEFAULTS'', BOTS_SETTINGS_NAME} then \<lparr> wc_served = [], wc_read_at = None \<rparr> else c)"

section \<open>The guards of a request\<close>

datatype wh_error = NoSecret | NoUrl | MissingKey string | NotIterable string

definition webhook_secret :: "py_text \<Rightarrow> pydict \<Rightarrow> wh_error + string" where
  "webhook_secret T resolved =
     (case map_of resolved ''WEBHOOK_SECRET'' of
        None \<Rightarrow> Inl (MissingKey ''WEBHOOK_SECRET'')
      | Some v \<Rightarrow>
          (let secret = strip_if is_space (if truthy v then py_str T v else [])
           in if secret = [] then Inl NoSecret else Inr secret))"

text \<open>\<open>current_mode\<close>; a member of \<open>UpdateMode\<close> is the object named after it.\<close>

datatype update_mode = Polling | Webhook

definition current_mode :: "py_text \<Rightarrow> pydict \<Rightarrow> update_mode option" where
  "current_mode T conf =
     (let value = dget conf ''MODE'' PNone
      in if value = PObj ''UpdateMode.POLLING'' then Some Polling
         else if value = PObj ''UpdateMode.WEBHOOK'' then Some Webhook
         else (let t = lower (strip_if is_space (if truthy value then py_str T value else []))
               in if t = ''polling'' then Some Polling else if t = ''webhook'' then Some Webhook else None))"

text \<open>The answers of the guards: a refusal by status, the bot and the update, or an exception that leaves the view.\<close>

datatype 'u answer = NotAllowed | Status nat | Accepted bot_record 'u | Raised

record wstate =
  ws_cache :: wcache
  ws_made :: made

definition addressed ::
  "py_text \<Rightarrow> pyfloat \<Rightarrow> bot_record list \<Rightarrow> look \<Rightarrow> look \<Rightarrow> int \<Rightarrow> wstate \<Rightarrow> (config_error + bot_record) option \<times> wstate" where
  "addressed T interval rs l1 l2 b s =
     (let c1 = served_records T interval False l1 (ws_cache s)
      in case get_served b c1 of
           Some found \<Rightarrow> (let (res, made) = for_record T rs found (ws_made s) in (Some res, \<lparr> ws_cache = c1, ws_made = made \<rparr>))
         | None \<Rightarrow>
             (let c2 = served_records T interval True l2 c1
              in case map_of (wc_served c2) b of
                   None \<Rightarrow> (None, s\<lparr> ws_cache := c2 \<rparr>)
                 | Some found \<Rightarrow> (let (res, made) = for_record T rs found (ws_made s) in (Some res, \<lparr> ws_cache = c2, ws_made = made \<rparr>))))"

definition serving_bot ::
  "py_text \<Rightarrow> pyfloat \<Rightarrow> bot_record list \<Rightarrow> pydict \<Rightarrow> look \<Rightarrow> look \<Rightarrow> int option \<Rightarrow> wstate \<Rightarrow> (nat + bot_record \<times> string) \<times> wstate" where
  "serving_bot T interval rs conf l1 l2 who s =
     (case who of
        None \<Rightarrow>
          (case webhook_secret T conf of
             Inl _ \<Rightarrow> (Inl 503, s)
           | Inr secret \<Rightarrow> (case own_settings rs of Inl _ \<Rightarrow> (Inl 503, s) | Inr r \<Rightarrow> (Inr (r, secret), s)))
      | Some b \<Rightarrow>
          (case addressed T interval rs l1 l2 b s of
             (None, s') \<Rightarrow> (Inl 404, s')
           | (Some (Inl _), s') \<Rightarrow> (Inl 503, s')
           | (Some (Inr r), s') \<Rightarrow>
               (case webhook_secret T (bt_resolved r) of Inl _ \<Rightarrow> (Inl 503, s') | Inr secret \<Rightarrow> (Inr (r, secret), s'))))"

record 'b request =
  rq_method :: string
  rq_secret :: "string option"
  rq_body :: 'b

definition accepted_update ::
  "py_text \<Rightarrow> pyfloat \<Rightarrow> bot_record list \<Rightarrow> pydict \<Rightarrow> (pyval \<Rightarrow> bool) \<Rightarrow> (bot_record \<Rightarrow> 'b \<Rightarrow> 'u option)
    \<Rightarrow> look \<Rightarrow> look \<Rightarrow> 'b request \<Rightarrow> int option \<Rightarrow> wstate \<Rightarrow> 'u answer \<times> wstate" where
  "accepted_update T interval rs conf is_token read_update l1 l2 rq who s =
     (if rq_method rq \<noteq> ''POST'' then (NotAllowed, s)
      else case own_settings rs of
        Inl _ \<Rightarrow> (Raised, s)
      | Inr own \<Rightarrow>
          (case coerce_bool (dget (bt_resolved own) ''ENABLED'' PNone) ''ENABLED'' of
             Inl _ \<Rightarrow> (Raised, s)
           | Inr False \<Rightarrow> (Status 503, s)
           | Inr True \<Rightarrow>
               (if current_mode T conf \<noteq> Some Webhook then (Status 503, s)
                else case serving_bot T interval rs conf l1 l2 who s of
                       (Inl status, s') \<Rightarrow> (Status status, s')
                     | (Inr (serving, secret), s') \<Rightarrow>
                         (let given = (case rq_secret rq of None \<Rightarrow> [] | Some g \<Rightarrow> g);
                              token = dget (bt_resolved serving) ''TOKEN'' PNone
                          in if given \<noteq> secret then (Status 403, s')
                             else if \<not> truthy token then (Status 503, s')
                             else if \<not> is_token token then (Raised, s')
                             else case read_update serving (rq_body rq) of
                                    None \<Rightarrow> (Status 400, s')
                                  | Some u \<Rightarrow> (Accepted serving u, s')))))"

text \<open>
  The view.  Feeding the update ends with the handlers having run, one of them having raised, or
  the loop refusing it.
\<close>

datatype feeding = Ran | HandlerRaised | LoopUnavailable

definition telegram_webhook ::
  "(bot_record \<Rightarrow> 'u \<Rightarrow> feeding) \<Rightarrow> 'u answer \<Rightarrow> (bot_record \<times> 'u) list \<times> 'u answer" where
  "telegram_webhook feed accepted =
     (case accepted of
        Accepted serving u \<Rightarrow>
          (case feed serving u of LoopUnavailable \<Rightarrow> ([], Status 503) | _ \<Rightarrow> ([(serving, u)], Status 200))
      | refused \<Rightarrow> ([], refused))"

section \<open>Registering a webhook\<close>

record webhook_call =
  wk_url :: string
  wk_secret_token :: string
  wk_allowed_updates :: "pyval list"

definition rstrip_slash :: "string \<Rightarrow> string" where
  "rstrip_slash s = rev (dropWhile (\<lambda>c. c = CHR ''/'') (rev s))"

text \<open>\<open>list(v)\<close>.\<close>

definition py_list :: "pyval \<Rightarrow> wh_error + pyval list" where
  "py_list v =
     (case v of
        PList xs \<Rightarrow> Inr xs
      | PStr cs \<Rightarrow> Inr (map (\<lambda>c. PStr [c]) cs)
      | PBytes cs \<Rightarrow> Inr (map (\<lambda>c. PInt (of_char c)) cs)
      | PDict d \<Rightarrow> Inr (map (\<lambda>e. PStr (fst e)) d)
      | _ \<Rightarrow> Inl (NotIterable (type_name v)))"

definition webhook_settings :: "py_text \<Rightarrow> pydict \<Rightarrow> int option \<Rightarrow> wh_error + webhook_call" where
  "webhook_settings T resolved who =
     (case map_of resolved ''WEBHOOK_URL'' of
        None \<Rightarrow> Inl (MissingKey ''WEBHOOK_URL'')
      | Some v \<Rightarrow>
          (let url = strip_if is_space (if truthy v then py_str T v else [])
           in if url = [] then Inl NoUrl
              else (case map_of resolved ''WEBHOOK_ALLOWED_UPDATES'' of
                      None \<Rightarrow> Inl (MissingKey ''WEBHOOK_ALLOWED_UPDATES'')
                    | Some allowed \<Rightarrow>
                        (case webhook_secret T resolved of
                           Inl e \<Rightarrow> Inl e
                         | Inr secret \<Rightarrow>
                             (case (if truthy allowed then py_list allowed else Inr []) of
                                Inl e \<Rightarrow> Inl e
                              | Inr updates \<Rightarrow>
                                  Inr \<lparr> wk_url = (case who of None \<Rightarrow> url | Some b \<Rightarrow> rstrip_slash url @ ''/'' @ dec_int b @ ''/''),
                                        wk_secret_token = secret, wk_allowed_updates = updates \<rparr>)))))"

record webhook_info =
  wi_url :: string
  wi_allowed_updates :: "pyval list option"

text \<open>The two lists are compared sorted, which is up to their order.\<close>

definition registered :: "webhook_call \<Rightarrow> webhook_info \<Rightarrow> bool" where
  "registered desired info =
     (wi_url info = wk_url desired \<and>
      mset (case wi_allowed_updates info of None \<Rightarrow> [] | Some a \<Rightarrow> a) = mset (wk_allowed_updates desired))"

section \<open>Who is behind a record\<close>

text \<open>
  What the cache and the registry hold: every record under the identity in its own token, and a
  bot of a settings section as the settings have it now, which a change of the settings keeps by
  dropping the cache.
\<close>

definition settled_record :: "bot_record list \<Rightarrow> bot_record \<Rightarrow> bool" where
  "settled_record rs r = (bt_provided r \<or> record_of (bt_alias r) rs = Inr r)"

definition known :: "py_text \<Rightarrow> bot_record list \<Rightarrow> wcache \<Rightarrow> bool" where
  "known T rs c \<longleftrightarrow> (\<forall>b r. map_of (wc_served c) b = Some r \<longrightarrow> record_bot_id T r = Some b \<and> settled_record rs r)"

definition sound_look :: "py_text \<Rightarrow> bot_record list \<Rightarrow> look \<Rightarrow> bool" where
  "sound_look T rs l \<longleftrightarrow>
     (\<forall>c. known T rs c \<longrightarrow> known T rs (lk_others l c)) \<and>
     (\<forall>found. lk_desired l = Some found \<longrightarrow> (\<forall>r \<in> set found. settled_record rs r))"

definition made_ok :: "made \<Rightarrow> bool" where
  "made_ok made \<longleftrightarrow> (\<forall>a r. map_of made (ByAlias a) = Some r \<longrightarrow> \<not> bt_provided r \<and> bt_alias r = a)"

lemma by_identity_fold:
  assumes "map_of (fold (\<lambda>r d. case record_bot_id T r of None \<Rightarrow> d | Some b \<Rightarrow> dset b r d) found d) b = Some r"
  shows "r \<in> set found \<and> record_bot_id T r = Some b \<or> map_of d b = Some r"
  using assms
proof (induction found arbitrary: d)
  case (Cons x found)
  from Cons.IH [OF Cons.prems [unfolded fold_Cons comp_apply]] show ?case
    by (auto simp: update_conv' split: option.splits if_splits)
qed simp

lemma known_read_locked:
  assumes "known T rs c" and "\<forall>found. desired = Some found \<longrightarrow> (\<forall>r \<in> set found. settled_record rs r)"
  shows "known T rs (read_locked T interval refresh checked stamped desired c)"
proof (cases desired)
  case None
  with assms(1) show ?thesis by (simp add: known_def read_locked_def)
next
  case (Some found)
  have "known T rs \<lparr> wc_served = by_identity T found, wc_read_at = Some stamped \<rparr>"
    using assms(2) Some by (auto simp: known_def by_identity_def dest: by_identity_fold)
  with assms(1) Some show ?thesis by (simp add: read_locked_def)
qed

lemma known_served_records:
  assumes "known T rs c" "sound_look T rs l"
  shows "known T rs (served_records T interval refresh l c)"
  using assms by (auto simp: served_records_def sound_look_def intro!: known_read_locked)

lemma get_served_map_of: "get_served b c = Some r \<Longrightarrow> map_of (wc_served c) b = Some r"
  by (auto simp: get_served_def split: option.splits if_splits)

lemma for_record_serves:
  assumes "for_record T rs found made = (Inr r, made')" and "settled_record rs found" and "made_ok made"
  shows "r = found \<and> made_ok made'"
proof (cases "\<not> bt_provided found \<and> bt_alias found = DEFAULT_ALIAS")
  case True
  with assms show ?thesis by (auto simp: for_record_def own_settings_def settled_record_def)
next
  case False
  have same: "bot_settings rs found = found" using assms(2) by (auto simp: bot_settings_def settled_record_def)
  show ?thesis
  proof (cases "bt_provided found")
    case True
    with assms same show ?thesis
      by (auto simp: for_record_def key_of_def made_ok_def update_conv' Let_def split: option.splits if_splits)
  next
    case sectioned: False
    have "bot_settings rs held = found" if "map_of made (ByAlias (bt_alias found)) = Some held" for held
      using that assms(2,3) sectioned by (auto simp: made_ok_def bot_settings_def settled_record_def)
    with sectioned False assms same show ?thesis
      by (auto simp: for_record_def key_of_def made_ok_def update_conv' Let_def split: option.splits if_splits)
  qed
qed

lemma addressed_is_the_bot:
  assumes "addressed T interval rs l1 l2 b s = (Some (Inr r), s')"
    and "known T rs (ws_cache s)" "made_ok (ws_made s)" "sound_look T rs l1" "sound_look T rs l2"
  shows "record_bot_id T r = Some b \<and> known T rs (ws_cache s') \<and> made_ok (ws_made s')"
proof -
  define c1 where "c1 = served_records T interval False l1 (ws_cache s)"
  define c2 where "c2 = served_records T interval True l2 c1"
  have k: "known T rs c1" "known T rs c2" using assms(2,4,5) by (simp_all add: c1_def c2_def known_served_records)
  have found_it: "record_bot_id T r = Some b \<and> known T rs (ws_cache s') \<and> made_ok (ws_made s')"
    if "known T rs c" "map_of (wc_served c) b = Some found" "for_record T rs found (ws_made s) = (Inr r, made)"
      "s' = \<lparr> ws_cache = c, ws_made = made \<rparr>" for c found made
    using that for_record_serves [OF that(3) _ assms(3)] by (auto simp: known_def)
  show ?thesis
  proof (cases "get_served b c1")
    case None
    with assms(1) obtain found made where "map_of (wc_served c2) b = Some found"
      "for_record T rs found (ws_made s) = (Inr r, made)" "s' = \<lparr> ws_cache = c2, ws_made = made \<rparr>"
      by (auto simp: addressed_def Let_def c1_def c2_def split: option.splits prod.splits)
    then show ?thesis by (rule found_it [OF k(2)])
  next
    case (Some found)
    with assms(1) obtain made where "for_record T rs found (ws_made s) = (Inr r, made)" "s' = \<lparr> ws_cache = c1, ws_made = made \<rparr>"
      by (auto simp: addressed_def Let_def c1_def split: prod.splits)
    then show ?thesis by (rule found_it [OF k(1) get_served_map_of [OF Some]])
  qed
qed

lemma serving_bot_is_the_bot:
  assumes "serving_bot T interval rs conf l1 l2 (Some b) s = (Inr (r, secret), s')"
    and "known T rs (ws_cache s)" "made_ok (ws_made s)" "sound_look T rs l1" "sound_look T rs l2"
  shows "record_bot_id T r = Some b \<and> webhook_secret T (bt_resolved r) = Inr secret"
proof -
  from assms(1) have "addressed T interval rs l1 l2 b s = (Some (Inr r), s')" "webhook_secret T (bt_resolved r) = Inr secret"
    by (auto simp: serving_bot_def split: prod.splits option.splits sum.splits)
  with addressed_is_the_bot [OF _ assms(2-5)] show ?thesis by blast
qed

lemma webhook_secret_nonempty: "webhook_secret T d = Inr secret \<Longrightarrow> secret \<noteq> []"
  by (auto simp: webhook_secret_def Let_def split: option.splits if_splits)

section \<open>How often the providers are read\<close>

text \<open>The moments at which a sequence of passages through the lock read the providers.\<close>

type_synonym passage = "bool \<times> rat \<times> rat \<times> bot_record list option"

fun read_moments :: "py_text \<Rightarrow> pyfloat \<Rightarrow> passage list \<Rightarrow> wcache \<Rightarrow> rat list" where
  "read_moments T interval [] c = []"
| "read_moments T interval ((refresh, checked, stamped, desired) # ps) c =
     (let rest = read_moments T interval ps (read_locked T interval refresh checked stamped desired c)
      in if fresh_enough interval refresh checked c then rest else stamped # rest)"

text \<open>The clock does not run backwards.\<close>

fun clock_runs :: "rat \<Rightarrow> passage list \<Rightarrow> bool" where
  "clock_runs t [] = True"
| "clock_runs t ((refresh, checked, stamped, desired) # ps) = (t \<le> checked \<and> checked \<le> stamped \<and> clock_runs stamped ps)"

lemma cache_for_at_least_one: "cache_for T v = Inr (Fin q) \<Longrightarrow> 1 \<le> q"
  by (auto simp: cache_for_def Let_def split: pyval.splits pyfloat.splits option.splits if_splits)

lemma not_fresh_is_later:
  assumes "\<not> fresh_enough interval refresh checked c" "wc_read_at c = Some t" and "\<forall>q. interval = Fin q \<longrightarrow> 1 \<le> q"
  shows "t + MISS_GRACE \<le> checked"
  using assms by (cases interval) (auto simp: fresh_enough_def MISS_GRACE_def split: if_splits)

lemma read_moments_spaced:
  assumes "\<forall>q. interval = Fin q \<longrightarrow> 1 \<le> q" and "clock_runs now ps"
  shows "sorted_wrt (\<lambda>a b. a + MISS_GRACE \<le> b) (read_moments T interval ps c) \<and>
    (\<forall>t. wc_read_at c = Some t \<longrightarrow> (\<forall>m \<in> set (read_moments T interval ps c). t + MISS_GRACE \<le> m))"
  using assms(2)
proof (induction ps arbitrary: now c)
  case (Cons p ps)
  obtain refresh checked stamped desired where p: "p = (refresh, checked, stamped, desired)" by (cases p)
  define c' where "c' = read_locked T interval refresh checked stamped desired c"
  have clock: "checked \<le> stamped" "clock_runs stamped ps" using Cons.prems by (simp_all add: p)
  note IH = Cons.IH [OF clock(2), of c']
  show ?case
  proof (cases "fresh_enough interval refresh checked c")
    case True
    with IH show ?thesis by (simp add: p c'_def read_locked_def)
  next
    case False
    then have "wc_read_at c' = Some stamped" by (simp add: c'_def read_locked_def)
    with IH have later: "\<forall>m \<in> set (read_moments T interval ps c'). stamped + MISS_GRACE \<le> m" by blast
    have "t + MISS_GRACE \<le> stamped" if "wc_read_at c = Some t" for t
      using not_fresh_is_later [OF False that assms(1)] clock(1) by simp
    moreover from this later have "t + MISS_GRACE \<le> m" if "wc_read_at c = Some t" "m \<in> set (read_moments T interval ps c')" for t m
      using that by (force simp: MISS_GRACE_def)
    ultimately show ?thesis using IH later False by (simp add: p flip: c'_def)
  qed
qed simp

lemma from_sections_aliases: "from_sections T env shared declared ss = Inr rs \<Longrightarrow> map bt_alias rs = map fst ss"
  by (induction ss arbitrary: rs) (auto simp: resolve_def Let_def split: sum.splits prod.splits)

section \<open>Properties of the webhook\<close>

text \<open>
  C14. An update is fed to a bot only with that bot's own secret: a request whose path names a bot and
  that passes the guards was a post, carried exactly the secret of the settings of the bot it was
  given to, and that bot is the one the path names, by the identity in its token.
\<close>

theorem webhook_needs_the_bots_own_secret:
  assumes "known T rs (ws_cache s)" "made_ok (ws_made s)" "sound_look T rs l1" "sound_look T rs l2"
    and "accepted_update T interval rs conf is_token read_update l1 l2 rq (Some b) s = (Accepted r u, s')"
  shows "rq_method rq = ''POST'' \<and> record_bot_id T r = Some b \<and>
    (\<exists>secret. secret \<noteq> [] \<and> webhook_secret T (bt_resolved r) = Inr secret \<and> rq_secret rq = Some secret) \<and>
    read_update r (rq_body rq) = Some u"
proof -
  from assms(5) obtain secret where served: "serving_bot T interval rs conf l1 l2 (Some b) s = (Inr (r, secret), s')"
    and "rq_method rq = ''POST''" "(case rq_secret rq of None \<Rightarrow> [] | Some g \<Rightarrow> g) = secret" "read_update r (rq_body rq) = Some u"
    by (auto simp: accepted_update_def Let_def split: if_splits sum.splits bool.splits prod.splits option.splits)
  moreover have "record_bot_id T r = Some b \<and> webhook_secret T (bt_resolved r) = Inr secret"
    by (rule serving_bot_is_the_bot [OF served assms(1-4)])
  moreover from this have "secret \<noteq> []" by (blast dest: webhook_secret_nonempty)
  ultimately show ?thesis by (auto split: option.splits)
qed

definition own_record :: bot_record where
  "own_record = \<lparr> bt_alias = ''default'', bt_resolved = [(''ENABLED'', PBool True)], bt_origins = [], bt_declared = False, bt_provided = False \<rparr>"

definition client_record :: bot_record where
  "client_record = \<lparr> bt_alias = ''77'', bt_resolved = [(''TOKEN'', PStr ''77:abc''), (''WEBHOOK_SECRET'', PStr ''s3'')],
     bt_origins = [], bt_declared = False, bt_provided = True \<rparr>"

definition first_look :: look where
  "first_look = \<lparr> lk_first = 5, lk_checked = 5, lk_stamped = 5, lk_others = (\<lambda>c. c), lk_desired = Some [client_record] \<rparr>"

definition cold :: wstate where
  "cold = \<lparr> ws_cache = \<lparr> wc_served = [], wc_read_at = None \<rparr>, ws_made = [] \<rparr>"

definition posted :: "unit request" where
  "posted = \<lparr> rq_method = ''POST'', rq_secret = Some ''s3'', rq_body = () \<rparr>"

theorem webhook_needs_the_bots_own_secret_witness:
  "\<exists>r u s'. accepted_update plain_text (Fin 30) [own_record] [(''MODE'', PStr ''webhook'')] (\<lambda>_. True) (\<lambda>_ _. Some ())
     first_look first_look posted (Some 77) cold = (Accepted r u, s') \<and> record_bot_id plain_text r = Some 77"
proof -
  define answer where "answer = accepted_update plain_text (Fin 30) [own_record] [(''MODE'', PStr ''webhook'')] (\<lambda>_. True) (\<lambda>_ _. Some ())
     first_look first_look posted (Some 77) cold"
  have "(case fst answer of Accepted r u \<Rightarrow> True | _ \<Rightarrow> False)" unfolding answer_def by code_simp
  then obtain r u s' where a: "answer = (Accepted r u, s')" by (cases answer) (auto split: answer.splits)
  have "known plain_text [own_record] (ws_cache cold)" "made_ok (ws_made cold)" "sound_look plain_text [own_record] first_look"
    by (simp_all add: known_def made_ok_def sound_look_def cold_def first_look_def client_record_def settled_record_def)
  from webhook_needs_the_bots_own_secret [OF this(1,2,3,3) a [unfolded answer_def]] a show ?thesis by (auto simp: answer_def)
qed

text \<open>
  A stranger's traffic costs at most one read of the providers a second: whatever requests pass
  through the cache, for known and unknown bots and with any refresh interval the settings give,
  two reads are at least \<open>MISS_GRACE\<close> apart.
\<close>

theorem webhook_reads_are_spaced:
  assumes "cache_for T setting = Inr interval" and "clock_runs now ps"
  shows "sorted_wrt (\<lambda>a b. a + MISS_GRACE \<le> b) (read_moments T interval ps c)"
  using read_moments_spaced [of interval now ps T c] assms cache_for_at_least_one [of T setting] by blast

theorem webhook_reads_are_spaced_witness:
  "read_moments plain_text (Fin 30) [(True, 1, 1, Some []), (True, 3 / 2, 3 / 2, Some []), (True, 2, 2, None)] (ws_cache cold) = [1, 2] \<and>
   sorted_wrt (\<lambda>a b. a + MISS_GRACE \<le> b)
     (read_moments plain_text (Fin 30) [(True, 1, 1, Some []), (True, 3 / 2, 3 / 2, Some []), (True, 2, 2, None)] (ws_cache cold))"
proof
  show "sorted_wrt (\<lambda>a b. a + MISS_GRACE \<le> b)
     (read_moments plain_text (Fin 30) [(True, 1, 1, Some []), (True, 3 / 2, 3 / 2, Some []), (True, 2, 2, None)] (ws_cache cold))"
  proof (rule webhook_reads_are_spaced)
    show "cache_for plain_text (PStr ''soon'') = Inr (Fin 30)" by code_simp
    show "clock_runs 0 [(True, 1, 1, Some []), (True, 3 / 2, 3 / 2, Some []), (True, 2, 2, None)]" by simp
  qed
qed code_simp

text \<open>
  A deployment whose sections name no bot \<open>default\<close> answers no update at all: the view asks the
  process's own bot whether it is enabled before anything else, that bot has no section, and the
  exception leaves the view, whichever bot the path names.
\<close>

theorem webhook_without_a_default_section_raises:
  assumes "records T env shared (Some (PDict ss)) = Inr rs" and "ss \<noteq> []" and "DEFAULT_ALIAS \<notin> set (map fst ss)"
    and "rq_method rq = ''POST''"
  shows "accepted_update T' interval rs conf is_token read_update l1 l2 rq who s = (Raised, s)"
proof -
  from assms(1,2) have "from_sections T env shared True ss = Inr rs"
    by (cases ss) (auto simp: records_def sections_def split: option.splits)
  then have "map bt_alias rs = map fst ss" by (rule from_sections_aliases)
  with assms(3) have "DEFAULT_ALIAS \<notin> set (map bt_alias rs)" by simp
  then have "filter (\<lambda>r. bt_alias r = DEFAULT_ALIAS) rs = []" by (force simp: filter_empty_conv)
  then have "own_settings rs = Inl (NoSuchBot DEFAULT_ALIAS (map bt_alias rs))" by (simp add: own_settings_def record_of_def)
  with assms(4) show ?thesis by (simp add: accepted_update_def)
qed

definition shop_section :: pydict where
  "shop_section = [(''shop'', PDict [(''TOKEN'', PStr ''77:abc''), (''WEBHOOK_SECRET'', PStr ''s3'')])]"

theorem webhook_without_a_default_section_raises_witness:
  "\<exists>rs. records plain_text (\<lambda>_. None) DEFAULTS (Some (PDict shop_section)) = Inr rs \<and>
     accepted_update plain_text (Fin 30) rs [(''MODE'', PStr ''webhook'')] (\<lambda>_. True) (\<lambda>_ _. Some ())
       first_look first_look posted (Some 77) cold = (Raised, cold)"
proof -
  have "\<not> isl (records plain_text (\<lambda>_. None) DEFAULTS (Some (PDict shop_section)))" by code_simp
  then obtain rs where rs: "records plain_text (\<lambda>_. None) DEFAULTS (Some (PDict shop_section)) = Inr rs" 
    by (cases "records plain_text (\<lambda>_. None) DEFAULTS (Some (PDict shop_section))") simp_all
  have "shop_section \<noteq> []" "DEFAULT_ALIAS \<notin> set (map fst shop_section)" "rq_method posted = ''POST''" by code_simp+
  from webhook_without_a_default_section_raises [OF rs this] rs show ?thesis by blast
qed

end
