(* ===== verification/Intents.thy ===== *)
theory Intents
  imports Webhook Redaction
begin

text \<open>
  What an operator asks of a bot in the admin and what carries it out: \<open>runtime/intents.py\<close>
  and the action of \<open>admin_bots.py\<close> that writes the asking.  The table is a list of rows by
  identity, which is unique; each statement is one function on it, and other processes act between
  two statements through an argument.  Telegram is an argument of the functions that call it.
\<close>

declare dict_simps [simp]

section \<open>Rows and statements\<close>

record irow =
  in_intent :: string
  in_asked_at :: "rat option"
  in_claim :: string
  in_claimed_at :: "rat option"
  in_result :: string
  in_done_at :: "rat option"
  in_updated_at :: rat

type_synonym itable = "(int \<times> irow) list"

datatype bot_intent = CHECK | SET_WEBHOOK | DELETE_WEBHOOK

fun intent_value :: "bot_intent \<Rightarrow> string" where
  "intent_value CHECK = ''check''"
| "intent_value SET_WEBHOOK = ''set_webhook''"
| "intent_value DELETE_WEBHOOK = ''delete_webhook''"

text \<open>\<open>_ask\<close>: one statement over the selected rows.\<close>

definition ask_row :: "string \<Rightarrow> rat \<Rightarrow> irow \<Rightarrow> irow" where
  "ask_row intent now r =
     r\<lparr> in_intent := intent, in_asked_at := Some now, in_claim := [], in_claimed_at := None, in_result := [],
        in_done_at := None, in_updated_at := now \<rparr>"

definition ask :: "bot_intent \<Rightarrow> rat \<Rightarrow> int list \<Rightarrow> itable \<Rightarrow> itable" where
  "ask intent now selected t =
     map (\<lambda>(b, r). (b, if b \<in> set selected then ask_row (intent_value intent) now r else r)) t"

definition outstanding :: "int list \<Rightarrow> itable \<Rightarrow> (int \<times> string) list" where
  "outstanding identities t =
     map (\<lambda>(b, r). (b, in_intent r)) (filter (\<lambda>(b, r). b \<in> set identities \<and> in_intent r \<noteq> []) t)"

definition CLAIM_SECONDS :: rat where "CLAIM_SECONDS = 60"

definition claimable :: "string \<Rightarrow> rat \<Rightarrow> irow \<Rightarrow> bool" where
  "claimable intent now r =
     (in_intent r = intent \<and>
      (in_claim r = [] \<or> (case in_claimed_at r of None \<Rightarrow> True | Some t \<Rightarrow> t < now - CLAIM_SECONDS)))"

definition claimed :: "int \<Rightarrow> string \<Rightarrow> string \<Rightarrow> rat \<Rightarrow> itable \<Rightarrow> bool \<times> itable" where
  "claimed b intent claim now t =
     (case map_of t b of
        None \<Rightarrow> (False, t)
      | Some r \<Rightarrow>
          if claimable intent now r
          then (True, dset b (r\<lparr> in_claim := claim, in_claimed_at := Some now, in_updated_at := now \<rparr>) t)
          else (False, t))"

definition RESULT :: nat where "RESULT = 200"

definition wrote :: "string list \<Rightarrow> int \<Rightarrow> string \<Rightarrow> string \<Rightarrow> string \<Rightarrow> rat \<Rightarrow> itable \<Rightarrow> bool \<times> itable" where
  "wrote configured b intent claim answer now t =
     (case map_of t b of
        None \<Rightarrow> (False, t)
      | Some r \<Rightarrow>
          if in_intent r = intent \<and> in_claim r = claim
          then (True, dset b (r\<lparr> in_intent := [], in_claim := [], in_claimed_at := None,
                                 in_result := take RESULT (redact_text configured answer),
                                 in_done_at := Some now, in_updated_at := now \<rparr>) t)
          else (False, t))"

section \<open>Doing what was asked\<close>

type_synonym raised = "string \<times> string"

record telegram =
  tg_get_me :: "bot_record \<Rightarrow> raised + string \<times> int"
  tg_set_webhook :: "bot_record \<Rightarrow> webhook_call \<Rightarrow> raised + unit"
  tg_delete_webhook :: "bot_record \<Rightarrow> raised + unit"
  tg_repr :: "string \<Rightarrow> string"

fun wh_raised :: "wh_error \<Rightarrow> raised" where
  "wh_raised NoSecret = (''ImproperlyConfigured'', quoted_key ''TELEGRAM_BOT_DEFAULTS'' ''WEBHOOK_SECRET'' @
     '' is required to serve the webhook: without it anyone who finds the URL can feed your bot updates.'')"
| "wh_raised NoUrl = (''ImproperlyConfigured'', quoted_key ''TELEGRAM_BOT_DEFAULTS'' ''WEBHOOK_URL'' @ '' is required to register a webhook.'')"
| "wh_raised (MissingKey k) = (''KeyError'', [CHR 0x27] @ k @ [CHR 0x27])"
| "wh_raised (NotIterable k) = (''TypeError'', [CHR 0x27] @ k @ [CHR 0x27] @ '' object is not iterable'')"

definition performed :: "py_text \<Rightarrow> telegram \<Rightarrow> string \<Rightarrow> bot_record \<Rightarrow> raised + string" where
  "performed T tg intent r =
     (if intent = intent_value CHECK
      then (case tg_get_me tg r of
              Inl e \<Rightarrow> Inl e
            | Inr (username, i) \<Rightarrow> Inr (''ok: @'' @ username @ '' ('' @ dec_int i @ '')''))
      else if intent = intent_value SET_WEBHOOK
      then (case webhook_settings T (bt_resolved r) (record_bot_id T r) of
              Inl e \<Rightarrow> Inl (wh_raised e)
            | Inr arguments \<Rightarrow>
                (case tg_set_webhook tg r arguments of
                   Inl e \<Rightarrow> Inl e
                 | Inr _ \<Rightarrow> Inr (''webhook set to '' @ wk_url arguments)))
      else if intent = intent_value DELETE_WEBHOOK
      then (case tg_delete_webhook tg r of Inl e \<Rightarrow> Inl e | Inr _ \<Rightarrow> Inr ''webhook deleted'')
      else Inr (''unknown intent '' @ tg_repr tg intent @ ''; this version does not know it''))"

definition answer_text :: "raised + string \<Rightarrow> string" where
  "answer_text res = (case res of Inl (name, message) \<Rightarrow> name @ '': '' @ message | Inr line \<Rightarrow> line)"

text \<open>
  What the world does around one intent: the claim drawn for it, the two moments, what other
  processes do to the table while it is carried out, and whether the closing statement runs.
\<close>

record turn =
  tn_claim :: string
  tn_claimed :: rat
  tn_wrote :: rat
  tn_others :: "itable \<Rightarrow> itable"
  tn_writes :: bool

definition one :: "py_text \<Rightarrow> telegram \<Rightarrow> string list \<Rightarrow> turn \<Rightarrow> int \<Rightarrow> string \<Rightarrow> bot_record \<Rightarrow> itable \<Rightarrow> bool \<times> itable" where
  "one T tg configured w b intent r t =
     (case claimed b intent (tn_claim w) (tn_claimed w) t of
        (False, t1) \<Rightarrow> (False, t1)
      | (True, t1) \<Rightarrow>
          (let answer = answer_text (performed T tg intent r); t2 = tn_others w t1
           in if tn_writes w then wrote configured b intent (tn_claim w) answer (tn_wrote w) t2 else (False, t2)))"

fun carry_each :: "py_text \<Rightarrow> telegram \<Rightarrow> string list \<Rightarrow> (int \<times> bot_record) list \<Rightarrow> turn list \<Rightarrow> (int \<times> string) list \<Rightarrow> nat \<Rightarrow> itable \<Rightarrow> nat \<times> itable" where
  "carry_each T tg configured by_id (w # ws) ((b, intent) # asked) answered t =
     (case map_of by_id b of
        None \<Rightarrow> carry_each T tg configured by_id ws asked answered t
      | Some r \<Rightarrow>
          (let (ok, t') = one T tg configured w b intent r t
           in carry_each T tg configured by_id ws asked (if ok then Suc answered else answered) t'))"
| "carry_each T tg configured by_id _ _ answered t = (answered, t)"

text \<open>\<open>carry_out\<close>; the table may be unreadable, which is nothing to do.\<close>

definition carry_out :: "py_text \<Rightarrow> telegram \<Rightarrow> string list \<Rightarrow> bool \<Rightarrow> turn list \<Rightarrow> bot_record list \<Rightarrow> itable \<Rightarrow> nat \<times> itable" where
  "carry_out T tg configured readable ws rs t =
     (let by_id = by_identity T rs
      in if by_id = [] \<or> \<not> readable then (0, t)
         else carry_each T tg configured by_id ws (outstanding (map fst by_id) t) 0 t)"

section \<open>Runs of askers and workers\<close>

text \<open>
  A claim that was taken: by which name, for which asking of the bot, when.  The askings of a bot
  are numbered; an answer is noted with the number its claim was taken under and the number the
  row had when it was written.  A claim is the text of a fresh random \<open>UUID\<close>.
\<close>

record work =
  wk_bot :: int
  wk_intent :: string
  wk_claim :: string
  wk_question :: nat
  wk_since :: rat

record isys =
  is_table :: itable
  is_asked :: "int \<Rightarrow> nat"
  is_works :: "work list"
  is_answers :: "(int \<times> nat \<times> nat) list"

inductive intents_run :: "isys \<Rightarrow> bool" where
  start: "\<forall>b r. map_of t b = Some r \<longrightarrow> in_intent r = [] \<and> in_claim r = [] \<Longrightarrow>
    intents_run \<lparr> is_table = t, is_asked = (\<lambda>_. 0), is_works = [], is_answers = [] \<rparr>"
| asked: "intents_run S \<Longrightarrow>
    intents_run (S\<lparr> is_table := ask intent now selected (is_table S),
                    is_asked := (\<lambda>b. if b \<in> set selected then Suc (is_asked S b) else is_asked S b) \<rparr>)"
| claimed: "intents_run S \<Longrightarrow> (b, intent) \<in> set (outstanding identities t) \<Longrightarrow> claim \<noteq> [] \<Longrightarrow> claim \<notin> set (map wk_claim (is_works S)) \<Longrightarrow>
    claimed b intent claim now (is_table S) = (True, t') \<Longrightarrow>
    intents_run (S\<lparr> is_table := t', is_works := is_works S @ [\<lparr> wk_bot = b, wk_intent = intent, wk_claim = claim,
                    wk_question = is_asked S b, wk_since = now \<rparr>] \<rparr>)"
| answered: "intents_run S \<Longrightarrow> w \<in> set (is_works S) \<Longrightarrow>
    wrote configured (wk_bot w) (wk_intent w) (wk_claim w) answer now (is_table S) = (True, t') \<Longrightarrow>
    intents_run (S\<lparr> is_table := t', is_answers := is_answers S @ [(wk_bot w, wk_question w, is_asked S (wk_bot w))] \<rparr>)"

section \<open>The invariant\<close>

definition works_on :: "int \<Rightarrow> nat \<Rightarrow> work list \<Rightarrow> work list" where
  "works_on b n ws = filter (\<lambda>w. wk_bot w = b \<and> wk_question w = n) ws"

definition row_ok :: "work list \<Rightarrow> irow \<Rightarrow> bool" where
  "row_ok ws r \<longleftrightarrow>
     (in_intent r = [] \<longrightarrow> in_claim r = []) \<and>
     (in_claim r = [] \<longrightarrow> ws = [] \<or> in_intent r = []) \<and>
     (in_claim r \<noteq> [] \<longrightarrow> ws \<noteq> [] \<and> wk_claim (last ws) = in_claim r \<and> in_claimed_at r = Some (wk_since (last ws)))"

definition rows_ok :: "isys \<Rightarrow> bool" where
  "rows_ok S \<longleftrightarrow> (\<forall>b r. map_of (is_table S) b = Some r \<longrightarrow> row_ok (works_on b (is_asked S b) (is_works S)) r)"

definition works_ok :: "isys \<Rightarrow> bool" where
  "works_ok S \<longleftrightarrow>
     (\<forall>w \<in> set (is_works S). wk_question w \<le> is_asked S (wk_bot w) \<and> wk_claim w \<noteq> []) \<and> distinct (map wk_claim (is_works S))"

definition spaced :: "work list \<Rightarrow> bool" where
  "spaced ws \<longleftrightarrow> sorted_wrt (\<lambda>w w'. wk_since w + CLAIM_SECONDS < wk_since w') ws"

definition answer_ok :: "(int \<Rightarrow> nat) \<Rightarrow> itable \<Rightarrow> int \<times> nat \<times> nat \<Rightarrow> bool" where
  "answer_ok asked t e \<longleftrightarrow>
     (case e of (b, n, m) \<Rightarrow> n = m \<and> n \<le> asked b \<and> (n = asked b \<longrightarrow> (\<forall>r. map_of t b = Some r \<longrightarrow> in_intent r = [])))"

definition answers_ok :: "isys \<Rightarrow> bool" where
  "answers_ok S \<longleftrightarrow>
     (\<forall>e \<in> set (is_answers S). answer_ok (is_asked S) (is_table S) e) \<and>
     distinct (map (\<lambda>(b, n, m). (b, n)) (is_answers S))"

definition intents_ok :: "isys \<Rightarrow> bool" where
  "intents_ok S \<longleftrightarrow> rows_ok S \<and> works_ok S \<and> answers_ok S \<and> (\<forall>b n. spaced (works_on b n (is_works S)))"

lemma map_of_ask:
  "map_of (ask intent now selected t) b =
     map_option (\<lambda>r. if b \<in> set selected then ask_row (intent_value intent) now r else r) (map_of t b)"
  by (induction t) (auto simp: ask_def)

lemma answer_ok_later:
  assumes "answer_ok asked t e" and "\<And>b. asked b \<le> asked' b"
    and "\<And>b r'. asked' b = asked b \<Longrightarrow> map_of t' b = Some r' \<Longrightarrow> \<exists>r. map_of t b = Some r \<and> (in_intent r = [] \<longrightarrow> in_intent r' = [])"
  shows "answer_ok asked' t' e"
proof -
  obtain b n m where e: "e = (b, n, m)" by (cases e)
  with assms(1) have "n = m" "n \<le> asked b" "n = asked b \<Longrightarrow> map_of t b = Some r \<Longrightarrow> in_intent r = []" for r by (auto simp: answer_ok_def)
  moreover have "in_intent r' = []" if "n = asked' b" "map_of t' b = Some r'" for r'
  proof -
    have "asked' b = asked b" using that(1) \<open>n \<le> asked b\<close> assms(2) [of b] by simp
    with assms(3) that(2) obtain r where "map_of t b = Some r" "in_intent r = [] \<longrightarrow> in_intent r' = []" by blast
    with calculation(3) [of r] \<open>asked' b = asked b\<close> that(1) show ?thesis by simp
  qed
  ultimately show ?thesis using assms(2) [of b] by (auto simp: answer_ok_def e)
qed

lemma works_on_later: "works_ok S \<Longrightarrow> is_asked S b < n \<Longrightarrow> works_on b n (is_works S) = []"
  by (force simp: works_ok_def works_on_def filter_empty_conv)

lemma intents_ok_asked:
  assumes "intents_ok S"
  shows "intents_ok (S\<lparr> is_table := ask intent now selected (is_table S),
    is_asked := (\<lambda>b. if b \<in> set selected then Suc (is_asked S b) else is_asked S b) \<rparr>)"
proof -
  have w: "works_ok S" and a: "answers_ok S" and r: "rows_ok S" using assms by (simp_all add: intents_ok_def)
  have "intent_value intent \<noteq> []" by (cases intent) simp_all
  then have "row_ok [] (ask_row (intent_value intent) now x)" for x by (simp add: row_ok_def ask_row_def)
  with r works_on_later [OF w] have "rows_ok (S\<lparr> is_table := ask intent now selected (is_table S),
    is_asked := (\<lambda>b. if b \<in> set selected then Suc (is_asked S b) else is_asked S b) \<rparr>)"
    by (auto simp: rows_ok_def map_of_ask)
  moreover have "answers_ok (S\<lparr> is_table := ask intent now selected (is_table S),
    is_asked := (\<lambda>b. if b \<in> set selected then Suc (is_asked S b) else is_asked S b) \<rparr>)"
    using a by (auto simp: answers_ok_def map_of_ask split: if_splits elim!: answer_ok_later)
  moreover have "works_ok (S\<lparr> is_table := ask intent now selected (is_table S),
    is_asked := (\<lambda>b. if b \<in> set selected then Suc (is_asked S b) else is_asked S b) \<rparr>)"
    using w by (auto simp: works_ok_def le_Suc_eq)
  ultimately show ?thesis using assms by (simp add: intents_ok_def)
qed

lemma spaced_snoc:
  assumes "spaced ws" and "ws \<noteq> [] \<longrightarrow> wk_since (last ws) + CLAIM_SECONDS < wk_since w"
  shows "spaced (ws @ [w])"
proof -
  have "wk_since x + CLAIM_SECONDS < wk_since w" if x: "x \<in> set ws" for x
  proof -
    obtain us where us: "ws = us @ [last ws]" using x by (cases ws rule: rev_cases) auto
    have "x \<in> set (us @ [last ws])" using that us by simp
    then have "x \<in> set us \<or> x = last ws" by auto
    then have "wk_since x \<le> wk_since (last ws)"
    proof
      assume "x \<in> set us"
      moreover have "spaced (us @ [last ws])" using assms(1) us by simp
      ultimately have "wk_since x + CLAIM_SECONDS < wk_since (last ws)" by (auto simp: spaced_def sorted_wrt_append)
      then show ?thesis by (simp add: CLAIM_SECONDS_def)
    qed simp
    moreover have "ws \<noteq> []" using that by auto
    ultimately show ?thesis using assms(2) by simp
  qed
  with assms(1) show ?thesis by (simp add: spaced_def sorted_wrt_append)
qed

lemma works_on_snoc:
  "works_on b n (ws @ [w]) = works_on b n ws @ (if wk_bot w = b \<and> wk_question w = n then [w] else [])"
  by (simp add: works_on_def)

lemma intents_ok_claimed:
  assumes ok: "intents_ok S" and "intent \<noteq> []" "claim \<noteq> []" "claim \<notin> set (map wk_claim (is_works S))"
    and c: "claimed b intent claim now (is_table S) = (True, t')"
  shows "intents_ok (S\<lparr> is_table := t', is_works := is_works S @ [\<lparr> wk_bot = b, wk_intent = intent, wk_claim = claim,
    wk_question = is_asked S b, wk_since = now \<rparr>] \<rparr>)"
proof -
  define w where "w = \<lparr> wk_bot = b, wk_intent = intent, wk_claim = claim, wk_question = is_asked S b, wk_since = now \<rparr>"
  define ws where "ws = works_on b (is_asked S b) (is_works S)"
  from c obtain r where r: "map_of (is_table S) b = Some r" "claimable intent now r"
    and t': "t' = dset b (r\<lparr> in_claim := claim, in_claimed_at := Some now, in_updated_at := now \<rparr>) (is_table S)"
    by (auto simp: claimed_def split: option.splits if_splits)
  have row: "row_ok ws r" using ok r(1) by (simp add: intents_ok_def rows_ok_def ws_def)
  have late: "ws \<noteq> [] \<longrightarrow> wk_since (last ws) + CLAIM_SECONDS < now"
    using row r(2) \<open>intent \<noteq> []\<close> by (auto simp: row_ok_def claimable_def)
  have "spaced (works_on b' n (is_works S @ [w]))" for b' n
    using ok spaced_snoc [of ws w] late by (auto simp: intents_ok_def works_on_snoc w_def ws_def)
  moreover have "rows_ok (S\<lparr> is_table := t', is_works := is_works S @ [w] \<rparr>)"
  proof -
    have "row_ok (works_on b' (is_asked S b') (is_works S @ [w])) r'" if "map_of t' b' = Some r'" for b' r'
    proof (cases "b' = b")
      case True
      with that have "r' = r\<lparr> in_claim := claim, in_claimed_at := Some now, in_updated_at := now \<rparr>" by (simp add: t' update_conv')
      with True r(2) \<open>intent \<noteq> []\<close> \<open>claim \<noteq> []\<close> show ?thesis by (simp add: works_on_snoc w_def row_ok_def claimable_def)
    next
      case False
      with that ok show ?thesis by (simp add: t' update_conv' works_on_snoc w_def intents_ok_def rows_ok_def)
    qed
    then show ?thesis by (simp add: rows_ok_def)
  qed
  moreover have "works_ok (S\<lparr> is_table := t', is_works := is_works S @ [w] \<rparr>)"
    using ok assms(3,4) by (auto simp: intents_ok_def works_ok_def w_def)
  moreover have "answers_ok (S\<lparr> is_table := t', is_works := is_works S @ [w] \<rparr>)"
  proof -
    have "answer_ok (is_asked S) t' e" if "e \<in> set (is_answers S)" for e
    proof (rule answer_ok_later)
      show "answer_ok (is_asked S) (is_table S) e" using ok that by (simp add: intents_ok_def answers_ok_def)
      show "\<exists>x. map_of (is_table S) b' = Some x \<and> (in_intent x = [] \<longrightarrow> in_intent y = [])" if "map_of t' b' = Some y" for b' y
        using that r(1) by (auto simp: t' update_conv' split: if_splits)
    qed simp
    with ok show ?thesis by (simp add: intents_ok_def answers_ok_def)
  qed
  ultimately show ?thesis by (simp add: intents_ok_def w_def)
qed

lemma answer_is_of_the_holder:
  assumes ok: "intents_ok S" and "w \<in> set (is_works S)" and r: "map_of (is_table S) (wk_bot w) = Some r" "in_claim r = wk_claim w"
  shows "wk_question w = is_asked S (wk_bot w) \<and> in_intent r \<noteq> []"
proof -
  define ws where "ws = works_on (wk_bot w) (is_asked S (wk_bot w)) (is_works S)"
  have c: "wk_claim w \<noteq> []" "distinct (map wk_claim (is_works S))" using ok assms(2) by (auto simp: intents_ok_def works_ok_def)
  have "row_ok ws r" using ok r(1) by (simp add: intents_ok_def rows_ok_def ws_def)
  with c(1) r(2) have ws: "ws \<noteq> []" "wk_claim (last ws) = wk_claim w" and "in_intent r \<noteq> []" by (auto simp: row_ok_def)
  have "last ws \<in> set ws" using ws(1) by simp
  then have l: "last ws \<in> set (is_works S)" "wk_question (last ws) = is_asked S (wk_bot w)" by (auto simp: ws_def works_on_def)
  have "inj_on wk_claim (set (is_works S))" using c(2) by (simp add: distinct_map)
  then have "last ws = w" using ws(2) l(1) assms(2) by (auto dest: inj_onD)
  with l(2) \<open>in_intent r \<noteq> []\<close> show ?thesis by simp
qed

lemma intents_ok_answered:
  assumes ok: "intents_ok S" and "w \<in> set (is_works S)"
    and wr: "wrote configured (wk_bot w) (wk_intent w) (wk_claim w) answer now (is_table S) = (True, t')"
  shows "intents_ok (S\<lparr> is_table := t', is_answers := is_answers S @ [(wk_bot w, wk_question w, is_asked S (wk_bot w))] \<rparr>)"
proof -
  from wr obtain r where r: "map_of (is_table S) (wk_bot w) = Some r" "in_claim r = wk_claim w"
    and t': "t' = dset (wk_bot w) (r\<lparr> in_intent := [], in_claim := [], in_claimed_at := None,
      in_result := take RESULT (redact_text configured answer), in_done_at := Some now, in_updated_at := now \<rparr>) (is_table S)"
    by (auto simp: wrote_def split: option.splits if_splits)
  note q = answer_is_of_the_holder [OF ok assms(2) r]
  obtain r' where r': "t' = dset (wk_bot w) r' (is_table S)" "in_intent r' = []" "in_claim r' = []" using t' by simp
  have "rows_ok (S\<lparr> is_table := t', is_answers := is_answers S @ [(wk_bot w, wk_question w, is_asked S (wk_bot w))] \<rparr>)"
    using ok r' by (auto simp: intents_ok_def rows_ok_def update_conv' row_ok_def)
  note rows = this
  have "(wk_bot w, wk_question w) \<notin> set (map (\<lambda>(b, n, m). (b, n)) (is_answers S))"
  proof
    assume "(wk_bot w, wk_question w) \<in> set (map (\<lambda>(b, n, m). (b, n)) (is_answers S))"
    then obtain m where "(wk_bot w, wk_question w, m) \<in> set (is_answers S)" by auto
    then have "answer_ok (is_asked S) (is_table S) (wk_bot w, wk_question w, m)" using ok by (simp add: intents_ok_def answers_ok_def)
    with q r(1) show False by (simp add: answer_ok_def)
  qed
  moreover have "answer_ok (is_asked S) t' e" if "e \<in> set (is_answers S)" for e
  proof (rule answer_ok_later)
    show "answer_ok (is_asked S) (is_table S) e" using ok that by (simp add: intents_ok_def answers_ok_def)
    show "\<exists>x. map_of (is_table S) b = Some x \<and> (in_intent x = [] \<longrightarrow> in_intent y = [])" if "map_of t' b = Some y" for b y
      using that r' r(1) by (auto simp: update_conv' split: if_splits)
  qed simp
  moreover have "answer_ok (is_asked S) t' (wk_bot w, wk_question w, is_asked S (wk_bot w))"
    using q r' by (simp add: answer_ok_def update_conv')
  ultimately have "answers_ok (S\<lparr> is_table := t', is_answers := is_answers S @ [(wk_bot w, wk_question w, is_asked S (wk_bot w))] \<rparr>)"
    using ok by (auto simp: intents_ok_def answers_ok_def)
  note answers = this
  have "works_ok (S\<lparr> is_table := t', is_answers := is_answers S @ [(wk_bot w, wk_question w, is_asked S (wk_bot w))] \<rparr>)"
    using ok by (simp add: intents_ok_def works_ok_def)
  with rows answers show ?thesis using ok by (simp add: intents_ok_def)
qed

lemma intents_run_ok: "intents_run S \<Longrightarrow> intents_ok S"
proof (induction rule: intents_run.induct)
  case (start t)
  then show ?case
    by (simp add: intents_ok_def rows_ok_def works_ok_def answers_ok_def works_on_def row_ok_def spaced_def)
next
  case (claimed S b intent identities t claim now t')
  from claimed.hyps(2) have "intent \<noteq> []" by (auto simp: outstanding_def)
  from intents_ok_claimed [OF claimed.IH this claimed.hyps(3-5)] show ?case .
qed (auto intro: intents_ok_asked intents_ok_answered)

section \<open>Properties of the intents\<close>

text \<open>
  C34. An answer belongs to the question in the row.  However operators ask again and workers claim,
  are slow, let their claim lapse and answer, an answer is written only for the asking its claim was
  taken for, each asking is answered at most once, and two claims on one asking are more than
  \<open>CLAIM_SECONDS\<close> apart.
\<close>

theorem answer_is_to_its_own_question:
  assumes "intents_run S"
  shows "(\<forall>(b, n, m) \<in> set (is_answers S). n = m) \<and> distinct (map (\<lambda>(b, n, m). (b, n)) (is_answers S)) \<and>
    (\<forall>b n. sorted_wrt (\<lambda>w w'. wk_since w + CLAIM_SECONDS < wk_since w')
       (filter (\<lambda>w. wk_bot w = b \<and> wk_question w = n) (is_works S)))"
  using intents_run_ok [OF assms]
  by (auto simp: intents_ok_def answers_ok_def answer_ok_def spaced_def works_on_def)

definition quiet_row :: irow where
  "quiet_row = \<lparr> in_intent = [], in_asked_at = None, in_claim = [], in_claimed_at = None, in_result = [], in_done_at = None, in_updated_at = 0 \<rparr>"

definition asked_once :: isys where
  "asked_once = \<lparr> is_table = ask CHECK 5 [7] [(7, quiet_row)], is_asked = (\<lambda>b. if b \<in> set [7] then Suc 0 else 0), is_works = [], is_answers = [] \<rparr>"

definition claimed_once :: isys where
  "claimed_once = asked_once\<lparr> is_table := snd (claimed 7 ''check'' ''c1'' 6 (is_table asked_once)),
     is_works := is_works asked_once @ [\<lparr> wk_bot = 7, wk_intent = ''check'', wk_claim = ''c1'', wk_question = is_asked asked_once 7, wk_since = 6 \<rparr>] \<rparr>"

definition answered_once :: isys where
  "answered_once = claimed_once\<lparr> is_table := snd (wrote [] 7 ''check'' ''c1'' ''ok'' 8 (is_table claimed_once)),
     is_answers := is_answers claimed_once @ [(7, 1, is_asked claimed_once 7)] \<rparr>"

lemma asked_once_run: "intents_run asked_once"
proof -
  have "intents_run \<lparr> is_table = [(7, quiet_row)], is_asked = (\<lambda>_. 0), is_works = [], is_answers = [] \<rparr>"
    by (rule intents_run.start) (simp add: quiet_row_def)
  from intents_run.asked [OF this, where intent = CHECK and now = 5 and selected = "[7]"] show ?thesis by (simp add: asked_once_def cong: if_cong)
qed

lemma claimed_once_run: "intents_run claimed_once"
proof -
  have c: "fst (claimed 7 ''check'' ''c1'' 6 (is_table asked_once)) = True" by code_simp
  have "(7, ''check'') \<in> set (outstanding [7] (is_table asked_once))" by code_simp
  from intents_run.claimed [OF asked_once_run this, of "''c1''" 6 "snd (claimed 7 ''check'' ''c1'' 6 (is_table asked_once))"] c
  show ?thesis by (simp add: claimed_once_def prod_eq_iff asked_once_def)
qed

lemma answered_once_run: "intents_run answered_once"
proof -
  define w where "w = \<lparr> wk_bot = 7, wk_intent = ''check'', wk_claim = ''c1'', wk_question = 1, wk_since = 6 \<rparr>"
  have "fst (wrote [] 7 ''check'' ''c1'' ''ok'' 8 (is_table claimed_once)) = True" by code_simp
  moreover have "w \<in> set (is_works claimed_once)" unfolding w_def by code_simp
  ultimately show ?thesis
    using intents_run.answered [OF claimed_once_run, of w "[]" "''ok''" 8 "snd (wrote [] 7 ''check'' ''c1'' ''ok'' 8 (is_table claimed_once))"]
    by (simp add: answered_once_def w_def prod_eq_iff)
qed

theorem answer_is_to_its_own_question_witness:
  "is_answers answered_once = [(7, 1, 1)] \<and> distinct (map (\<lambda>(b, n, m). (b, n)) (is_answers answered_once))"
proof
  show "distinct (map (\<lambda>(b, n, m). (b, n)) (is_answers answered_once))"
    using answer_is_to_its_own_question [OF answered_once_run] by blast
qed code_simp

end
