(* ===== verification/Json.thy ===== *)
theory Json
  imports Texts
begin

text \<open>
  The JSON of \<open>wire/serializers.py\<close>, as Python's \<open>json\<close> module writes and reads it: the text
  of a value with ASCII-only strings, the reader, and the round trip.  A float's text is an
  argument on both sides, as \<open>repr\<close> and \<open>float\<close> give it.  The interpreter's limit on the depth
  of recursion is not modelled.
\<close>

section \<open>Writing\<close>

definition json_escape :: "char \<Rightarrow> string" where
  "json_escape c =
     (let n = of_char c :: nat
      in if c = CHR 0x22 \<or> c = CHR 0x5C then [CHR 0x5C, c]
         else if n = 8 then [CHR 0x5C, CHR ''b'']
         else if n = 9 then [CHR 0x5C, CHR ''t'']
         else if n = 10 then [CHR 0x5C, CHR ''n'']
         else if n = 12 then [CHR 0x5C, CHR ''f'']
         else if n = 13 then [CHR 0x5C, CHR ''r'']
         else if n < 32 \<or> 126 < n then [CHR 0x5C, CHR ''u'', CHR ''0'', CHR ''0'', hexdigit (n div 16), hexdigit (n mod 16)]
         else [c])"

definition json_quote :: "string \<Rightarrow> string" where
  "json_quote s = [CHR 0x22] @ concat (map json_escape s) @ [CHR 0x22]"

fun json_float :: "(rat \<Rightarrow> string) \<Rightarrow> pyfloat \<Rightarrow> string" where
  "json_float R (Fin q) = R q"
| "json_float R NaN = ''NaN''"
| "json_float R PosInf = ''Infinity''"
| "json_float R NegInf = ''-Infinity''"

text \<open>
  \<open>json.dumps\<close>; an object it has no form for, and an integer of more than 4300 digits, make it
  raise, which is \<open>None\<close>.
\<close>

fun json_dump :: "(rat \<Rightarrow> string) \<Rightarrow> pyval \<Rightarrow> string option" where
  "json_dump R PNone = Some ''null''"
| "json_dump R (PBool b) = Some (if b then ''true'' else ''false'')"
| "json_dump R (PInt n) = (if 4300 < length (dec_nat (nat \<bar>n\<bar>)) then None else Some (dec_int n))"
| "json_dump R (PFloat x) = Some (json_float R x)"
| "json_dump R (PStr s) = Some (json_quote s)"
| "json_dump R (PList xs) =
     map_option (\<lambda>ts. ''['' @ comma_joined ts @ '']'') (those (map (json_dump R) xs))"
| "json_dump R (PDict d) =
     map_option (\<lambda>ts. ''{'' @ comma_joined ts @ ''}'')
       (those (map (\<lambda>e. map_option (\<lambda>t. json_quote (fst e) @ '': '' @ t) (json_dump R (snd e))) d))"
| "json_dump R v = None"

section \<open>Reading\<close>

definition json_ws :: "char \<Rightarrow> bool" where
  "json_ws c = (c \<in> {CHR '' '', CHR 0x09, CHR 0x0A, CHR 0x0D})"

definition skip_ws :: "string \<Rightarrow> string" where
  "skip_ws s = dropWhile json_ws s"

definition json_unescape :: "char \<Rightarrow> char option" where
  "json_unescape c =
     (if c = CHR 0x22 \<or> c = CHR 0x5C \<or> c = CHR ''/'' then Some c
      else if c = CHR ''b'' then Some (CHR 0x08)
      else if c = CHR ''t'' then Some (CHR 0x09)
      else if c = CHR ''n'' then Some (CHR 0x0A)
      else if c = CHR ''f'' then Some (CHR 0x0C)
      else if c = CHR ''r'' then Some (CHR 0x0D)
      else None)"

text \<open>Four hexadecimal digits that name a code point below 256.\<close>

definition hex4 :: "string \<Rightarrow> char option" where
  "hex4 s =
     (case those (map hexval s) of
        Some [a, b, c, d] \<Rightarrow> if a = 0 \<and> b = 0 then Some (char_of (c * 16 + d)) else None
      | _ \<Rightarrow> None)"

text \<open>The inside of a string, up to its closing quote, and what follows it.\<close>

function json_chars :: "string \<Rightarrow> (string \<times> string) option" where
  "json_chars s =
     (case s of
        [] \<Rightarrow> None
      | c # cs \<Rightarrow>
          if c = CHR 0x22 then Some ([], cs)
          else if c = CHR 0x5C
          then (case cs of
                  [] \<Rightarrow> None
                | e # es \<Rightarrow>
                    if e = CHR ''u''
                    then (case hex4 (take 4 es) of
                            None \<Rightarrow> None
                          | Some x \<Rightarrow> map_option (\<lambda>(t, rest). (x # t, rest)) (json_chars (drop 4 es)))
                    else (case json_unescape e of
                            None \<Rightarrow> None
                          | Some x \<Rightarrow> map_option (\<lambda>(t, rest). (x # t, rest)) (json_chars es)))
          else if (of_char c :: nat) < 32 then None
          else map_option (\<lambda>(t, rest). (c # t, rest)) (json_chars cs))"
  by pat_completeness auto
termination by (relation "measure length") auto

declare json_chars.simps [simp del]

lemma json_chars_cases:
  assumes "json_chars s = Some (t, rest)"
  shows "(\<exists>cs. s = CHR 0x22 # rest) \<or> (\<exists>u t'. json_chars u = Some (t', rest) \<and> length u < length s)"
proof (cases s)
  case (Cons c cs)
  consider "c = CHR 0x22" | "c = CHR 0x5C" | "c \<noteq> CHR 0x22" "c \<noteq> CHR 0x5C" by blast
  then show ?thesis
  proof cases
    case 2
    with assms Cons show ?thesis
      by (subst (asm) json_chars.simps, cases cs) (fastforce split: option.splits if_splits)+
  qed (use assms Cons in \<open>subst (asm) json_chars.simps, fastforce split: if_splits\<close>)+
qed (use assms in \<open>simp add: json_chars.simps\<close>)

lemma json_chars_shorter: "json_chars s = Some (t, rest) \<Longrightarrow> length rest < length s"
proof (induction s arbitrary: t rule: length_induct)
  case (1 s)
  from json_chars_cases [OF "1.prems"] "1.IH" show ?case using less_trans by fastforce
qed

text \<open>
  A number is the longest run of the characters numbers are made of; what may legally follow a
  number is none of them.
\<close>

definition number_char :: "char \<Rightarrow> bool" where
  "number_char c = (c \<in> set ''0123456789+-.eE'')"

definition exponent_part :: "string \<Rightarrow> bool" where
  "exponent_part s =
     (case s of
        [] \<Rightarrow> False
      | c # cs \<Rightarrow>
          (c = CHR ''e'' \<or> c = CHR ''E'') \<and>
          (let ds = (case cs of d # ds \<Rightarrow> if d = CHR ''+'' \<or> d = CHR ''-'' then ds else cs | [] \<Rightarrow> [])
           in ds \<noteq> [] \<and> list_all is_digit ds))"

definition fraction_part :: "string \<Rightarrow> bool" where
  "fraction_part s =
     (case s of
        c # cs \<Rightarrow>
          if c = CHR ''.''
          then takeWhile is_digit cs \<noteq> [] \<and> (dropWhile is_digit cs = [] \<or> exponent_part (dropWhile is_digit cs))
          else exponent_part s
      | [] \<Rightarrow> False)"

definition number_value :: "py_text \<Rightarrow> string \<Rightarrow> pyval option" where
  "number_value T run =
     (let body = (case run of c # cs \<Rightarrow> if c = CHR ''-'' then cs else run | [] \<Rightarrow> []);
          whole = takeWhile is_digit body;
          rest = dropWhile is_digit body
      in if whole = [] \<or> (hd whole = CHR ''0'' \<and> 1 < length whole) then None
         else if rest = []
         then (if 4300 < length whole then None
               else Some (PInt (if hd run = CHR ''-'' then - int (dec_value whole) else int (dec_value whole))))
         else if fraction_part rest then map_option PFloat (float_text T run) else None)"

definition json_number :: "py_text \<Rightarrow> string \<Rightarrow> (pyval \<times> string) option" where
  "json_number T s =
     map_option (\<lambda>v. (v, dropWhile number_char s)) (number_value T (takeWhile number_char s))"

definition dict_of_pairs :: "(string \<times> 'v) list \<Rightarrow> (string \<times> 'v) list" where
  "dict_of_pairs kvs = fold (\<lambda>(k, v) d. dset k v d) kvs []"

lemma length_skip_ws: "length (skip_ws s) \<le> length s"
  by (simp add: skip_ws_def length_dropWhile_le)

lemma skip_ws_Cons: "skip_ws s = d # ds \<Longrightarrow> length ds < length s"
  using length_skip_ws [of s] by simp

lemma skip_ws_less: "length s < n \<Longrightarrow> length (skip_ws s) < n"
  using length_skip_ws [of s] by simp

function json_value :: "py_text \<Rightarrow> string \<Rightarrow> (pyval \<times> string) option"
  and json_items :: "py_text \<Rightarrow> string \<Rightarrow> (pyval list \<times> string) option"
  and json_members :: "py_text \<Rightarrow> string \<Rightarrow> ((string \<times> pyval) list \<times> string) option" where
  "json_value T s =
     (case s of
        [] \<Rightarrow> None
      | c # cs \<Rightarrow>
          if c = CHR 0x22 then map_option (\<lambda>(t, rest). (PStr t, rest)) (json_chars cs)
          else if c = CHR ''[''
          then (case skip_ws cs of
                  [] \<Rightarrow> None
                | d # ds \<Rightarrow>
                    if d = CHR '']'' then Some (PList [], ds)
                    else map_option (\<lambda>(vs, rest). (PList vs, rest)) (json_items T (skip_ws cs)))
          else if c = CHR ''{''
          then (case skip_ws cs of
                  [] \<Rightarrow> None
                | d # ds \<Rightarrow>
                    if d = CHR ''}'' then Some (PDict [], ds)
                    else map_option (\<lambda>(kvs, rest). (PDict (dict_of_pairs kvs), rest)) (json_members T (skip_ws cs)))
          else if take 4 s = ''null'' then Some (PNone, drop 4 s)
          else if take 4 s = ''true'' then Some (PBool True, drop 4 s)
          else if take 5 s = ''false'' then Some (PBool False, drop 5 s)
          else if take 3 s = ''NaN'' then Some (PFloat NaN, drop 3 s)
          else if take 8 s = ''Infinity'' then Some (PFloat PosInf, drop 8 s)
          else if take 9 s = ''-Infinity'' then Some (PFloat NegInf, drop 9 s)
          else json_number T s)"
| "json_items T s =
     (case json_value T s of
        None \<Rightarrow> None
      | Some (v, rest) \<Rightarrow>
          if length rest < length s
          then (case skip_ws rest of
                  [] \<Rightarrow> None
                | d # ds \<Rightarrow>
                    if d = CHR '']'' then Some ([v], ds)
                    else if d = CHR '','' then map_option (\<lambda>(vs, r). (v # vs, r)) (json_items T (skip_ws ds))
                    else None)
          else None)"
| "json_members T s =
     (case s of
        [] \<Rightarrow> None
      | c # cs \<Rightarrow>
          if c \<noteq> CHR 0x22 then None
          else (case json_chars cs of
                  None \<Rightarrow> None
                | Some (k, r1) \<Rightarrow>
                    (case skip_ws r1 of
                       [] \<Rightarrow> None
                     | d # ds \<Rightarrow>
                         if d \<noteq> CHR '':'' then None
                         else (case json_value T (skip_ws ds) of
                                 None \<Rightarrow> None
                               | Some (v, r2) \<Rightarrow>
                                   if length r2 < length s
                                   then (case skip_ws r2 of
                                           [] \<Rightarrow> None
                                         | e # es \<Rightarrow>
                                             if e = CHR ''}'' then Some ([(k, v)], es)
                                             else if e = CHR '',''
                                             then map_option (\<lambda>(kvs, r). ((k, v) # kvs, r)) (json_members T (skip_ws es))
                                             else None)
                                   else None))))"
  by pat_completeness auto

termination
  apply (relation "measure (\<lambda>x. case x of Inl (T, s) \<Rightarrow> 2 * length s | Inr (Inl (T, s)) \<Rightarrow> 2 * length s + 1 | Inr (Inr (T, s)) \<Rightarrow> 2 * length s + 1)")
        apply (auto simp: less_Suc_eq_le)
  subgoal using skip_ws_Cons by fastforce
  subgoal using skip_ws_Cons by fastforce
  subgoal for T s v rest ds using skip_ws_Cons [of rest] length_skip_ws [of ds] by fastforce
  subgoal for cs k rest ds using skip_ws_Cons [of rest] length_skip_ws [of ds] json_chars_shorter [of cs k rest] by fastforce
  subgoal for T cs k r1 ds v r2 es using skip_ws_Cons [of r2] length_skip_ws [of es] by fastforce
  done

declare json_value.simps [simp del] json_items.simps [simp del] json_members.simps [simp del]

text \<open>\<open>json.loads\<close>: one value with white space around it.\<close>

definition json_load :: "py_text \<Rightarrow> string \<Rightarrow> pyval option" where
  "json_load T s =
     (case json_value T (skip_ws s) of
        None \<Rightarrow> None
      | Some (v, rest) \<Rightarrow> if skip_ws rest = [] then Some v else None)"

section \<open>Reading what was written\<close>

lemma json_chars_escape:
  "json_chars (json_escape c @ s) = map_option (\<lambda>(t, rest). (c # t, rest)) (json_chars s)"
proof -
  define n where "n = (of_char c :: nat)"
  have c: "c = char_of n" and n: "n < 256" by (simp_all add: n_def)
  consider (special) "c = CHR 0x22 \<or> c = CHR 0x5C" | (short) "n \<in> {8, 9, 10, 12, 13}"
    | (long) "c \<noteq> CHR 0x22" "c \<noteq> CHR 0x5C" "n \<notin> {8, 9, 10, 12, 13}" "n < 32 \<or> 126 < n"
    | (plain) "c \<noteq> CHR 0x22" "c \<noteq> CHR 0x5C" "n \<notin> {8, 9, 10, 12, 13}" "\<not> n < 32" "\<not> 126 < n" by blast
  then show ?thesis
  proof cases
    case special
    then show ?thesis by (subst json_chars.simps) (auto simp: json_escape_def json_unescape_def)
  next
    case short
    have "char_of (8::nat) = CHR 0x08" "char_of (9::nat) = CHR 0x09" "char_of (10::nat) = CHR 0x0A"
      "char_of (12::nat) = CHR 0x0C" "char_of (13::nat) = CHR 0x0D" by code_simp+
    with short c consider "c = CHR 0x08" | "c = CHR 0x09" | "c = CHR 0x0A" | "c = CHR 0x0C" | "c = CHR 0x0D" by auto
    then show ?thesis by cases (subst json_chars.simps, simp add: json_escape_def json_unescape_def)+
  next
    case long
    have "json_escape c = [CHR 0x5C, CHR ''u'', CHR ''0'', CHR ''0'', hexdigit (n div 16), hexdigit (n mod 16)]"
      using long by (simp add: json_escape_def Let_def n_def)
    moreover have "hex4 [CHR ''0'', CHR ''0'', hexdigit (n div 16), hexdigit (n mod 16)] = Some c"
    proof -
      have "hexval CHR ''0'' = Some 0" by code_simp
      moreover have "n div 16 < 16" "n mod 16 < 16" using n by simp_all
      ultimately have "those (map hexval [CHR ''0'', CHR ''0'', hexdigit (n div 16), hexdigit (n mod 16)]) = Some [0, 0, n div 16, n mod 16]"
        by (simp add: hexdigit_props)
      then show ?thesis by (simp add: hex4_def c)
    qed
    ultimately show ?thesis by (subst json_chars.simps) simp
  next
    case plain
    then have "json_escape c = [c]" by (simp add: json_escape_def Let_def n_def)
    with plain show ?thesis by (subst json_chars.simps) (simp add: n_def)
  qed
qed

lemma json_chars_quote: "json_chars (concat (map json_escape s) @ CHR 0x22 # rest) = Some (s, rest)"
proof (induction s)
  case Nil
  show ?case by (subst json_chars.simps) simp
next
  case (Cons c s)
  then show ?case by (simp add: json_chars_escape)
qed

text \<open>A text reads back to a value wherever what follows it does not go on a number.\<close>

definition clean :: "string \<Rightarrow> bool" where
  "clean rest \<longleftrightarrow> rest = [] \<or> \<not> number_char (hd rest)"

definition reads :: "py_text \<Rightarrow> string \<Rightarrow> pyval \<Rightarrow> bool" where
  "reads T t v \<longleftrightarrow>
     t \<noteq> [] \<and> \<not> json_ws (hd t) \<and> hd t \<noteq> CHR '']'' \<and> (\<forall>rest. clean rest \<longrightarrow> json_value T (t @ rest) = Some (v, rest))"

lemma reads_quote: "reads T (json_quote s) (PStr s)"
  unfolding reads_def
  by (subst json_value.simps) (simp add: json_quote_def json_chars_quote json_ws_def)

lemma number_text_head:
  assumes "number_value T t = Some v"
  shows "\<exists>c cs. t = c # cs \<and> (is_digit c \<or> c = CHR ''-'' \<and> (\<exists>d ds. cs = d # ds \<and> is_digit d))"
proof (cases t)
  case (Cons c cs)
  have hd_while: "takeWhile is_digit u \<noteq> [] \<Longrightarrow> \<exists>d ds. u = d # ds \<and> is_digit d" for u by (cases u) (auto split: if_splits)
  from assms Cons have "takeWhile is_digit (if c = CHR ''-'' then cs else t) \<noteq> []"
    by (auto simp: number_value_def Let_def split: if_splits)
  with hd_while Cons show ?thesis by (auto split: if_splits)
qed (use assms in \<open>simp add: number_value_def\<close>)

lemma not_digits [simp]:
  "\<not> is_digit CHR 0x22" "\<not> is_digit CHR ''[''" "\<not> is_digit CHR '']''" "\<not> is_digit CHR ''{''" "\<not> is_digit CHR ''n''"
  "\<not> is_digit CHR ''t''" "\<not> is_digit CHR ''f''" "\<not> is_digit CHR ''N''" "\<not> is_digit CHR ''I''" "\<not> is_digit CHR ''-''"
  "\<not> is_digit CHR '' ''" "\<not> is_digit CHR 0x09" "\<not> is_digit CHR 0x0A" "\<not> is_digit CHR 0x0D"
  by code_simp+

lemma digit_no_ws: "is_digit c \<Longrightarrow> \<not> json_ws c"
  by (auto simp: json_ws_def)

lemma json_value_on_number:
  assumes "is_digit c \<or> c = CHR ''-'' \<and> (\<exists>d ds. cs = d # ds \<and> is_digit d)"
  shows "json_value T (c # cs) = json_number T (c # cs)"
proof -
  have ne: "c \<noteq> x" if "\<not> is_digit x" "x \<noteq> CHR ''-''" for x using assms that by auto
  have "c \<noteq> CHR 0x22" "c \<noteq> CHR ''[''" "c \<noteq> CHR ''{''" "c \<noteq> CHR ''n''" "c \<noteq> CHR ''t''" "c \<noteq> CHR ''f''" "c \<noteq> CHR ''N''" "c \<noteq> CHR ''I''"
    by (rule ne; simp)+
  moreover have "\<not> (c = CHR ''-'' \<and> take 8 cs = ''Infinity'')"
  proof
    assume i: "c = CHR ''-'' \<and> take 8 cs = ''Infinity''"
    with assms obtain d ds where "cs = d # ds" "is_digit d" by auto
    with i have "is_digit CHR ''I''" by simp
    then show False by simp
  qed
  ultimately show ?thesis by (subst json_value.simps) auto
qed

lemma reads_number:
  assumes "number_value T t = Some v" and "list_all number_char t"
  shows "reads T t v"
proof -
  obtain c cs where t: "t = c # cs" and c: "is_digit c \<or> c = CHR ''-'' \<and> (\<exists>d ds. cs = d # ds \<and> is_digit d)"
    using number_text_head [OF assms(1)] by blast
  have "json_value T (t @ rest) = Some (v, rest)" if "clean rest" for rest
  proof -
    have "takeWhile number_char (t @ rest) = t" "dropWhile number_char (t @ rest) = rest"
      using assms(2) that by (cases rest; simp add: clean_def list_all_iff takeWhile_append2 dropWhile_append2)+
    then have "json_number T (t @ rest) = Some (v, rest)" using assms(1) by (simp add: json_number_def)
    moreover have "json_value T (c # (cs @ rest)) = json_number T (c # (cs @ rest))"
      by (rule json_value_on_number) (use c in auto)
    ultimately show ?thesis by (simp add: t)
  qed
  moreover have "\<not> json_ws c \<and> c \<noteq> CHR '']''" using c by (auto simp: json_ws_def)
  ultimately show ?thesis by (simp add: reads_def t)
qed

lemma number_value_int:
  assumes "length (dec_nat (nat \<bar>n\<bar>)) \<le> 4300"
  shows "number_value T (dec_int n) = Some (PInt n)"
proof -
  define m where "m = nat \<bar>n\<bar>"
  have whole: "takeWhile is_digit (dec_nat m) = dec_nat m" "dropWhile is_digit (dec_nat m) = []"
    using dec_nat_digits [of m] by simp_all
  have first: "\<not> (hd (dec_nat m) = CHR ''0'' \<and> 1 < length (dec_nat m))"
  proof
    assume "hd (dec_nat m) = CHR ''0'' \<and> 1 < length (dec_nat m)"
    then have "m = 0" "1 < length (dec_nat m)" using dec_nat_head by blast+
    then show False by (simp add: dec_nat.simps)
  qed
  have "hd (dec_nat m) \<noteq> CHR ''-''"
    using dec_nat_digits [of m] by (cases "dec_nat m") auto
  then have body: "(case dec_int n of c # cs \<Rightarrow> if c = CHR ''-'' then cs else dec_int n | [] \<Rightarrow> []) = dec_nat m"
    "(hd (dec_int n) = CHR ''-'') = (n < 0)"
    by (cases "dec_nat m"; auto simp: dec_int_def m_def)+
  show ?thesis using assms first
    by (simp add: number_value_def Let_def body whole flip: m_def) (simp add: m_def)
qed

lemma dec_int_number: "list_all number_char (dec_int n)"
proof -
  have "is_digit c \<Longrightarrow> number_char c" for c by (auto simp: is_digit_def number_char_def)
  with dec_nat_digits show ?thesis by (auto simp: dec_int_def list_all_iff number_char_def)
qed

lemma skip_ws_same: "s = [] \<or> \<not> json_ws (hd s) \<Longrightarrow> skip_ws s = s"
  by (cases s) (simp_all add: skip_ws_def)

lemma skip_ws_sep [simp]:
  "skip_ws (CHR '','' # s) = CHR '','' # s" "skip_ws (CHR '']'' # s) = CHR '']'' # s" "skip_ws (CHR ''}'' # s) = CHR ''}'' # s"
  "skip_ws (CHR '':'' # s) = CHR '':'' # s" "skip_ws (CHR '' '' # s) = skip_ws s" "skip_ws (CHR 0x22 # s) = CHR 0x22 # s"
  by (simp_all add: skip_ws_def json_ws_def)

lemma clean_sep [simp]: "clean []" "clean (CHR '','' # s)" "clean (CHR '']'' # s)" "clean (CHR ''}'' # s)"
  by (simp_all add: clean_def number_char_def)

lemma readsD: "reads T t v \<Longrightarrow> clean rest \<Longrightarrow> json_value T (t @ rest) = Some (v, rest)"
  by (simp add: reads_def)

lemma reads_skip: "reads T t v \<Longrightarrow> skip_ws (t @ rest) = t @ rest"
  by (rule skip_ws_same) (auto simp: reads_def)

lemma comma_joined_Cons: "comma_joined (x # xs) = (if xs = [] then x else x @ CHR '','' # CHR '' '' # comma_joined xs)"
  by (cases xs) simp_all

lemma items_skip:
  assumes "list_all2 (reads T) ts vs" and "ts \<noteq> []"
  shows "skip_ws (comma_joined ts @ rest) = comma_joined ts @ rest" and "hd (comma_joined ts) \<noteq> CHR '']''" and "comma_joined ts \<noteq> []"
proof -
  obtain t ts' where ts: "ts = t # ts'" using assms(2) by (cases ts) auto
  with assms(1) obtain v where r: "reads T t v" by (auto simp: list_all2_Cons1)
  then have head: "t \<noteq> []" "hd t \<noteq> CHR '']''" by (simp_all add: reads_def)
  show "skip_ws (comma_joined ts @ rest) = comma_joined ts @ rest"
    using reads_skip [OF r] by (simp add: ts comma_joined_Cons)
  show "hd (comma_joined ts) \<noteq> CHR '']''" "comma_joined ts \<noteq> []" using head by (simp_all add: ts comma_joined_Cons)
qed

lemma json_items_joined:
  assumes "list_all2 (reads T) ts vs" and "ts \<noteq> []"
  shows "json_items T (comma_joined ts @ CHR '']'' # rest) = Some (vs, rest)"
  using assms
proof (induction ts arbitrary: vs)
  case (Cons t ts)
  then obtain v vs' where vs: "vs = v # vs'" "reads T t v" "list_all2 (reads T) ts vs'" by (auto simp: list_all2_Cons1)
  have ne: "t \<noteq> []" using vs(2) by (simp add: reads_def)
  show ?case
  proof (cases "ts = []")
    case True
    with readsD [OF vs(2), of "CHR '']'' # rest"] vs ne show ?thesis by (subst json_items.simps) simp
  next
    case False
    define more where "more = CHR '','' # CHR '' '' # comma_joined ts @ CHR '']'' # rest"
    have "json_value T (t @ more) = Some (v, more)" by (rule readsD [OF vs(2)]) (simp add: more_def)
    moreover have "json_items T (skip_ws (CHR '' '' # comma_joined ts @ CHR '']'' # rest)) = Some (vs', rest)"
      using Cons.IH [OF vs(3) False] items_skip(1) [OF vs(3) False] by simp
    ultimately have "json_items T (t @ more) = Some (v # vs', rest)"
      using ne by (subst json_items.simps) (simp add: more_def)
    with False vs show ?thesis by (simp add: more_def comma_joined_Cons)
  qed
qed simp

lemma reads_list:
  assumes "list_all2 (reads T) ts vs"
  shows "reads T (''['' @ comma_joined ts @ '']'') (PList vs)"
proof (cases "ts = []")
  case True
  with assms show ?thesis unfolding reads_def by (subst json_value.simps) (simp add: json_ws_def)
next
  case False
  note items = items_skip [OF assms False] json_items_joined [OF assms False]
  show ?thesis unfolding reads_def
  proof (intro conjI allI impI)
    fix rest
    obtain d ds where j: "comma_joined ts = d # ds" using items(3) by (cases "comma_joined ts") auto
    show "json_value T ((''['' @ comma_joined ts @ '']'') @ rest) = Some (PList vs, rest)"
      using items(1) [of "CHR '']'' # rest"] items(2) items(4) [of rest] by (subst json_value.simps) (simp add: j)
  qed (simp_all add: json_ws_def)
qed

definition reads_member :: "py_text \<Rightarrow> string \<Rightarrow> string \<times> pyval \<Rightarrow> bool" where
  "reads_member T m e \<longleftrightarrow> (\<exists>t. m = json_quote (fst e) @ '': '' @ t \<and> reads T t (snd e))"

lemma json_members_joined:
  assumes "list_all2 (reads_member T) ms kvs" and "ms \<noteq> []"
  shows "json_members T (comma_joined ms @ CHR ''}'' # rest) = Some (kvs, rest)"
  using assms
proof (induction ms arbitrary: kvs)
  case (Cons m ms)
  then obtain k v kvs' where kvs: "kvs = (k, v) # kvs'" "reads_member T m (k, v)" "list_all2 (reads_member T) ms kvs'"
    by (auto simp: list_all2_Cons1)
  then obtain t where m: "m = json_quote k @ '': '' @ t" and t: "reads T t v" by (auto simp: reads_member_def)
  define chars where "chars = concat (map json_escape k)"
  have head: "json_members T (CHR 0x22 # chars @ CHR 0x22 # CHR '':'' # CHR '' '' # t @ more) =
      (case skip_ws more of
         [] \<Rightarrow> None
       | e # es \<Rightarrow>
           if e = CHR ''}'' then Some ([(k, v)], es)
           else if e = CHR '','' then map_option (\<lambda>(kvs, r). ((k, v) # kvs, r)) (json_members T (skip_ws es))
           else None)" if "clean more" for more
    using readsD [OF t that] reads_skip [OF t, of more]
    by (subst json_members.simps) (simp add: json_chars_quote [of k, folded chars_def])
  show ?case
  proof (cases "ms = []")
    case True
    with head [of "CHR ''}'' # rest"] kvs m show ?thesis by (simp add: json_quote_def flip: chars_def)
  next
    case False
    then obtain m' ms' where ms: "ms = m' # ms'" by (cases ms) auto
    obtain cs where "m' = CHR 0x22 # cs" using kvs(3) by (auto simp: ms list_all2_Cons1 reads_member_def json_quote_def)
    then obtain cs' where cs': "comma_joined ms = CHR 0x22 # cs'" by (cases "ms' = []") (auto simp: ms comma_joined_Cons)
    with head [of "CHR '','' # CHR '' '' # comma_joined ms @ CHR ''}'' # rest"] Cons.IH [OF kvs(3) False] kvs m False show ?thesis
      by (simp add: json_quote_def comma_joined_Cons flip: chars_def)
  qed
qed simp

lemma dict_of_pairs_distinct: "distinct (map fst kvs) \<Longrightarrow> dict_of_pairs kvs = kvs"
proof -
  have "distinct (map fst (d @ kvs)) \<Longrightarrow> fold (\<lambda>(k, v) d. dset k v d) kvs d = d @ kvs" for d :: "(string \<times> 'a) list"
  proof (induction kvs arbitrary: d)
    case (Cons e kvs)
    obtain k v where e: "e = (k, v)" by (cases e)
    have "k \<notin> fst ` set d" using Cons.prems e by auto
    then have "dset k v d = d @ [(k, v)]" by (induction d) auto
    with Cons.IH [of "d @ [(k, v)]"] Cons.prems e show ?case by simp
  qed simp
  from this [of "[]"] show "distinct (map fst kvs) \<Longrightarrow> dict_of_pairs kvs = kvs" by (simp add: dict_of_pairs_def)
qed

lemma reads_dict:
  assumes "list_all2 (reads_member T) ms kvs" and "distinct (map fst kvs)"
  shows "reads T (''{'' @ comma_joined ms @ ''}'') (PDict kvs)"
proof (cases ms)
  case Nil
  with assms show ?thesis unfolding reads_def by (subst json_value.simps) (simp add: json_ws_def)
next
  case (Cons m ms')
  then have ne: "ms \<noteq> []" by simp
  obtain cs where "m = CHR 0x22 # cs" using assms(1) by (auto simp: Cons list_all2_Cons1 reads_member_def json_quote_def)
  then obtain cs' where cs': "comma_joined ms = CHR 0x22 # cs'" by (cases "ms' = []") (auto simp: Cons comma_joined_Cons)
  note members = json_members_joined [OF assms(1) ne]
  show ?thesis unfolding reads_def
  proof (intro conjI allI impI)
    fix rest
    show "json_value T ((''{'' @ comma_joined ms @ ''}'') @ rest) = Some (PDict kvs, rest)"
      using members [of rest] dict_of_pairs_distinct [OF assms(2)] by (subst json_value.simps) (simp add: cs')
  qed (simp_all add: json_ws_def)
qed

text \<open>
  The values JSON has a form for that reads back: dictionaries with distinct keys, integers within
  the digit limit, and finite floats whose \<open>repr\<close> is a float literal that reads as the float.
\<close>

fun plain :: "(rat \<Rightarrow> string) \<Rightarrow> py_text \<Rightarrow> pyval \<Rightarrow> bool" where
  "plain R T (PInt n) = (length (dec_nat (nat \<bar>n\<bar>)) \<le> 4300)"
| "plain R T (PFloat (Fin q)) = (list_all number_char (R q) \<and> number_value T (R q) = Some (PFloat (Fin q)))"
| "plain R T (PList xs) = (\<forall>x \<in> set xs. plain R T x)"
| "plain R T (PDict d) = (distinct (map fst d) \<and> (\<forall>e \<in> set d. plain R T (snd e)))"
| "plain R T (PBytes _) = False"
| "plain R T (PUuid _) = False"
| "plain R T (PObj _) = False"
| "plain R T _ = True"

lemma those_map:
  assumes "\<forall>x \<in> set xs. \<exists>t. f x = Some t \<and> P t x"
  shows "\<exists>ts. those (map f xs) = Some ts \<and> list_all2 P ts xs"
  using assms by (induction xs) fastforce+

lemma reads_literal:
  "reads T ''null'' PNone" "reads T ''true'' (PBool True)" "reads T ''false'' (PBool False)"
  "reads T ''NaN'' (PFloat NaN)" "reads T ''Infinity'' (PFloat PosInf)" "reads T ''-Infinity'' (PFloat NegInf)"
  unfolding reads_def by (subst json_value.simps, simp add: json_ws_def)+

lemma json_dump_reads:
  assumes "plain R T v"
  shows "\<exists>t. json_dump R v = Some t \<and> reads T t v"
  using assms
proof (induction v)
  case (PFloat x)
  then show ?case by (cases x) (auto intro: reads_number reads_literal)
next
  case (PList xs)
  then have "\<forall>x \<in> set xs. \<exists>t. json_dump R x = Some t \<and> reads T t x" by simp
  from those_map [OF this] show ?case by (auto dest: reads_list)
next
  case (PDict d)
  have "\<forall>e \<in> set d. \<exists>m. map_option (\<lambda>t. json_quote (fst e) @ '': '' @ t) (json_dump R (snd e)) = Some m \<and> reads_member T m e"
  proof
    fix e assume e: "e \<in> set d"
    then have "plain R T (snd e)" using PDict.prems by simp
    then obtain t where "json_dump R (snd e) = Some t" "reads T t (snd e)" using PDict.IH [OF e] by (cases e) auto
    then show "\<exists>m. map_option (\<lambda>t. json_quote (fst e) @ '': '' @ t) (json_dump R (snd e)) = Some m \<and> reads_member T m e"
      by (auto simp: reads_member_def)
  qed
  from those_map [OF this] PDict.prems show ?case by (auto dest: reads_dict)
qed (auto simp: reads_literal reads_quote intro: reads_number number_value_int dec_int_number)

lemma json_round_trip:
  assumes "plain R T v"
  shows "\<exists>t. json_dump R v = Some t \<and> json_load T t = Some v"
proof -
  obtain t where t: "json_dump R v = Some t" "reads T t v" using json_dump_reads [OF assms] by blast
  then have "json_value T (skip_ws t) = Some (v, [])" using readsD [OF t(2), of "[]"] reads_skip [OF t(2), of "[]"] by simp
  then show ?thesis using t(1) by (simp add: json_load_def skip_ws_def)
qed

section \<open>What is written is ASCII\<close>

definition ascii :: "string \<Rightarrow> bool" where
  "ascii s \<longleftrightarrow> (\<forall>c \<in> set s. (of_char c :: nat) < 128)"

lemma ascii_parts [simp]:
  "ascii []" "ascii (c # s) \<longleftrightarrow> (of_char c :: nat) < 128 \<and> ascii s" "ascii (s @ t) \<longleftrightarrow> ascii s \<and> ascii t"
  "ascii (concat ss) \<longleftrightarrow> (\<forall>s \<in> set ss. ascii s)"
  by (auto simp: ascii_def)

lemma ascii_joined: "(\<forall>t \<in> set ts. ascii t) \<Longrightarrow> ascii (comma_joined ts)"
  by (induction ts rule: comma_joined.induct) auto

lemma ascii_hexdigit: "n < 16 \<Longrightarrow> (of_char (hexdigit n) :: nat) < 128"
proof -
  have "\<forall>m \<in> {0..<16}. (of_char (hexdigit m) :: nat) < 128" by code_simp
  then show "n < 16 \<Longrightarrow> (of_char (hexdigit n) :: nat) < 128" by simp
qed

lemma ascii_escape: "ascii (json_escape c)"
proof -
  have "(of_char c :: nat) < 16 * 16" by simp
  then have "(of_char c :: nat) div 16 < 16" "(of_char c :: nat) mod 16 < 16"
    by (rule less_mult_imp_div_less) simp
  then show ?thesis by (auto simp: json_escape_def Let_def intro: ascii_hexdigit)
qed

lemma ascii_quote: "ascii (json_quote s)"
  by (simp add: json_quote_def ascii_escape)

lemma ascii_number: "list_all number_char s \<Longrightarrow> ascii s"
proof -
  have "number_char c \<Longrightarrow> (of_char c :: nat) < 128" for c by (auto simp: number_char_def is_digit_def)
  then show "list_all number_char s \<Longrightarrow> ascii s" by (auto simp: ascii_def list_all_iff)
qed

lemma value_of_pair [simp]: "snd e \<in> Basic_BNFs.snds e"
  by (cases e) simp

lemma json_dump_ascii:
  assumes "plain R T v" and "json_dump R v = Some t"
  shows "ascii t"
  using assms
proof (induction v arbitrary: t)
  case (PFloat x)
  then show ?case by (cases x) (auto intro: ascii_number)
next
  case (PList xs)
  then obtain ts where ts: "those (map (json_dump R) xs) = Some ts" "t = ''['' @ comma_joined ts @ '']''" by auto
  have "\<forall>x \<in> set xs. \<forall>u. json_dump R x = Some u \<longrightarrow> ascii u" using PList.IH PList.prems(1) by simp
  then have "\<forall>u \<in> set ts. ascii u" using ts(1)
    by (induction xs arbitrary: ts) (auto split: option.splits)
  then show ?case using ts(2) by (simp add: ascii_joined)
next
  case (PDict d)
  then obtain ts where ts: "those (map (\<lambda>e. map_option (\<lambda>t. json_quote (fst e) @ '': '' @ t) (json_dump R (snd e))) d) = Some ts"
    "t = ''{'' @ comma_joined ts @ ''}''" by auto
  have d: "\<forall>e \<in> set d. \<forall>u. json_dump R (snd e) = Some u \<longrightarrow> ascii u"
  proof (intro ballI allI impI)
    fix e u assume "e \<in> set d" "json_dump R (snd e) = Some u"
    then show "ascii u" using PDict.IH [of e "snd e" u] PDict.prems(1) by auto
  qed
  then have "\<forall>u \<in> set ts. ascii u" using ts(1)
    by (induction d arbitrary: ts) (auto simp: ascii_quote split: option.splits)
  then show ?case using ts(2) by (simp add: ascii_joined)
qed (auto simp: ascii_quote intro!: ascii_number dec_int_number split: if_splits)

end
