(* ===== verification/Codecs.thy ===== *)
theory Codecs
  imports Texts
begin

text \<open>
  The text forms of the standard library that \<open>wire/serializers.py\<close> writes values in: base64,
  ISO 8601 dates and times, and decimals, each with the reader of the forms its writer produces and
  the round trip.  The readers are undefined here on any other text; \<open>nan\<close> is not among the decimals,
  since no decimal equals it.
\<close>

section \<open>Base64\<close>

definition b64_alphabet :: string where
  "b64_alphabet = ''ABCDEFGHIJKLMNOPQRSTUVWXYZabcdefghijklmnopqrstuvwxyz0123456789+/''"

definition b64char :: "nat \<Rightarrow> char" where
  "b64char n = b64_alphabet ! n"

fun index_of :: "char \<Rightarrow> string \<Rightarrow> nat option" where
  "index_of c [] = None"
| "index_of c (d # ds) = (if c = d then Some 0 else map_option Suc (index_of c ds))"

definition b64val :: "char \<Rightarrow> nat option" where
  "b64val c = index_of c b64_alphabet"

fun b64encode :: "string \<Rightarrow> string" where
  "b64encode [] = []"
| "b64encode [a] = (let x = of_char a in [b64char (x div 4), b64char (x mod 4 * 16), CHR ''='', CHR ''=''])"
| "b64encode [a, b] =
     (let x = of_char a; y = of_char b
      in [b64char (x div 4), b64char (x mod 4 * 16 + y div 16), b64char (y mod 16 * 4), CHR ''=''])"
| "b64encode (a # b # c # cs) =
     (let x = of_char a; y = of_char b; z = of_char c
      in [b64char (x div 4), b64char (x mod 4 * 16 + y div 16), b64char (y mod 16 * 4 + z div 64), b64char (z mod 64)]
         @ b64encode cs)"

fun b64quad :: "char \<Rightarrow> char \<Rightarrow> char \<Rightarrow> char \<Rightarrow> string option" where
  "b64quad a b c d =
     (case (b64val a, b64val b, b64val c, b64val d) of
        (Some p, Some q, Some r, Some s) \<Rightarrow>
          Some [char_of (p * 4 + q div 16), char_of (q mod 16 * 16 + r div 4), char_of (r mod 4 * 64 + s)]
      | _ \<Rightarrow> None)"

text \<open>What \<open>b64decode\<close> answers for whole groups of the alphabet with their padding.\<close>

fun b64decode :: "string \<Rightarrow> string option" where
  "b64decode [] = Some []"
| "b64decode (a # b # c # d # cs) =
     (if cs = [] \<and> d = CHR ''=''
      then (if c = CHR ''=''
            then map_option (take 1) (b64quad a b CHR ''A'' CHR ''A'')
            else map_option (take 2) (b64quad a b c CHR ''A''))
      else (case b64quad a b c d of None \<Rightarrow> None | Some xs \<Rightarrow> map_option (append xs) (b64decode cs)))"
| "b64decode _ = None"

section \<open>Dates and times\<close>

record date =
  d_year :: nat
  d_month :: nat
  d_day :: nat

record datetime =
  dt_date :: date
  dt_hour :: nat
  dt_minute :: nat
  dt_second :: nat
  dt_micro :: nat
  dt_offset :: "int option"

definition days_in_month :: "nat \<Rightarrow> nat \<Rightarrow> nat" where
  "days_in_month y m =
     (if m = 2 then (if 4 dvd y \<and> (\<not> 100 dvd y \<or> 400 dvd y) then 29 else 28)
      else if m \<in> {4, 6, 9, 11} then 30 else 31)"

definition valid_date :: "date \<Rightarrow> bool" where
  "valid_date d =
     (1 \<le> d_year d \<and> d_year d \<le> 9999 \<and> 1 \<le> d_month d \<and> d_month d \<le> 12 \<and>
      1 \<le> d_day d \<and> d_day d \<le> days_in_month (d_year d) (d_month d))"

text \<open>The offset of an aware time is counted in microseconds; it is less than a day either way.\<close>

definition DAY :: nat where "DAY = 86400000000"

definition valid_datetime :: "datetime \<Rightarrow> bool" where
  "valid_datetime t =
     (valid_date (dt_date t) \<and> dt_hour t < 24 \<and> dt_minute t < 60 \<and> dt_second t < 60 \<and> dt_micro t < 1000000 \<and>
      (case dt_offset t of None \<Rightarrow> True | Some o' \<Rightarrow> nat \<bar>o'\<bar> < DAY))"

text \<open>The last \<open>k\<close> decimal digits of a number.\<close>

fun digits :: "nat \<Rightarrow> nat \<Rightarrow> string" where
  "digits 0 n = []"
| "digits (Suc k) n = digits k (n div 10) @ [char_of (48 + n mod 10)]"

definition date_isoformat :: "date \<Rightarrow> string" where
  "date_isoformat d = digits 4 (d_year d) @ ''-'' @ digits 2 (d_month d) @ ''-'' @ digits 2 (d_day d)"

definition iso_fraction :: "nat \<Rightarrow> string" where
  "iso_fraction us = (if us = 0 then [] else ''.'' @ digits 6 us)"

definition iso_clock :: "nat \<Rightarrow> nat \<Rightarrow> string" where
  "iso_clock h m = digits 2 h @ '':'' @ digits 2 m"

definition iso_offset :: "int option \<Rightarrow> string" where
  "iso_offset off =
     (case off of
        None \<Rightarrow> []
      | Some o' \<Rightarrow>
          (let a = nat \<bar>o'\<bar>; h = a div 3600000000; m = a div 60000000 mod 60; s = a div 1000000 mod 60; us = a mod 1000000
           in (if o' < 0 then ''-'' else ''+'') @ iso_clock h m @
              (if s = 0 \<and> us = 0 then [] else '':'' @ digits 2 s @ iso_fraction us)))"

definition isoformat :: "datetime \<Rightarrow> string" where
  "isoformat t =
     date_isoformat (dt_date t) @ ''T'' @ iso_clock (dt_hour t) (dt_minute t) @ '':'' @ digits 2 (dt_second t) @
     iso_fraction (dt_micro t) @ iso_offset (dt_offset t)"

text \<open>Exactly \<open>k\<close> digits, or a given character, at the head of a text.\<close>

definition take_digits :: "nat \<Rightarrow> string \<Rightarrow> (nat \<times> string) option" where
  "take_digits k s =
     (if k \<le> length s \<and> list_all is_digit (take k s) then Some (dec_value (take k s), drop k s) else None)"

definition take_char :: "char \<Rightarrow> string \<Rightarrow> string option" where
  "take_char c s = (case s of d # ds \<Rightarrow> if d = c then Some ds else None | [] \<Rightarrow> None)"

definition read_date :: "string \<Rightarrow> (date \<times> string) option" where
  "read_date s =
     Option.bind (take_digits 4 s) (\<lambda>(y, s). Option.bind (take_char CHR ''-'' s) (\<lambda>s.
     Option.bind (take_digits 2 s) (\<lambda>(m, s). Option.bind (take_char CHR ''-'' s) (\<lambda>s.
     Option.bind (take_digits 2 s) (\<lambda>(d, s). Some (\<lparr> d_year = y, d_month = m, d_day = d \<rparr>, s))))))"

definition date_fromisoformat :: "string \<Rightarrow> date option" where
  "date_fromisoformat s =
     (case read_date s of Some (d, []) \<Rightarrow> if valid_date d then Some d else None | _ \<Rightarrow> None)"

definition read_fraction :: "string \<Rightarrow> (nat \<times> string) option" where
  "read_fraction s = (case take_char CHR ''.'' s of None \<Rightarrow> Some (0, s) | Some s' \<Rightarrow> take_digits 6 s')"

definition read_clock :: "string \<Rightarrow> ((nat \<times> nat) \<times> string) option" where
  "read_clock s =
     Option.bind (take_digits 2 s) (\<lambda>(h, s). Option.bind (take_char CHR '':'' s) (\<lambda>s.
     Option.bind (take_digits 2 s) (\<lambda>(m, s). Some ((h, m), s))))"

definition read_seconds :: "string \<Rightarrow> ((nat \<times> nat) \<times> string) option" where
  "read_seconds s =
     (case take_char CHR '':'' s of
        None \<Rightarrow> Some ((0, 0), s)
      | Some s' \<Rightarrow> Option.bind (take_digits 2 s') (\<lambda>(x, s). Option.bind (read_fraction s) (\<lambda>(us, s). Some ((x, us), s))))"

definition read_offset :: "string \<Rightarrow> int option option" where
  "read_offset s =
     (case s of
        [] \<Rightarrow> Some None
      | c # cs \<Rightarrow>
          if c \<noteq> CHR ''+'' \<and> c \<noteq> CHR ''-'' then None
          else (case Option.bind (read_clock cs) (\<lambda>((h, m), s).
                       Option.bind (read_seconds s) (\<lambda>((x, us), s). Some (((h * 60 + m) * 60 + x) * 1000000 + us, s))) of
                  Some (a, []) \<Rightarrow> Some (Some (if c = CHR ''-'' then - int a else int a))
                | _ \<Rightarrow> None))"

definition fromisoformat :: "string \<Rightarrow> datetime option" where
  "fromisoformat s =
     (case Option.bind (read_date s) (\<lambda>(d, s). Option.bind (take_char CHR ''T'' s) (\<lambda>s.
             Option.bind (read_clock s) (\<lambda>((h, m), s). Option.bind (take_char CHR '':'' s) (\<lambda>s.
             Option.bind (take_digits 2 s) (\<lambda>(x, s). Option.bind (read_fraction s) (\<lambda>(us, s).
             Option.bind (read_offset s) (\<lambda>off.
               Some \<lparr> dt_date = d, dt_hour = h, dt_minute = m, dt_second = x, dt_micro = us, dt_offset = off \<rparr>))))))) of
        Some t \<Rightarrow> if valid_datetime t then Some t else None
      | None \<Rightarrow> None)"

section \<open>Decimals\<close>

text \<open>A finite decimal is a sign, a coefficient and an exponent; zeros and signs are kept apart, as \<open>Decimal\<close> keeps them.\<close>

datatype decimal = Finite bool nat int | Infinite bool

definition signed_text :: "int \<Rightarrow> string" where
  "signed_text n = (if n < 0 then ''-'' else ''+'') @ dec_nat (nat \<bar>n\<bar>)"

definition decimal_text :: "decimal \<Rightarrow> string" where
  "decimal_text d =
     (case d of
        Infinite neg \<Rightarrow> (if neg then ''-'' else []) @ ''Infinity''
      | Finite neg coeff e \<Rightarrow>
          (let ds = dec_nat coeff; n = int (length ds); left = e + n;
               dot = (if e \<le> 0 \<and> left > -6 then left else 1);
               (whole, part) =
                 (if dot \<le> 0 then (''0'', ''.'' @ replicate (nat (- dot)) CHR ''0'' @ ds)
                  else if n \<le> dot then (ds @ replicate (nat (dot - n)) CHR ''0'', [])
                  else (take (nat dot) ds, ''.'' @ drop (nat dot) ds))
           in (if neg then ''-'' else []) @ whole @ part @ (if left = dot then [] else ''E'' @ signed_text (left - dot))))"

definition read_exponent :: "string \<Rightarrow> int option" where
  "read_exponent s =
     (case s of
        [] \<Rightarrow> Some 0
      | c # d # ds \<Rightarrow>
          if c = CHR ''E'' \<and> (d = CHR ''+'' \<or> d = CHR ''-'') \<and> ds \<noteq> [] \<and> list_all is_digit ds
          then Some (if d = CHR ''-'' then - int (dec_value ds) else int (dec_value ds)) else None
      | _ \<Rightarrow> None)"

definition read_unsigned :: "bool \<Rightarrow> string \<Rightarrow> decimal option" where
  "read_unsigned neg s =
     (if s = ''Infinity'' then Some (Infinite neg)
      else (let whole = takeWhile is_digit s; r1 = dropWhile is_digit s;
                (part, r2) = (case r1 of c # cs \<Rightarrow> if c = CHR ''.'' then (takeWhile is_digit cs, dropWhile is_digit cs) else ([], r1)
                                       | [] \<Rightarrow> ([], []))
            in if whole = [] then None
               else map_option (\<lambda>e. Finite neg (dec_value (whole @ part)) (e - int (length part))) (read_exponent r2)))"

definition read_decimal :: "string \<Rightarrow> decimal option" where
  "read_decimal s = (case s of c # cs \<Rightarrow> if c = CHR ''-'' then read_unsigned True cs else read_unsigned False s | [] \<Rightarrow> None)"

section \<open>Reading what was written\<close>

lemma b64_facts:
  assumes "n < 64"
  shows "b64val (b64char n) = Some n" and "b64char n \<noteq> CHR ''=''"
proof -
  have "list_all (\<lambda>n. b64val (b64char n) = Some n \<and> b64char n \<noteq> CHR ''='') [0..<64]" by code_simp
  with assms show "b64val (b64char n) = Some n" "b64char n \<noteq> CHR ''=''" by (simp_all add: list_all_iff)
qed

lemma b64val_A: "b64val CHR ''A'' = Some 0"
  by code_simp

lemma byte: "(of_char c :: nat) < 256"
  by simp

lemma b64quad_bits:
  assumes "x < 256" "y < 256" "z < 256"
  shows "b64quad (b64char (x div 4)) (b64char (x mod 4 * 16 + y div 16)) (b64char (y mod 16 * 4 + z div 64)) (b64char (z mod 64)) =
    Some [char_of x, char_of y, char_of (z :: nat)]"
proof -
  have "x div 4 < 64" "x mod 4 * 16 + y div 16 < 64" "y mod 16 * 4 + z div 64 < 64" "z mod 64 < 64" using assms by auto
  moreover have "x div 4 * 4 + (x mod 4 * 16 + y div 16) div 16 = x" using assms by auto
  moreover have "(x mod 4 * 16 + y div 16) mod 16 * 16 + (y mod 16 * 4 + z div 64) div 4 = y" using assms by auto
  moreover have "(y mod 16 * 4 + z div 64) mod 4 * 64 + z mod 64 = z" using assms by auto
  ultimately show ?thesis by (simp add: b64_facts)
qed

lemma b64decode_encode: "b64decode (b64encode s) = Some s"
proof (induction s rule: b64encode.induct)
  case (2 a)
  have "b64quad (b64char (of_char a div 4)) (b64char (of_char a mod 4 * 16)) CHR ''A'' CHR ''A'' = Some [a, char_of (0::nat), char_of (0::nat)]"
    using b64quad_bits [OF byte, of 0 0 a] by (simp add: b64val_A b64_facts)
  then show ?case by (simp add: Let_def del: b64quad.simps)
next
  case (3 a b)
  have "b64quad (b64char (of_char a div 4)) (b64char (of_char a mod 4 * 16 + of_char b div 16)) (b64char (of_char b mod 16 * 4)) CHR ''A'' =
      Some [a, b, char_of (0::nat)]"
    using b64quad_bits [OF byte byte, of 0 a b] by (simp add: b64val_A b64_facts)
  moreover have "b64char (of_char b mod 16 * 4) \<noteq> CHR ''=''" by (rule b64_facts) simp
  ultimately show ?case by (simp add: Let_def del: b64quad.simps)
next
  case (4 a b c cs)
  have "b64char (of_char c mod 64) \<noteq> CHR ''=''" by (rule b64_facts) simp
  with 4 b64quad_bits [OF byte byte byte, of a b c] show ?case by (simp add: Let_def del: b64quad.simps)
qed simp

lemma digits_facts:
  "length (digits k n) = k" "list_all is_digit (digits k n)" "dec_value (digits k n) = n mod 10 ^ k"
proof (induction k arbitrary: n)
  case 0
  { case 1 show ?case by simp }
  { case 2 show ?case by simp }
  { case 3 show ?case by (simp add: dec_value_def) }
next
  case (Suc k)
  { case 1 show ?case by (simp add: Suc) }
  { case 2 show ?case by (simp add: Suc digit_facts) }
  { case 3
    have "n div 10 mod 10 ^ k * 10 + n mod 10 = n mod 10 ^ Suc k"
      by (metis add.commute mod_mult2_eq mult.commute power_Suc)
    then show ?case by (simp add: Suc dec_value_snoc digit_facts) }
qed

lemma take_digits_digits [simp]: "n < 10 ^ k \<Longrightarrow> take_digits k (digits k n @ s) = Some (n, s)"
  by (simp add: take_digits_def digits_facts)

lemma take_char_same [simp]: "take_char c (c # s) = Some s"
  by (simp add: take_char_def)

lemma read_date_isoformat:
  assumes "valid_date d"
  shows "read_date (date_isoformat d @ s) = Some (d, s)"
proof -
  have "days_in_month (d_year d) (d_month d) \<le> 31" by (simp add: days_in_month_def)
  with assms have "d_year d < 10 ^ 4" "d_month d < 10 ^ 2" "d_day d < 10 ^ 2" by (auto simp: valid_date_def)
  then show ?thesis by (simp add: read_date_def date_isoformat_def del: digits.simps)
qed

lemma date_round_trip: "valid_date d \<Longrightarrow> date_fromisoformat (date_isoformat d) = Some d"
  using read_date_isoformat [of d "[]"] by (simp add: date_fromisoformat_def)

lemma read_fraction_iso:
  assumes "us < 1000000" and "\<And>cs. s \<noteq> CHR ''.'' # cs"
  shows "read_fraction (iso_fraction us @ s) = Some (us, s)"
proof (cases "us = 0")
  case True
  with assms(2) show ?thesis by (cases s) (auto simp: read_fraction_def iso_fraction_def take_char_def)
next
  case False
  with assms(1) show ?thesis by (simp add: read_fraction_def iso_fraction_def del: digits.simps)
qed

lemma read_clock_iso:
  assumes "h < 100" "m < 100"
  shows "read_clock (iso_clock h m @ s) = Some ((h, m), s)"
  using assms by (simp add: read_clock_def iso_clock_def del: digits.simps)

lemma read_offset_iso:
  assumes "case off of None \<Rightarrow> True | Some o' \<Rightarrow> nat \<bar>o'\<bar> < DAY"
  shows "read_offset (iso_offset off) = Some off"
proof (cases off)
  case (Some o')
  define a where "a = nat \<bar>o'\<bar>"
  define h m x us where "h = a div 3600000000" and "m = a div 60000000 mod 60" and "x = a div 1000000 mod 60" and "us = a mod 1000000"
  have "a < 86400000000" using assms Some by (simp add: a_def DAY_def)
  then have small: "h < 100" "m < 100" "x < 100" "us < 1000000" by (auto simp: h_def m_def x_def us_def)
  have sum: "((h * 60 + m) * 60 + x) * 1000000 + us = a"
  proof -
    have "h = a div 60000000 div 60" by (simp add: h_def div_mult2_eq [symmetric])
    then have "h * 60 + m = a div 60000000" by (simp add: m_def)
    moreover have "a div 60000000 = a div 1000000 div 60" by (simp add: div_mult2_eq [symmetric])
    ultimately have "(h * 60 + m) * 60 + x = a div 1000000" by (simp add: x_def)
    then show ?thesis by (simp add: us_def)
  qed
  have secs: "read_seconds (if x = 0 \<and> us = 0 then [] else '':'' @ digits 2 x @ iso_fraction us) = Some ((x, us), [])"
    using read_fraction_iso [OF small(4), of "[]"] small(3) by (simp add: read_seconds_def take_char_def del: digits.simps)
  have "read_offset ((if o' < 0 then ''-'' else ''+'') @ iso_clock h m @ (if x = 0 \<and> us = 0 then [] else '':'' @ digits 2 x @ iso_fraction us)) =
      Some (Some (if o' < 0 then - int a else int a))"
    using read_clock_iso [OF small(1,2)] secs sum by (auto simp: read_offset_def)
  moreover have "(if o' < 0 then - int a else int a) = o'" by (simp add: a_def)
  moreover have "iso_offset off = (if o' < 0 then ''-'' else ''+'') @ iso_clock h m @ (if x = 0 \<and> us = 0 then [] else '':'' @ digits 2 x @ iso_fraction us)"
    by (simp only: Some iso_offset_def option.case Let_def a_def h_def m_def x_def us_def)
  ultimately show ?thesis by (simp only: Some)
qed (simp add: iso_offset_def read_offset_def)

lemma datetime_round_trip:
  assumes "valid_datetime t"
  shows "fromisoformat (isoformat t) = Some t"
proof -
  have v: "valid_date (dt_date t)" "dt_hour t < 100" "dt_minute t < 100" "dt_second t < 10 ^ 2" "dt_micro t < 1000000"
    "case dt_offset t of None \<Rightarrow> True | Some o' \<Rightarrow> nat \<bar>o'\<bar> < DAY"
    using assms by (auto simp: valid_datetime_def)
  have "\<And>cs. iso_offset (dt_offset t) \<noteq> CHR ''.'' # cs" by (auto simp: iso_offset_def Let_def split: option.splits)
  with v assms show ?thesis
    by (cases t) (simp add: fromisoformat_def isoformat_def read_date_isoformat read_clock_iso read_fraction_iso read_offset_iso del: digits.simps)
qed

lemma not_digit_chars [simp]: "\<not> is_digit CHR ''.''" "\<not> is_digit CHR ''E''" "\<not> is_digit CHR ''-''" "\<not> is_digit CHR ''I''"
  by code_simp+

lemma read_exponent_signed: "read_exponent (CHR ''E'' # signed_text x) = Some x"
  using dec_nat_digits [of "nat \<bar>x\<bar>"] by (simp add: read_exponent_def signed_text_def list_all_iff)

lemma takeWhile_digits:
  assumes "list_all is_digit u" and "s = [] \<or> \<not> is_digit (hd s)"
  shows "takeWhile is_digit (u @ s) = u" "dropWhile is_digit (u @ s) = s"
  using assms by (cases s; simp add: list_all_iff takeWhile_append2 dropWhile_append2)+

lemma read_unsigned_parts:
  assumes "whole \<noteq> []" "list_all is_digit whole" "list_all is_digit part" "ex = [] \<or> (\<exists>t. ex = CHR ''E'' # t)"
  shows "read_unsigned neg (whole @ (if part = [] then [] else CHR ''.'' # part) @ ex) =
    map_option (\<lambda>e. Finite neg (dec_value (whole @ part)) (e - int (length part))) (read_exponent ex)"
proof -
  define rest where "rest = (if part = [] then [] else CHR ''.'' # part) @ ex"
  have ex: "ex = [] \<or> \<not> is_digit (hd ex)" using assms(4) by auto
  have "rest = [] \<or> \<not> is_digit (hd rest)" using ex by (simp add: rest_def)
  note w = takeWhile_digits [OF assms(2) this]
  have "whole @ rest \<noteq> ''Infinity''" using assms(1,2) by (cases whole) auto
  moreover have "(case rest of c # cs \<Rightarrow> if c = CHR ''.'' then (takeWhile is_digit cs, dropWhile is_digit cs) else ([], rest) | [] \<Rightarrow> ([], [])) = (part, ex)"
    using takeWhile_digits [OF assms(3) ex] assms(4) by (auto simp: rest_def)
  ultimately show ?thesis using assms(1) w unfolding rest_def [symmetric] by (simp add: read_unsigned_def Let_def)
qed

text \<open>The two parts of the digits and the exponent that \<open>str\<close> shows.\<close>

lemma decimal_text_parts:
  obtains whole part ex x where
    "decimal_text (Finite neg coeff e) = (if neg then ''-'' else []) @ whole @ (if part = [] then [] else CHR ''.'' # part) @ ex"
    "whole \<noteq> []" "list_all is_digit whole" "list_all is_digit part" "dec_value (whole @ part) = coeff"
    "ex = [] \<or> (\<exists>t. ex = CHR ''E'' # t)" "read_exponent ex = Some x" "x - int (length part) = e"
proof -
  define ds n left where "ds = dec_nat coeff" and "n = int (length ds)" and "left = e + n"
  have ds: "list_all is_digit ds" "ds \<noteq> []" "dec_value ds = coeff" using dec_nat_digits [of coeff] by (simp_all add: ds_def list_all_iff)
  then have n: "0 < n" by (simp add: n_def)
  note shown = decimal_text_def decimal.case Let_def ds_def [symmetric] n_def [symmetric] left_def [symmetric]
  have zero: "is_digit CHR ''0''" by code_simp
  consider (small) "e \<le> 0" "-6 < left" "left \<le> 0" | (whole) "e = 0" | (point) "e < 0" "0 < left" | (one) "\<not> (e \<le> 0 \<and> -6 < left)" "n = 1"
    | (many) "\<not> (e \<le> 0 \<and> -6 < left)" "1 < n" using n by (force simp: left_def)
  then show thesis
  proof cases
    case small
    define part where "part = replicate (nat (- left)) CHR ''0'' @ ds"
    have "dec_value (''0'' @ part) = coeff" using dec_value_zeros [of "Suc (nat (- left))" ds] by (simp add: part_def ds)
    moreover have "0 - int (length part) = e" using small by (simp add: part_def left_def n_def)
    moreover have "list_all is_digit part" using ds(1) zero by (auto simp: part_def list_all_iff)
    moreover have "part \<noteq> []" using ds(2) by (simp add: part_def)
    moreover have "decimal_text (Finite neg coeff e) = (if neg then ''-'' else []) @ ''0'' @ CHR ''.'' # part"
      using small unfolding shown by (simp add: part_def)
    ultimately show thesis using that [of "''0''" part "[]" 0] zero by (simp add: read_exponent_def)
  next
    case whole
    with n ds that [of ds "[]" "[]" 0] show thesis unfolding shown by (simp add: left_def read_exponent_def)
  next
    case point
    have "take (nat left) ds \<noteq> []" "drop (nat left) ds \<noteq> []" using point ds(2) by (auto simp: left_def n_def)
    moreover have "0 - int (length (drop (nat left) ds)) = e" using point by (simp add: left_def n_def)
    moreover have "list_all is_digit (take (nat left) ds)" "list_all is_digit (drop (nat left) ds)"
      using ds(1) by (auto simp: list_all_iff dest: in_set_takeD in_set_dropD)
    ultimately show thesis
      using that [of "take (nat left) ds" "drop (nat left) ds" "[]" 0] point ds n unfolding shown
      by (simp add: left_def read_exponent_def)
  next
    case one
    then have "left \<noteq> 1" using n by (auto simp: left_def)
    with one ds that [of ds "[]" "CHR ''E'' # signed_text (left - 1)" "left - 1"] show thesis
      unfolding shown by (auto simp: read_exponent_signed left_def)
  next
    case many
    then have "left \<noteq> 1" using n by (auto simp: left_def)
    moreover have "take 1 ds \<noteq> []" "drop 1 ds \<noteq> []" using many ds(2) by (auto simp: n_def)
    moreover have "list_all is_digit (take 1 ds)" "list_all is_digit (drop 1 ds)"
      using ds(1) by (auto simp: list_all_iff dest: in_set_takeD in_set_dropD)
    moreover have "left - 1 - int (length (drop 1 ds)) = e" using many by (simp add: left_def n_def)
    ultimately show thesis
      using that [of "take 1 ds" "drop 1 ds" "CHR ''E'' # signed_text (left - 1)" "left - 1"] many ds unfolding shown
      by (auto simp: read_exponent_signed)
  qed
qed

lemma decimal_round_trip: "read_decimal (decimal_text d) = Some d"
proof (cases d)
  case (Finite neg coeff e)
  obtain whole part ex x where p:
    "decimal_text (Finite neg coeff e) = (if neg then ''-'' else []) @ whole @ (if part = [] then [] else CHR ''.'' # part) @ ex"
    "whole \<noteq> []" "list_all is_digit whole" "list_all is_digit part" "dec_value (whole @ part) = coeff"
    "ex = [] \<or> (\<exists>t. ex = CHR ''E'' # t)" "read_exponent ex = Some x" "x - int (length part) = e"
    by (rule decimal_text_parts)
  have "read_unsigned neg (whole @ (if part = [] then [] else CHR ''.'' # part) @ ex) = Some (Finite neg coeff e)"
    using read_unsigned_parts [OF p(2-4,6), of neg] p(5,7,8) by simp
  moreover obtain c cs where w: "whole = c # cs" using p(2) by (cases whole) auto
  moreover have "c \<noteq> CHR ''-''" using p(3) w by auto
  ultimately show ?thesis using Finite p(1) by (cases neg) (simp_all add: read_decimal_def)
next
  case (Infinite neg)
  then show ?thesis by (cases neg) (simp_all add: decimal_text_def read_decimal_def read_unsigned_def)
qed

end
