(* ===== verification/Serializers.thy ===== *)
theory Serializers
  imports Json Codecs Settings
begin

text \<open>
  \<open>wire/serializers.py\<close>: how the arguments of a queued call become bytes and come back.
  \<open>aval\<close> is what a project passes to a Telegram method; \<open>pyval\<close> is the JSON-safe data it
  is turned into.  What the readers of the standard library make of texts its writers never
  produce is an argument, \<open>readers\<close>, as are aiogram's models, the pickle format, and which values
  are nested too deep for the interpreter: \<open>rd_deep\<close> for the reader, \<open>deep\<close> for \<open>encode\<close>.  The
  writer of JSON itself does not respect the limit.
\<close>

section \<open>Values and tags\<close>

text \<open>
  The input files: the fields other than the bytes of a buffered file are written as they are.  A
  path is its text.  \<open>VDefault\<close> is aiogram's sentinel, \<open>VEnum\<close> a member by its value, and
  \<open>VObject\<close> anything else, by the name of its class.  The keys of a mapping are texts.
\<close>

datatype infile =
    FSInputFile pyval pyval pyval
  | URLInputFile pyval pyval pyval pyval pyval
  | BufferedInputFile string pyval pyval
  | OtherInputFile string

datatype aval =
    VNone
  | VBool bool
  | VInt int
  | VFloat pyfloat
  | VStr string
  | VBytes string
  | VList "aval list"
  | VTuple "aval list"
  | VDict "(string \<times> aval) list"
  | VEnum aval
  | VDefault pyval
  | VModel string "(string \<times> aval) list"
  | VFile infile
  | VDatetime datetime
  | VDate date
  | VDecimal decimal
  | VObject string

definition TAG_MODEL :: string where "TAG_MODEL = ''__model__''"
definition TAG_DEFAULT :: string where "TAG_DEFAULT = ''__default__''"
definition TAG_DATETIME :: string where "TAG_DATETIME = ''__datetime__''"
definition TAG_DATE :: string where "TAG_DATE = ''__date__''"
definition TAG_DECIMAL :: string where "TAG_DECIMAL = ''__decimal__''"
definition TAG_BYTES :: string where "TAG_BYTES = ''__bytes__''"
definition TAG_INPUT_FILE :: string where "TAG_INPUT_FILE = ''__input_file__''"

lemmas tag_defs = TAG_MODEL_def TAG_DEFAULT_def TAG_DATETIME_def TAG_DATE_def TAG_DECIMAL_def TAG_BYTES_def TAG_INPUT_FILE_def

definition tags :: "string list" where
  "tags = [TAG_DEFAULT, TAG_MODEL, TAG_INPUT_FILE, TAG_DATETIME, TAG_DATE, TAG_DECIMAL, TAG_BYTES]"

datatype ser_error =
    UnsupportedInputFile string
  | UnknownInputFileKind pyval
  | UnknownModel string
  | NonMappingPayload
  | CannotEncode
  | CannotDecode
  | PickleReadRefused
  | PickleWriteRefused
  | UnknownSerializer pyval
  | BadSetting config_error

section \<open>Encoding\<close>

fun gather :: "('e + 'a) list \<Rightarrow> 'e + 'a list" where
  "gather [] = Inr []"
| "gather (x # xs) =
     (case x of Inl e \<Rightarrow> Inl e | Inr y \<Rightarrow> (case gather xs of Inl e \<Rightarrow> Inl e | Inr ys \<Rightarrow> Inr (y # ys)))"

definition keyed :: "'k \<times> ('e + 'a) \<Rightarrow> 'e + 'k \<times> 'a" where
  "keyed e = (case snd e of Inl x \<Rightarrow> Inl x | Inr v \<Rightarrow> Inr (fst e, v))"

fun map_right :: "('a \<Rightarrow> 'b) \<Rightarrow> 'e + 'a \<Rightarrow> 'e + 'b" where
  "map_right f (Inl e) = Inl e"
| "map_right f (Inr v) = Inr (f v)"

fun encode_file :: "infile \<Rightarrow> ser_error + pyval" where
  "encode_file (FSInputFile path filename chunk) =
     Inr (PDict [(TAG_INPUT_FILE, PStr ''FSInputFile''), (''path'', path), (''filename'', filename), (''chunk_size'', chunk)])"
| "encode_file (URLInputFile url headers timeout filename chunk) =
     Inr (PDict [(TAG_INPUT_FILE, PStr ''URLInputFile''), (''url'', url), (''headers'', headers), (''timeout'', timeout),
                 (''filename'', filename), (''chunk_size'', chunk)])"
| "encode_file (BufferedInputFile data filename chunk) =
     Inr (PDict [(TAG_INPUT_FILE, PStr ''BufferedInputFile''), (''data'', PStr (b64encode data)), (''filename'', filename), (''chunk_size'', chunk)])"
| "encode_file (OtherInputFile name) = Inl (UnsupportedInputFile name)"

text \<open>The codecs, one per tagged type; the writing half of each.\<close>

definition default_encode :: "pyval \<Rightarrow> pyval" where
  "default_encode name = PDict [(TAG_DEFAULT, name)]"

definition model_encode :: "string \<Rightarrow> pydict \<Rightarrow> pyval" where
  "model_encode name data = PDict [(TAG_MODEL, PStr name), (''data'', PDict data)]"

definition datetime_encode :: "datetime \<Rightarrow> pyval" where
  "datetime_encode t = PDict [(TAG_DATETIME, PStr (isoformat t))]"

definition date_encode :: "date \<Rightarrow> pyval" where
  "date_encode d = PDict [(TAG_DATE, PStr (date_isoformat d))]"

definition decimal_encode :: "decimal \<Rightarrow> pyval" where
  "decimal_encode d = PDict [(TAG_DECIMAL, PStr (decimal_text d))]"

definition bytes_encode :: "string \<Rightarrow> pyval" where
  "bytes_encode b = PDict [(TAG_BYTES, PStr (b64encode b))]"

lemmas codec_defs = default_encode_def model_encode_def datetime_encode_def date_encode_def decimal_encode_def bytes_encode_def

fun encode :: "aval \<Rightarrow> ser_error + pyval" where
  "encode VNone = Inr PNone"
| "encode (VBool b) = Inr (PBool b)"
| "encode (VInt n) = Inr (PInt n)"
| "encode (VFloat x) = Inr (PFloat x)"
| "encode (VStr s) = Inr (PStr s)"
| "encode (VBytes b) = Inr (bytes_encode b)"
| "encode (VList xs) = map_right PList (gather (map encode xs))"
| "encode (VTuple xs) = map_right PList (gather (map encode xs))"
| "encode (VDict d) = map_right PDict (gather (map (\<lambda>e. keyed (fst e, encode (snd e))) d))"
| "encode (VEnum v) = encode v"
| "encode (VDefault name) = Inr (default_encode name)"
| "encode (VModel name fs) =
     map_right (model_encode name) (gather (map (\<lambda>e. keyed (fst e, encode (snd e))) fs))"
| "encode (VFile f) = encode_file f"
| "encode (VDatetime t) = Inr (datetime_encode t)"
| "encode (VDate d) = Inr (date_encode d)"
| "encode (VDecimal d) = Inr (decimal_encode d)"
| "encode (VObject n) = Inr (PObj n)"

text \<open>
  \<open>_TaggedEncoder\<close>: the JSON writer walks the value itself and asks \<open>default\<close> for what it cannot
  write, a member's value or a codec's object, and writes what that answers.
\<close>

definition dump_text :: "(rat \<Rightarrow> string) \<Rightarrow> pyval \<Rightarrow> ser_error + string" where
  "dump_text R v = (case json_dump R v of None \<Rightarrow> Inl CannotEncode | Some t \<Rightarrow> Inr t)"

definition default_text :: "(rat \<Rightarrow> string) \<Rightarrow> aval \<Rightarrow> ser_error + string" where
  "default_text R v = (case encode v of Inl e \<Rightarrow> Inl e | Inr p \<Rightarrow> dump_text R p)"

fun tagged_text :: "(rat \<Rightarrow> string) \<Rightarrow> aval \<Rightarrow> ser_error + string" where
  "tagged_text R (VList xs) = map_right (\<lambda>ts. ''['' @ comma_joined ts @ '']'') (gather (map (tagged_text R) xs))"
| "tagged_text R (VTuple xs) = map_right (\<lambda>ts. ''['' @ comma_joined ts @ '']'') (gather (map (tagged_text R) xs))"
| "tagged_text R (VDict d) =
     map_right (\<lambda>ts. ''{'' @ comma_joined ts @ ''}'')
       (gather (map (\<lambda>e. map_right (\<lambda>t. json_quote (fst e) @ '': '' @ t) (tagged_text R (snd e))) d))"
| "tagged_text R (VEnum v) = tagged_text R v"
| "tagged_text R VNone = dump_text R PNone"
| "tagged_text R (VBool b) = dump_text R (PBool b)"
| "tagged_text R (VInt n) = dump_text R (PInt n)"
| "tagged_text R (VFloat x) = dump_text R (PFloat x)"
| "tagged_text R (VStr s) = dump_text R (PStr s)"
| "tagged_text R (VObject n) = Inl CannotEncode"
| "tagged_text R v = default_text R v"

definition NESTING_GUARD :: nat where "NESTING_GUARD = 900"

definition refuse_if_unreadable :: "(aval \<Rightarrow> bool) \<Rightarrow> (string \<times> aval) list \<Rightarrow> ser_error option" where
  "refuse_if_unreadable deep payload =
     (if deep (VDict payload) then Some CannotEncode
      else case encode (VDict payload) of Inl e \<Rightarrow> Some e | Inr _ \<Rightarrow> None)"

definition json_dumps :: "(rat \<Rightarrow> string) \<Rightarrow> (aval \<Rightarrow> bool) \<Rightarrow> (string \<times> aval) list \<Rightarrow> ser_error + bytes" where
  "json_dumps R deep payload =
     (case tagged_text R (VDict payload) of
        Inl e \<Rightarrow> Inl e
      | Inr t \<Rightarrow>
          if NESTING_GUARD \<le> length (filter (\<lambda>c. c = CHR ''{'') t) + length (filter (\<lambda>c. c = CHR ''['') t)
          then (case refuse_if_unreadable deep payload of Some e \<Rightarrow> Inl e | None \<Rightarrow> Inr t)
          else Inr t)"

section \<open>Decoding\<close>

text \<open>An exception of the interpreter, by its class; \<open>loads\<close> turns some of them into its own.\<close>

datatype dec_error = Serialization ser_error | Builtin string

record readers =
  rd_text :: py_text
  rd_deep :: "pyval \<Rightarrow> bool"
  rd_json :: "bytes \<Rightarrow> dec_error + pyval"
  rd_b64 :: "pyval \<Rightarrow> dec_error + string"
  rd_date :: "pyval \<Rightarrow> dec_error + date"
  rd_datetime :: "pyval \<Rightarrow> dec_error + datetime"
  rd_decimal :: "pyval \<Rightarrow> dec_error + decimal"
  rd_is_model :: "string \<Rightarrow> bool"
  rd_validate :: "string \<Rightarrow> (string \<times> aval) list \<Rightarrow> dec_error + aval"
  rd_unpickle :: "bytes \<Rightarrow> aval option"
  rd_pickle :: "(string \<times> aval) list \<Rightarrow> bytes option"

definition read_form :: "(string \<Rightarrow> 'a option) \<Rightarrow> (pyval \<Rightarrow> dec_error + 'a) \<Rightarrow> pyval \<Rightarrow> dec_error + 'a" where
  "read_form written other v =
     (case v of
        PStr s \<Rightarrow> (case written s of Some x \<Rightarrow> Inr x | None \<Rightarrow> other v)
      | _ \<Rightarrow> other v)"

definition resolve_model :: "readers \<Rightarrow> pyval \<Rightarrow> dec_error + string" where
  "resolve_model V v =
     (case v of
        PStr name \<Rightarrow> if rd_is_model V name then Inr name else Inl (Serialization (UnknownModel name))
      | _ \<Rightarrow> Inl (Builtin ''TypeError''))"

definition field :: "pydict \<Rightarrow> string \<Rightarrow> dec_error + pyval" where
  "field d k = (case map_of d k of None \<Rightarrow> Inl (Builtin ''KeyError'') | Some v \<Rightarrow> Inr v)"

text \<open>\<open>FSInputFile\<close> names a file without a name after the end of its path.\<close>

definition basename :: "pyval \<Rightarrow> dec_error + pyval" where
  "basename path =
     (case path of
        PStr s \<Rightarrow> Inr (PStr (rev (takeWhile (\<lambda>c. c \<noteq> CHR ''/'') (rev s))))
      | _ \<Rightarrow> Inl (Builtin ''TypeError''))"

definition bind_right :: "'e + 'a \<Rightarrow> ('a \<Rightarrow> 'e + 'b) \<Rightarrow> 'e + 'b" where
  "bind_right m f = (case m of Inl e \<Rightarrow> Inl e | Inr v \<Rightarrow> f v)"

definition decode_file :: "readers \<Rightarrow> pydict \<Rightarrow> dec_error + infile" where
  "decode_file V d =
     bind_right (field d TAG_INPUT_FILE) (\<lambda>kind.
     bind_right (field d ''filename'') (\<lambda>filename.
     bind_right (field d ''chunk_size'') (\<lambda>chunk.
       if kind = PStr ''FSInputFile''
       then bind_right (field d ''path'') (\<lambda>path.
              if filename = PNone then map_right (\<lambda>name. FSInputFile path name chunk) (basename path)
              else Inr (FSInputFile path filename chunk))
       else if kind = PStr ''URLInputFile''
       then bind_right (field d ''url'') (\<lambda>url. bind_right (field d ''headers'') (\<lambda>headers.
            bind_right (field d ''timeout'') (\<lambda>timeout. Inr (URLInputFile url headers timeout filename chunk))))
       else if kind = PStr ''BufferedInputFile''
       then bind_right (field d ''data'') (\<lambda>data.
            map_right (\<lambda>b. BufferedInputFile b filename chunk) (read_form b64decode (rd_b64 V) data))
       else Inl (Serialization (UnknownInputFileKind kind)))))"

text \<open>What comes back where nothing is to be read: a value as it is.\<close>

fun as_aval :: "pyval \<Rightarrow> aval" where
  "as_aval PNone = VNone"
| "as_aval (PBool b) = VBool b"
| "as_aval (PInt n) = VInt n"
| "as_aval (PFloat x) = VFloat x"
| "as_aval (PStr s) = VStr s"
| "as_aval (PBytes b) = VBytes b"
| "as_aval (PObj n) = VObject n"
| "as_aval (PUuid u) = VObject ''UUID''"
| "as_aval (PList xs) = VList (map as_aval xs)"
| "as_aval (PDict d) = VDict (map (\<lambda>e. (fst e, as_aval (snd e))) d)"

text \<open>The reading half of each codec, on a mapping that has its tag.\<close>

definition default_decode :: "pydict \<Rightarrow> dec_error + aval" where
  "default_decode d = Inr (VDefault (dget d TAG_DEFAULT PNone))"

definition datetime_decode :: "readers \<Rightarrow> pydict \<Rightarrow> dec_error + aval" where
  "datetime_decode V d = map_right VDatetime (read_form fromisoformat (rd_datetime V) (dget d TAG_DATETIME PNone))"

definition date_decode :: "readers \<Rightarrow> pydict \<Rightarrow> dec_error + aval" where
  "date_decode V d = map_right VDate (read_form date_fromisoformat (rd_date V) (dget d TAG_DATE PNone))"

definition decimal_decode :: "readers \<Rightarrow> pydict \<Rightarrow> dec_error + aval" where
  "decimal_decode V d = map_right VDecimal (read_form read_decimal (rd_decimal V) (dget d TAG_DECIMAL PNone))"

definition bytes_decode :: "readers \<Rightarrow> pydict \<Rightarrow> dec_error + aval" where
  "bytes_decode V d = map_right VBytes (read_form b64decode (rd_b64 V) (dget d TAG_BYTES PNone))"

lemmas decoder_defs = default_decode_def datetime_decode_def date_decode_def decimal_decode_def bytes_decode_def

lemma size_of_member: "e \<in> set d \<Longrightarrow> size (snd e) < Suc (size_list (size_prod (\<lambda>x. 0) size) d)"
  by (induction d) auto

lemma size_of_data:
  assumes "map_of d k = Some (PDict data)" and "e \<in> set data"
  shows "size (snd e) < Suc (size_list (size_prod (\<lambda>x. 0) size) d)"
proof -
  have "size (snd e) < size (PDict data)" using size_of_member [OF assms(2)] by simp
  also have "\<dots> < Suc (size_list (size_prod (\<lambda>x. 0) size) d)" using size_of_member [OF map_of_SomeD [OF assms(1)]] by simp
  finally show ?thesis .
qed

function decode :: "readers \<Rightarrow> pyval \<Rightarrow> dec_error + aval" where
  "decode V v =
     (case v of
        PDict d \<Rightarrow>
          if dhas d TAG_DEFAULT then default_decode d
          else if dhas d TAG_MODEL
          then bind_right (resolve_model V (dget d TAG_MODEL PNone)) (\<lambda>name.
                 case map_of d ''data'' of
                   None \<Rightarrow> Inl (Builtin ''KeyError'')
                 | Some (PDict data) \<Rightarrow>
                     bind_right (gather (map (\<lambda>e. keyed (fst e, decode V (snd e))) data)) (rd_validate V name)
                 | Some _ \<Rightarrow> Inl (Builtin ''AttributeError''))
          else if dhas d TAG_INPUT_FILE then map_right VFile (decode_file V d)
          else if dhas d TAG_DATETIME then datetime_decode V d
          else if dhas d TAG_DATE then date_decode V d
          else if dhas d TAG_DECIMAL then decimal_decode V d
          else if dhas d TAG_BYTES then bytes_decode V d
          else map_right VDict (gather (map (\<lambda>e. keyed (fst e, decode V (snd e))) d))
      | PList xs \<Rightarrow> map_right VList (gather (map (decode V) xs))
      | _ \<Rightarrow> Inr (as_aval v))"
  by pat_completeness auto

termination
  apply (relation "measure (\<lambda>(V, v). size v)")
     apply simp_all
    apply (simp add: size_list_estimation' less_Suc_eq_le)
   apply (blast intro: size_of_data)
  apply (rule size_of_member, assumption)
  done

declare decode.simps [simp del]

text \<open>
  \<open>JsonSerializer.loads\<close>.  Bytes beyond ASCII and escapes for characters beyond the modelled ones
  are read by the argument; any other text the reader refuses is malformed.
\<close>

definition json_bytes :: "readers \<Rightarrow> bytes \<Rightarrow> dec_error + pyval" where
  "json_bytes V raw =
     (if list_ex (\<lambda>c. 128 \<le> (of_char c :: nat)) raw then rd_json V raw
      else case json_load (rd_text V) raw of
             Some v \<Rightarrow> Inr v
           | None \<Rightarrow> if contains [CHR 0x5C, CHR ''u''] raw then rd_json V raw else Inl (Builtin ''ValueError''))"

definition wrapped :: "dec_error + 'a \<Rightarrow> dec_error + 'a" where
  "wrapped r =
     (case r of
        Inl (Builtin n) \<Rightarrow> if n \<in> {''TypeError'', ''ValueError'', ''KeyError'', ''RecursionError''} then Inl (Serialization CannotDecode) else r
      | _ \<Rightarrow> r)"

definition as_payload :: "aval \<Rightarrow> dec_error + (string \<times> aval) list" where
  "as_payload v = (case v of VDict d \<Rightarrow> Inr d | _ \<Rightarrow> Inl (Serialization NonMappingPayload))"

definition json_loads :: "readers \<Rightarrow> bytes \<Rightarrow> dec_error + (string \<times> aval) list" where
  "json_loads V raw = bind_right (wrapped (bind_right (json_bytes V raw)
      (\<lambda>v. if rd_deep V v then Inl (Builtin ''RecursionError'') else decode V v))) as_payload"

definition pickle_loads :: "readers \<Rightarrow> bytes \<Rightarrow> dec_error + (string \<times> aval) list" where
  "pickle_loads V raw =
     (case rd_unpickle V raw of None \<Rightarrow> Inl (Serialization CannotDecode) | Some v \<Rightarrow> as_payload v)"

definition pickle_dumps :: "readers \<Rightarrow> (string \<times> aval) list \<Rightarrow> ser_error + bytes" where
  "pickle_dumps V payload = (case rd_pickle V payload of None \<Rightarrow> Inl CannotEncode | Some raw \<Rightarrow> Inr raw)"

definition looks_like_json :: "bytes \<Rightarrow> bool" where
  "looks_like_json raw =
     (take 1 (dropWhile (\<lambda>c. (of_char c :: nat) \<in> {9, 10, 11, 12, 13, 32}) raw) = ''{'')"

definition loads :: "readers \<Rightarrow> pyval \<Rightarrow> bytes \<Rightarrow> dec_error + (string \<times> aval) list" where
  "loads V allow_pickle raw =
     (if looks_like_json raw then json_loads V raw
      else case coerce_bool allow_pickle ''ALLOW_PICKLE'' of
             Inl e \<Rightarrow> Inl (Serialization (BadSetting e))
           | Inr False \<Rightarrow> Inl (Serialization PickleReadRefused)
           | Inr True \<Rightarrow> pickle_loads V raw)"

datatype serializer = JsonSerializer | PickleSerializer

definition get_serializer :: "pyval \<Rightarrow> pyval \<Rightarrow> ser_error + serializer" where
  "get_serializer name allow_pickle =
     (if name = PStr ''pickle''
      then (case coerce_bool allow_pickle ''ALLOW_PICKLE'' of
              Inl e \<Rightarrow> Inl (BadSetting e)
            | Inr False \<Rightarrow> Inl PickleWriteRefused
            | Inr True \<Rightarrow> Inr PickleSerializer)
      else if name = PStr ''json'' then Inr JsonSerializer
      else Inl (UnknownSerializer name))"

definition dumps :: "(rat \<Rightarrow> string) \<Rightarrow> (aval \<Rightarrow> bool) \<Rightarrow> readers \<Rightarrow> serializer \<Rightarrow> (string \<times> aval) list \<Rightarrow> ser_error + bytes" where
  "dumps R deep V s payload = (case s of JsonSerializer \<Rightarrow> json_dumps R deep payload | PickleSerializer \<Rightarrow> pickle_dumps V payload)"

section \<open>One pass or two\<close>

lemma gather_Inr: "gather xs = Inr ys \<longleftrightarrow> list_all2 (\<lambda>x y. x = Inr y) xs ys"
proof (induction xs arbitrary: ys)
  case (Cons x xs)
  show ?case by (cases x; cases "gather xs"; cases ys) (auto simp: Cons.IH [symmetric])
qed auto

lemma map_right_Inr: "map_right f r = Inr y \<longleftrightarrow> (\<exists>x. r = Inr x \<and> y = f x)"
  by (cases r) auto

lemma those_Some: "those xs = Some ys \<longleftrightarrow> list_all2 (\<lambda>x y. x = Some y) xs ys"
proof (induction xs arbitrary: ys)
  case (Cons x xs)
  show ?case by (cases x; cases "those xs"; cases ys) (auto simp: Cons.IH [symmetric])
qed auto

lemma list_all2_compose:
  assumes "\<And>x z. x \<in> set xs \<Longrightarrow> P x z \<longleftrightarrow> (\<exists>y. Q x y \<and> W y z)"
  shows "list_all2 P xs zs \<longleftrightarrow> (\<exists>ys. list_all2 Q xs ys \<and> list_all2 W ys zs)"
  using assms
proof (induction xs arbitrary: zs)
  case (Cons x xs)
  show ?case
  proof
    assume "list_all2 P (x # xs) zs"
    with Cons show "\<exists>ys. list_all2 Q (x # xs) ys \<and> list_all2 W ys zs" by (fastforce simp: list_all2_Cons1)
  next
    assume "\<exists>ys. list_all2 Q (x # xs) ys \<and> list_all2 W ys zs"
    with Cons show "list_all2 P (x # xs) zs" by (fastforce simp: list_all2_Cons1)
  qed
qed simp

lemma default_text_Inr: "default_text R v = Inr t \<longleftrightarrow> (\<exists>p. encode v = Inr p \<and> json_dump R p = Some t)"
  by (auto simp: default_text_def dump_text_def split: sum.splits option.splits)

lemma dump_text_Inr: "dump_text R p = Inr t \<longleftrightarrow> json_dump R p = Some t"
  by (simp add: dump_text_def split: option.splits)

lemma sequence_one_pass:
  assumes "\<And>x t. x \<in> set xs \<Longrightarrow> tagged_text R x = Inr t \<longleftrightarrow> default_text R x = Inr t"
  shows "(\<exists>ts. gather (map (tagged_text R) xs) = Inr ts \<and> u = f ts) \<longleftrightarrow>
    (\<exists>ps. gather (map encode xs) = Inr ps \<and> (\<exists>ts. those (map (json_dump R) ps) = Some ts \<and> u = f ts))"
proof -
  have "list_all2 (\<lambda>x t. tagged_text R x = Inr t) xs ts \<longleftrightarrow>
      (\<exists>ps. list_all2 (\<lambda>x p. encode x = Inr p) xs ps \<and> list_all2 (\<lambda>p t. json_dump R p = Some t) ps ts)" for ts
    by (rule list_all2_compose) (simp add: assms default_text_Inr)
  then show ?thesis by (auto simp: gather_Inr those_Some list_all2_map1)
qed

lemma keyed_Inr: "keyed (k, r) = Inr e \<longleftrightarrow> (\<exists>v. r = Inr v \<and> e = (k, v))"
  by (auto simp: keyed_def split: sum.splits)

lemma mapping_one_pass:
  assumes "\<And>e t. e \<in> set d \<Longrightarrow> tagged_text R (snd e) = Inr t \<longleftrightarrow> default_text R (snd e) = Inr t"
  shows "(\<exists>ts. gather (map (\<lambda>e. map_right (\<lambda>t. json_quote (fst e) @ '': '' @ t) (tagged_text R (snd e))) d) = Inr ts \<and> u = f ts) \<longleftrightarrow>
    (\<exists>ps. gather (map (\<lambda>e. keyed (fst e, encode (snd e))) d) = Inr ps \<and>
      (\<exists>ts. those (map (\<lambda>e. map_option (\<lambda>t. json_quote (fst e) @ '': '' @ t) (json_dump R (snd e))) ps) = Some ts \<and> u = f ts))"
proof -
  have "list_all2 (\<lambda>e t. map_right (\<lambda>t. json_quote (fst e) @ '': '' @ t) (tagged_text R (snd e)) = Inr t) d ts \<longleftrightarrow>
      (\<exists>ps. list_all2 (\<lambda>e p. keyed (fst e, encode (snd e)) = Inr p) d ps \<and>
        list_all2 (\<lambda>e t. map_option (\<lambda>t. json_quote (fst e) @ '': '' @ t) (json_dump R (snd e)) = Some t) ps ts)" for ts
  proof (rule list_all2_compose)
    fix e t assume "e \<in> set d"
    from assms [OF this] show "map_right (\<lambda>t. json_quote (fst e) @ '': '' @ t) (tagged_text R (snd e)) = Inr t \<longleftrightarrow>
        (\<exists>y. keyed (fst e, encode (snd e)) = Inr y \<and> map_option (\<lambda>t. json_quote (fst y) @ '': '' @ t) (json_dump R (snd y)) = Some t)"
      by (auto simp: map_right_Inr keyed_Inr default_text_Inr)
  qed
  then show ?thesis by (auto simp: gather_Inr those_Some list_all2_map1)
qed

lemma default_text_list:
  "default_text R (VList xs) = Inr t \<longleftrightarrow> (\<exists>ps. gather (map encode xs) = Inr ps \<and>
     (\<exists>ts. those (map (json_dump R) ps) = Some ts \<and> t = ''['' @ comma_joined ts @ '']''))"
  "default_text R (VTuple xs) = default_text R (VList xs)"
  by (auto simp: default_text_def dump_text_def map_right_Inr split: sum.splits option.splits)

lemma default_text_dict:
  "default_text R (VDict d) = Inr t \<longleftrightarrow> (\<exists>ps. gather (map (\<lambda>e. keyed (fst e, encode (snd e))) d) = Inr ps \<and>
      (\<exists>ts. those (map (\<lambda>e. map_option (\<lambda>t. json_quote (fst e) @ '': '' @ t) (json_dump R (snd e))) ps) = Some ts \<and>
        t = ''{'' @ comma_joined ts @ ''}''))"
  by (auto simp: default_text_def dump_text_def map_right_Inr split: sum.splits option.splits)

lemma tagged_text_one_pass: "tagged_text R v = Inr t \<longleftrightarrow> default_text R v = Inr t"
proof (induction v arbitrary: t)
  case (VList xs)
  show ?case unfolding tagged_text.simps map_right_Inr default_text_list by (rule sequence_one_pass) (rule VList)
next
  case (VTuple xs)
  show ?case unfolding tagged_text.simps map_right_Inr default_text_list by (rule sequence_one_pass) (rule VTuple)
next
  case (VDict d)
  show ?case unfolding tagged_text.simps map_right_Inr default_text_dict
  proof (rule mapping_one_pass)
    fix e t assume "e \<in> set d"
    then show "tagged_text R (snd e) = Inr t \<longleftrightarrow> default_text R (snd e) = Inr t"
      using VDict [of e "snd e" t] by simp
  qed
next
  case (VEnum v)
  then show ?case by (simp add: default_text_def)
qed (simp_all add: default_text_Inr dump_text_Inr)


section \<open>The round trip\<close>

text \<open>
  What comes back of a value: a tuple as a list, a member of an enumeration as its value.  The
  values that come back are those JSON has a form for, whose mappings have no key that is a tag,
  and whose models aiogram knows and validates.
\<close>

fun normal :: "aval \<Rightarrow> aval" where
  "normal (VList xs) = VList (map normal xs)"
| "normal (VTuple xs) = VList (map normal xs)"
| "normal (VDict d) = VDict (map (\<lambda>e. (fst e, normal (snd e))) d)"
| "normal (VEnum v) = normal v"
| "normal (VModel name fs) = VModel name (map (\<lambda>e. (fst e, normal (snd e))) fs)"
| "normal v = v"

fun queueable_file :: "(rat \<Rightarrow> string) \<Rightarrow> py_text \<Rightarrow> infile \<Rightarrow> bool" where
  "queueable_file R T (FSInputFile path filename chunk) =
     (plain R T path \<and> filename \<noteq> PNone \<and> plain R T filename \<and> plain R T chunk)"
| "queueable_file R T (URLInputFile url headers timeout filename chunk) =
     (plain R T url \<and> plain R T headers \<and> plain R T timeout \<and> plain R T filename \<and> plain R T chunk)"
| "queueable_file R T (BufferedInputFile data filename chunk) = (plain R T filename \<and> plain R T chunk)"
| "queueable_file R T (OtherInputFile name) = False"

fun queueable :: "(rat \<Rightarrow> string) \<Rightarrow> readers \<Rightarrow> aval \<Rightarrow> bool" where
  "queueable R V (VInt n) = plain R (rd_text V) (PInt n)"
| "queueable R V (VFloat x) = plain R (rd_text V) (PFloat x)"
| "queueable R V (VList xs) = list_all (queueable R V) xs"
| "queueable R V (VTuple xs) = list_all (queueable R V) xs"
| "queueable R V (VDict d) =
     (distinct (map fst d) \<and> list_all (\<lambda>t. t \<notin> set (map fst d)) tags \<and> list_all (\<lambda>e. queueable R V (snd e)) d)"
| "queueable R V (VEnum v) = queueable R V v"
| "queueable R V (VDefault name) = plain R (rd_text V) name"
| "queueable R V (VModel name fs) =
     (rd_is_model V name \<and> distinct (map fst fs) \<and> list_all (\<lambda>e. queueable R V (snd e)) fs \<and>
      rd_validate V name (map (\<lambda>e. (fst e, normal (snd e))) fs) = Inr (normal (VModel name fs)))"
| "queueable R V (VFile f) = queueable_file R (rd_text V) f"
| "queueable R V (VDatetime t) = valid_datetime t"
| "queueable R V (VDate d) = valid_date d"
| "queueable R V (VObject n) = False"
| "queueable R V v = True"

definition comes_back :: "(rat \<Rightarrow> string) \<Rightarrow> readers \<Rightarrow> aval \<Rightarrow> pyval \<Rightarrow> bool" where
  "comes_back R V v p \<longleftrightarrow> plain R (rd_text V) p \<and> decode V p = Inr (normal v)"

lemma gather_map_Inr:
  assumes "\<forall>x \<in> set xs. \<exists>y. f x = Inr y \<and> P x y"
  shows "\<exists>ys. gather (map f xs) = Inr ys \<and> list_all2 P xs ys"
  using assms
proof (induction xs)
  case (Cons x xs)
  then obtain y ys where "f x = Inr y" "P x y" "gather (map f xs) = Inr ys" "list_all2 P xs ys" by auto
  then show ?case by auto
qed simp

lemma comes_back_sequence:
  assumes "\<forall>x \<in> set xs. \<exists>p. encode x = Inr p \<and> comes_back R V x p"
  shows "\<exists>ps. gather (map encode xs) = Inr ps \<and> plain R (rd_text V) (PList ps) \<and>
    gather (map (decode V) ps) = Inr (map normal xs)"
proof -
  obtain ps where ps: "gather (map encode xs) = Inr ps" "list_all2 (comes_back R V) xs ps"
    using gather_map_Inr [OF assms] by blast
  have "plain R (rd_text V) (PList ps)" using ps(2) by (induction rule: list_all2_induct) (auto simp: comes_back_def)
  moreover have "gather (map (decode V) ps) = Inr (map normal xs)"
    using ps(2) by (induction rule: list_all2_induct) (auto simp: comes_back_def)
  ultimately show ?thesis using ps(1) by blast
qed

lemma comes_back_mapping:
  assumes "\<forall>e \<in> set d. \<exists>p. encode (snd e) = Inr p \<and> comes_back R V (snd e) p"
  shows "\<exists>ps. gather (map (\<lambda>e. keyed (fst e, encode (snd e))) d) = Inr ps \<and> map fst ps = map fst d \<and>
    (\<forall>e \<in> set ps. plain R (rd_text V) (snd e)) \<and>
    gather (map (\<lambda>e. keyed (fst e, decode V (snd e))) ps) = Inr (map (\<lambda>e. (fst e, normal (snd e))) d)"
proof -
  have "\<forall>e \<in> set d. \<exists>y. keyed (fst e, encode (snd e)) = Inr y \<and> fst y = fst e \<and> comes_back R V (snd e) (snd y)"
    using assms by (fastforce simp: keyed_def)
  from gather_map_Inr [OF this] obtain ps where ps: "gather (map (\<lambda>e. keyed (fst e, encode (snd e))) d) = Inr ps"
    "list_all2 (\<lambda>e y. fst y = fst e \<and> comes_back R V (snd e) (snd y)) d ps" by blast
  have "map fst ps = map fst d" using ps(2) by (induction rule: list_all2_induct) auto
  moreover have "\<forall>e \<in> set ps. plain R (rd_text V) (snd e)"
    using ps(2) by (induction rule: list_all2_induct) (auto simp: comes_back_def)
  moreover have "gather (map (\<lambda>e. keyed (fst e, decode V (snd e))) ps) = Inr (map (\<lambda>e. (fst e, normal (snd e))) d)"
    using ps(2) by (induction rule: list_all2_induct) (auto simp: comes_back_def keyed_def)
  ultimately show ?thesis using ps(1) by blast
qed

lemma tags_distinct: "distinct tags"
  by code_simp

lemma decode_untagged:
  assumes "list_all (\<lambda>t. t \<notin> set (map fst d)) tags"
  shows "decode V (PDict d) = map_right VDict (gather (map (\<lambda>e. keyed (fst e, decode V (snd e))) d))"
  using assms by (subst decode.simps) (simp add: tags_def dhas_def)

lemma decode_plain_leaf:
  "decode V PNone = Inr VNone" "decode V (PBool b) = Inr (VBool b)" "decode V (PInt n) = Inr (VInt n)"
  "decode V (PFloat x) = Inr (VFloat x)" "decode V (PStr s) = Inr (VStr s)"
  "decode V (PList ps) = map_right VList (gather (map (decode V) ps))"
  by (simp_all add: decode.simps)

lemma decode_tagged:
  "decode V (PDict [(TAG_BYTES, v)]) = map_right VBytes (read_form b64decode (rd_b64 V) v)"
  "decode V (PDict [(TAG_DEFAULT, v)]) = Inr (VDefault v)"
  "decode V (PDict [(TAG_DATETIME, v)]) = map_right VDatetime (read_form fromisoformat (rd_datetime V) v)"
  "decode V (PDict [(TAG_DATE, v)]) = map_right VDate (read_form date_fromisoformat (rd_date V) v)"
  "decode V (PDict [(TAG_DECIMAL, v)]) = map_right VDecimal (read_form read_decimal (rd_decimal V) v)"
  "decode V (PDict [(TAG_MODEL, PStr name), (''data'', PDict data)]) =
     (if rd_is_model V name then bind_right (gather (map (\<lambda>e. keyed (fst e, decode V (snd e))) data)) (rd_validate V name)
      else Inl (Serialization (UnknownModel name)))"
  by (subst decode.simps, simp add: decoder_defs tag_defs dhas_def dget_def resolve_model_def bind_right_def)+

lemma file_comes_back:
  assumes "queueable_file R (rd_text V) f"
  shows "\<exists>p. encode_file f = Inr p \<and> comes_back R V (VFile f) p"
  using assms
  by (cases f; simp add: comes_back_def; subst decode.simps)
    (auto simp: tag_defs dhas_def decode_file_def field_def bind_right_def read_form_def b64decode_encode)

lemma encode_comes_back:
  assumes "queueable R V v"
  shows "\<exists>p. encode v = Inr p \<and> comes_back R V v p"
  using assms
proof (induction v)
  case (VList xs)
  then have "\<forall>x \<in> set xs. \<exists>p. encode x = Inr p \<and> comes_back R V x p" by (simp add: list_all_iff)
  from comes_back_sequence [OF this] show ?case by (auto simp: comes_back_def decode_plain_leaf)
next
  case (VTuple xs)
  then have "\<forall>x \<in> set xs. \<exists>p. encode x = Inr p \<and> comes_back R V x p" by (simp add: list_all_iff)
  from comes_back_sequence [OF this] show ?case by (auto simp: comes_back_def decode_plain_leaf)
next
  case (VDict d)
  then have "\<forall>e \<in> set d. \<exists>p. encode (snd e) = Inr p \<and> comes_back R V (snd e) p" by (simp add: list_all_iff)
  then obtain ps where ps: "gather (map (\<lambda>e. keyed (fst e, encode (snd e))) d) = Inr ps" "map fst ps = map fst d"
    "\<forall>e \<in> set ps. plain R (rd_text V) (snd e)"
    "gather (map (\<lambda>e. keyed (fst e, decode V (snd e))) ps) = Inr (map (\<lambda>e. (fst e, normal (snd e))) d)"
    using comes_back_mapping by blast
  have "list_all (\<lambda>t. t \<notin> set (map fst ps)) tags" "distinct (map fst ps)" using VDict.prems ps(2) by simp_all
  with ps show ?case by (simp add: comes_back_def decode_untagged)
next
  case (VModel name fs)
  then have "\<forall>e \<in> set fs. \<exists>p. encode (snd e) = Inr p \<and> comes_back R V (snd e) p" by (simp add: list_all_iff)
  then obtain ps where ps: "gather (map (\<lambda>e. keyed (fst e, encode (snd e))) fs) = Inr ps" "map fst ps = map fst fs"
    "\<forall>e \<in> set ps. plain R (rd_text V) (snd e)"
    "gather (map (\<lambda>e. keyed (fst e, decode V (snd e))) ps) = Inr (map (\<lambda>e. (fst e, normal (snd e))) fs)"
    using comes_back_mapping by blast
  have "TAG_MODEL \<noteq> ''data''" by (simp add: tag_defs)
  with VModel.prems ps show ?case by (simp add: comes_back_def codec_defs decode_tagged bind_right_def)
next
  case (VFile f)
  then show ?case using file_comes_back by simp
next
  case (VEnum v)
  then show ?case by (simp add: comes_back_def)
qed (auto simp: comes_back_def codec_defs decode_plain_leaf decode_tagged read_form_def b64decode_encode date_round_trip
       datetime_round_trip decimal_round_trip)

lemma json_bytes_dumped:
  assumes "plain R (rd_text V) p" and "json_dump R p = Some t"
  shows "json_bytes V t = Inr p"
proof -
  have "\<not> list_ex (\<lambda>c. 128 \<le> (of_char c :: nat)) t"
    using json_dump_ascii [OF assms] by (auto simp: ascii_def list_ex_iff not_le)
  moreover have "json_load (rd_text V) t = Some p" using json_round_trip [OF assms(1)] assms(2) by auto
  ultimately show ?thesis by (simp add: json_bytes_def)
qed

lemma looks_like_json_dumped: "json_dump R (PDict d) = Some t \<Longrightarrow> looks_like_json t"
  by (auto simp: looks_like_json_def)

lemma json_payload_comes_back:
  assumes "queueable R V (VDict payload)"
    and "\<not> deep (VDict payload)" and "\<And>p. encode (VDict payload) = Inr p \<Longrightarrow> \<not> rd_deep V p"
  shows "\<exists>raw. json_dumps R deep payload = Inr raw \<and>
    loads V allow_pickle raw = Inr (map (\<lambda>e. (fst e, normal (snd e))) payload)"
proof -
  obtain p where p: "encode (VDict payload) = Inr p" "plain R (rd_text V) p" "decode V p = Inr (normal (VDict payload))"
    using encode_comes_back [OF assms(1)] by (auto simp: comes_back_def)
  obtain t where t: "json_dump R p = Some t" using json_round_trip [OF p(2)] by blast
  have "tagged_text R (VDict payload) = Inr t" unfolding tagged_text_one_pass default_text_Inr using p(1) t by blast
  then have "json_dumps R deep payload = Inr t"
    using assms(2) p(1) by (simp add: json_dumps_def refuse_if_unreadable_def)
  moreover have "looks_like_json t" using p(1) t looks_like_json_dumped by (auto simp: map_right_Inr)
  moreover have "json_loads V t = Inr (map (\<lambda>e. (fst e, normal (snd e))) payload)"
    using json_bytes_dumped [OF p(2) t] p(3) assms(3) [OF p(1)]
    by (simp add: json_loads_def bind_right_def wrapped_def as_payload_def)
  ultimately show ?thesis by (simp add: loads_def)
qed

text \<open>
  A payload whose arguments all have a form in JSON, and whose nesting the writer and the reader can walk, comes back from \<open>loads\<close>
  as it was given to \<open>dumps\<close>, with its tuples as lists and its members of enumerations as their
  values, and whatever \<open>ALLOW_PICKLE\<close> says.
\<close>

theorem json_payload_round_trip:
  assumes "queueable R V (VDict payload)"
    and "\<not> deep (VDict payload)" and "\<And>p. encode (VDict payload) = Inr p \<Longrightarrow> \<not> rd_deep V p"
  shows "\<exists>raw. json_dumps R deep payload = Inr raw \<and>
    loads V allow_pickle raw = Inr (map (\<lambda>e. (fst e, normal (snd e))) payload)"
  by (rule json_payload_comes_back) (use assms in auto)

definition demo_readers :: readers where
  "demo_readers =
     \<lparr> rd_text = \<lparr> float_text = (\<lambda>_. None), str_of = (\<lambda>_. []) \<rparr>, rd_deep = (\<lambda>_. False), rd_json = (\<lambda>_. Inl (Builtin ''ValueError'')),
       rd_b64 = (\<lambda>_. Inl (Builtin ''ValueError'')), rd_date = (\<lambda>_. Inl (Builtin ''ValueError'')),
       rd_datetime = (\<lambda>_. Inl (Builtin ''ValueError'')), rd_decimal = (\<lambda>_. Inl (Builtin ''InvalidOperation'')),
       rd_is_model = (\<lambda>n. n = ''ForceReply''), rd_validate = (\<lambda>n d. Inr (VModel n d)),
       rd_unpickle = (\<lambda>_. None), rd_pickle = (\<lambda>_. None) \<rparr>"

definition demo_payload_call :: "(string \<times> aval) list" where
  "demo_payload_call =
     [(''chat_id'', VInt 5), (''text'', VStr ''hi''),
      (''when'', VDate \<lparr> d_year = 2024, d_month = 2, d_day = 29 \<rparr>),
      (''reply_markup'', VModel ''ForceReply'' [(''force_reply'', VBool True), (''data'', VTuple [VBytes ''x'', VEnum (VStr ''HTML'')])])]"

lemma demo_call_queueable: "queueable (\<lambda>_. []) demo_readers (VDict demo_payload_call)"
proof -
  have "valid_date \<lparr> d_year = 2024, d_month = 2, d_day = 29 \<rparr>" "length (dec_nat 5) \<le> 4300" by code_simp+
  then show ?thesis by (simp add: demo_payload_call_def demo_readers_def tags_def tag_defs)
qed

theorem json_payload_round_trip_witness:
  "\<exists>raw. json_dumps (\<lambda>_. []) (\<lambda>_. False) demo_payload_call = Inr raw \<and>
     loads demo_readers PNone raw =
       Inr [(''chat_id'', VInt 5), (''text'', VStr ''hi''),
            (''when'', VDate \<lparr> d_year = 2024, d_month = 2, d_day = 29 \<rparr>),
            (''reply_markup'', VModel ''ForceReply'' [(''force_reply'', VBool True), (''data'', VList [VBytes ''x'', VStr ''HTML''])])]"
  using json_payload_round_trip [OF demo_call_queueable, of "\<lambda>_. False" PNone]
  by (simp add: demo_payload_call_def demo_readers_def)

end
