(* ===== verification/Wire.thy ===== *)
theory Wire
  imports Serializers Delivery
begin

text \<open>
  The wire from end to end: the bytes a producer queues, read by the consumer's
  \<open>Delivery._decoded\<close>.  This joins \<open>Envelope\<close>, \<open>Serializers\<close> and the reading half of
  \<open>Delivery\<close>, whose argument \<open>e_loads\<close> is \<open>decoded_bytes\<close> here.
\<close>

section \<open>What the consumer makes of the bytes\<close>

text \<open>
  The consumer handles the decoded values as data; a value that is not data is an object of its
  class to it.
\<close>

fun of_aval :: "aval \<Rightarrow> pyval" where
  "of_aval VNone = PNone"
| "of_aval (VBool b) = PBool b"
| "of_aval (VInt n) = PInt n"
| "of_aval (VFloat x) = PFloat x"
| "of_aval (VStr s) = PStr s"
| "of_aval (VBytes b) = PBytes b"
| "of_aval (VList xs) = PList (map of_aval xs)"
| "of_aval (VTuple xs) = PObj ''tuple''"
| "of_aval (VDict d) = PDict (map (\<lambda>e. (fst e, of_aval (snd e))) d)"
| "of_aval (VEnum v) = PObj ''Enum''"
| "of_aval (VDefault n) = PObj ''Default''"
| "of_aval (VModel n fs) = PObj n"
| "of_aval (VFile f) = PObj ''InputFile''"
| "of_aval (VDatetime t) = PObj ''datetime''"
| "of_aval (VDate t) = PObj ''date''"
| "of_aval (VDecimal t) = PObj ''Decimal''"
| "of_aval (VObject n) = PObj n"

definition decoded_bytes :: "readers \<Rightarrow> pyval \<Rightarrow> bytes \<Rightarrow> decoding" where
  "decoded_bytes V allow_pickle raw =
     (case loads V allow_pickle raw of
        Inr d \<Rightarrow> Decoded (of_aval (VDict d))
      | Inl e \<Rightarrow> if e = Serialization Serializers.PickleReadRefused then Delivery.PickleReadRefused else Undecodable)"

section \<open>Data goes through unchanged\<close>

fun untagged :: "pyval \<Rightarrow> bool" where
  "untagged (PList xs) = list_all untagged xs"
| "untagged (PDict d) = (list_all (\<lambda>t. t \<notin> set (map fst d)) tags \<and> list_all (\<lambda>e. untagged (snd e)) d)"
| "untagged v = True"

lemma data_is_queueable: "plain R (rd_text V) v \<Longrightarrow> untagged v \<Longrightarrow> queueable R V (as_aval v)"
proof (induction v)
  case (PFloat x)
  then show ?case by (cases x) simp_all
next
  case (PList xs)
  then show ?case by (simp add: list_all_iff)
next
  case (PDict d)
  have "queueable R V (as_aval (snd e))" if "e \<in> set d" for e
    using PDict.IH [OF that, of "snd e"] PDict.prems that by (simp add: list_all_iff)
  then show ?case using PDict.prems by (simp add: list_all_iff comp_def)
qed simp_all

lemma data_is_normal: "plain R T v \<Longrightarrow> of_aval (normal (as_aval v)) = v"
proof (induction v)
  case (PList xs)
  then show ?case by (simp add: map_idI)
next
  case (PDict d)
  have "of_aval (normal (as_aval (snd e))) = snd e" if "e \<in> set d" for e
    using PDict.IH [OF that, of "snd e"] PDict.prems that by simp
  then show ?case by (simp add: map_idI)
qed simp_all

lemma untagged_pack:
  assumes "untagged (PDict kw)"
  shows "untagged (PDict (pack f kw cid stamp who))"
  using assms by (cases who) (auto simp: pack_def ENVELOPE_KEY_def tags_def tag_defs)

lemma plain_pack:
  assumes "plain R T (PDict kw)" and "plain R T (PFloat stamp)" and "\<forall>b. who = Some b \<longrightarrow> plain R T (PInt b)"
  shows "plain R T (PDict (pack f kw cid stamp who))"
proof -
  have "length (dec_nat 1) \<le> 4300" by code_simp
  with assms show ?thesis by (cases who) (auto simp: pack_def ENVELOPE_KEY_def ENVELOPE_VERSION_def)
qed



end
