(* ===== verification/RedisStreams.thy ===== *)
theory RedisStreams
  imports BrokerBase Texts
begin

text \<open>
  The Redis Streams transport, \<open>broker/redis_streams/broker.py\<close>: a consumer group over one or
  several streams, with the group's pending list as the record of what is in flight.  The
  broker's own state is which streams it has grouped, how far it has read its own pending list
  on each, what it has handed out and not settled, and the entries a read delivered beyond the
  first.

  The server is a parameter, a record of the commands the broker sends, each with a reply or the
  text of an error and the server's state after it.  What is relied on is documented behaviour of
  those commands, stated as the assumptions of the locales \<open>stream_server\<close> and
  \<open>stream_pending\<close> of \<open>StreamRuns\<close>.  The \<open>a*\<close> twins send the same commands on another client.
\<close>

section \<open>The server and the driver\<close>

text \<open>What the driver hands over is bytes, or text where the connection decodes.\<close>

datatype stext = InBytes string | InText string

fun plain_text :: "stext \<Rightarrow> string" where
  "plain_text (InBytes s) = s"
| "plain_text (InText s) = s"

type_synonym sfields = "(stext \<times> stext) list"
type_synonym sentry = "string \<times> stext"

datatype srow = Row stext "(stext \<times> sfields option) list option" | OtherRow

text \<open>An answer that is not a list is \<open>None\<close>.\<close>

type_synonym sreply = "srow list option"

text \<open>A group by its name, and its \<open>lag\<close>: not in the row, nil, or a count.\<close>

datatype group_row = GroupRow "stext option" "int option option" | OtherGroupRow

datatype pending_summary = PendingSummary nat "stext option" "(stext \<times> nat) list" | PendingOther nat

record 'r streams =
  x_group_create :: "string \<Rightarrow> string \<Rightarrow> 'r \<Rightarrow> (string + unit) \<times> 'r"
  x_info_groups :: "string \<Rightarrow> 'r \<Rightarrow> (string + group_row list option) \<times> 'r"
  x_info_consumers :: "string \<Rightarrow> string \<Rightarrow> 'r \<Rightarrow> (string + int option list option) \<times> 'r"
  x_add_all :: "string \<Rightarrow> bytes list \<Rightarrow> 'r \<Rightarrow> (string + unit) \<times> 'r"
  x_read :: "string \<Rightarrow> string \<Rightarrow> (string \<times> stext) list \<Rightarrow> nat \<Rightarrow> int option \<Rightarrow> 'r \<Rightarrow> (string + sreply) \<times> 'r"
  x_ack :: "string \<Rightarrow> string \<Rightarrow> stext \<Rightarrow> 'r \<Rightarrow> (string + unit) \<times> 'r"
  x_claim :: "string \<Rightarrow> string \<Rightarrow> string \<Rightarrow> stext \<Rightarrow> int \<Rightarrow> 'r \<Rightarrow> (string + unit) \<times> 'r"
  x_autoclaim :: "string \<Rightarrow> string \<Rightarrow> string \<Rightarrow> int \<Rightarrow> stext \<Rightarrow> 'r \<Rightarrow> (string + stext option \<times> nat \<times> nat) \<times> 'r"
  x_pending :: "string \<Rightarrow> string \<Rightarrow> 'r \<Rightarrow> (string + pending_summary) \<times> 'r"
  x_trim :: "string \<Rightarrow> stext \<Rightarrow> 'r \<Rightarrow> (string + nat) \<times> 'r"
  x_len :: "string \<Rightarrow> 'r \<Rightarrow> (string + nat) \<times> 'r"
  x_delete :: "string \<Rightarrow> 'r \<Rightarrow> (string + unit) \<times> 'r"
  x_exec_delete :: "string \<Rightarrow> 'r \<Rightarrow> 'r \<Rightarrow> (string + bool) \<times> 'r"

section \<open>The broker\<close>

record sconf =
  sc_key :: string
  sc_group :: string
  sc_consumer :: string
  sc_ttl :: int

datatype stream_fail =
    ServerSaid string
  | StreamServerTooOld
  | StreamLagUnknown string string
  | WrongHandleType string

text \<open>
  \<open>_recovered_upto\<close> is a dictionary: a stream that is not in it starts at \<open>'0'\<close>, and \<open>None\<close> says
  that this consumer holds nothing there.
\<close>

record sbroker =
  sb_ready :: bool
  sb_grouped :: "string set"
  sb_upto :: "(string \<times> stext option) list"
  sb_unsettled :: "sentry set"
  sb_spare :: "sentry taken list"

type_synonym 'r sstate = "sbroker \<times> 'r"

definition streams_init :: sbroker where
  "streams_init = \<lparr> sb_ready = False, sb_grouped = {}, sb_upto = [], sb_unsettled = {}, sb_spare = [] \<rparr>"

definition FIELD :: string where "FIELD = ''payload''"
definition RECOVERY_PAGE :: nat where "RECOVERY_PAGE = 10"
definition ZERO :: stext where "ZERO = InText ''0''"
definition NEW :: stext where "NEW = InText ''>''"

definition stream_keys :: "sconf \<Rightarrow> queue_arg \<Rightarrow> string list" where
  "stream_keys C queues = (let named = named_queues queues in if named = [] then [sc_key C] else named)"

fun reports_lag :: "group_row list option \<Rightarrow> bool" where
  "reports_lag None = False"
| "reports_lag (Some rows) = list_ex (\<lambda>r. case r of GroupRow _ (Some _) \<Rightarrow> True | _ \<Rightarrow> False) rows"

definition mark_grouped :: "string \<Rightarrow> sbroker \<Rightarrow> sbroker" where
  "mark_grouped key b = b\<lparr> sb_grouped := insert key (sb_grouped b), sb_ready := True \<rparr>"

definition probe_server :: "'r streams \<Rightarrow> string \<Rightarrow> 'r sstate \<Rightarrow> (stream_fail + unit) \<times> 'r sstate" where
  "probe_server S key s =
     (case s of (b, r) \<Rightarrow>
        if sb_ready b then (Inr (), mark_grouped key b, r)
        else case x_info_groups S key r of
               (Inl e, r1) \<Rightarrow> (Inl (ServerSaid e), b, r1)
             | (Inr rows, r1) \<Rightarrow>
                 if reports_lag rows then (Inr (), mark_grouped key b, r1) else (Inl StreamServerTooOld, b, r1))"

definition grouping :: "sconf \<Rightarrow> 'r streams \<Rightarrow> string \<Rightarrow> 'r sstate \<Rightarrow> (stream_fail + unit) \<times> 'r sstate" where
  "grouping C S key s =
     (case s of (b, r) \<Rightarrow>
        case x_group_create S key (sc_group C) r of
          (Inl e, r1) \<Rightarrow> if contains ''BUSYGROUP'' e then probe_server S key (b, r1) else (Inl (ServerSaid e), b, r1)
        | (Inr _, r1) \<Rightarrow> probe_server S key (b, r1))"

text \<open>
  \<open>_ensure\<close>: the streams that are usable; a stream that cannot be prepared is left out, and the
  first such refusal is raised when nothing usable is left.
\<close>

fun ensure_each ::
  "sconf \<Rightarrow> 'r streams \<Rightarrow> string list \<Rightarrow> string list \<Rightarrow> stream_fail option \<Rightarrow> 'r sstate
    \<Rightarrow> (stream_fail + string list) \<times> 'r sstate" where
  "ensure_each C S [] usable refused s =
     (if usable = [] then (case refused of Some e \<Rightarrow> Inl e | None \<Rightarrow> Inr []) else Inr usable, s)"
| "ensure_each C S (key # keys) usable refused s =
     (if key \<in> sb_grouped (fst s) then ensure_each C S keys (usable @ [key]) refused s
      else case grouping C S key s of
             (Inr _, s1) \<Rightarrow> ensure_each C S keys (usable @ [key]) refused s1
           | (Inl e, s1) \<Rightarrow>
               if e = StreamServerTooOld then (Inl e, s1)
               else ensure_each C S keys usable (case refused of None \<Rightarrow> Some e | Some f \<Rightarrow> Some f) s1)"

definition stream_ensure :: "sconf \<Rightarrow> 'r streams \<Rightarrow> string list \<Rightarrow> 'r sstate \<Rightarrow> (stream_fail + string list) \<times> 'r sstate" where
  "stream_ensure C S keys s = ensure_each C S keys [] None s"

definition stream_publish :: "sconf \<Rightarrow> 'r streams \<Rightarrow> bytes list \<Rightarrow> 'r sstate \<Rightarrow> (stream_fail + unit) \<times> 'r sstate" where
  "stream_publish C S payloads s =
     (if payloads = [] then (Inr (), s)
      else case stream_ensure C S [sc_key C] s of
             (Inl e, s1) \<Rightarrow> (Inl e, s1)
           | (Inr _, b, r) \<Rightarrow>
               (case x_add_all S (sc_key C) payloads r of
                  (Inl e, r1) \<Rightarrow> (Inl (ServerSaid e), b, r1)
                | (Inr _, r1) \<Rightarrow> (Inr (), b, r1)))"

section \<open>Reading what came back\<close>

definition stream_decode :: "string \<Rightarrow> stext \<Rightarrow> sfields option \<Rightarrow> sentry taken option" where
  "stream_decode key identifier fs =
     (let payload = (case fs of
            None \<Rightarrow> None
          | Some d \<Rightarrow> (case map_of d (InBytes FIELD) of Some p \<Rightarrow> Some p | None \<Rightarrow> map_of d (InText FIELD)))
      in map_option (\<lambda>p. \<lparr> tk_payload = plain_text p, tk_handle = (key, identifier), tk_queue = key \<rparr>) payload)"

fun first_entries :: "sreply \<Rightarrow> (stext \<times> sfields option) list" where
  "first_entries (Some (Row _ (Some es) # _)) = es"
| "first_entries _ = []"

fun row_entries :: "srow \<Rightarrow> (string \<times> (stext \<times> sfields option) list) list" where
  "row_entries (Row k (Some es)) = [(plain_text k, es)]"
| "row_entries (Row k None) = [(plain_text k, [])]"
| "row_entries OtherRow = []"

definition by_stream :: "sreply \<Rightarrow> (string \<times> (stext \<times> sfields option) list) list" where
  "by_stream reply = (case reply of None \<Rightarrow> [] | Some rows \<Rightarrow> concat (map row_entries rows))"

text \<open>Every entry of an answer, with the stream it is on, in the order the server gave them.\<close>

definition reply_entries :: "sreply \<Rightarrow> (string \<times> stext \<times> sfields option) list" where
  "reply_entries reply = concat (map (\<lambda>(k, es). map (\<lambda>e. (k, e)) es) (by_stream reply))"

text \<open>\<open>_fresh\<close>: the first readable entry is handed back, the other readable ones are kept.\<close>

fun fresh_each ::
  "(string \<times> stext \<times> sfields option) list \<Rightarrow> sentry taken option \<Rightarrow> sbroker \<Rightarrow> sentry taken option \<times> sbroker" where
  "fresh_each [] first b = (first, b)"
| "fresh_each ((k, i, fs) # es) first b =
     (case stream_decode k i fs of
        None \<Rightarrow> fresh_each es first b
      | Some t \<Rightarrow>
          (case first of
             None \<Rightarrow> fresh_each es (Some t) (b\<lparr> sb_unsettled := insert (tk_handle t) (sb_unsettled b) \<rparr>)
           | Some f \<Rightarrow> fresh_each es (Some f) (b\<lparr> sb_spare := sb_spare b @ [t] \<rparr>)))"

definition fresh :: "sreply \<Rightarrow> sbroker \<Rightarrow> sentry taken option \<times> sbroker" where
  "fresh reply b = fresh_each (reply_entries reply) None b"

section \<open>Settling\<close>

datatype shandle = Entry sentry | BareId stext | OtherHandle string

fun as_entry :: "sconf \<Rightarrow> shandle \<Rightarrow> sentry" where
  "as_entry C (Entry e) = e"
| "as_entry C (BareId i) = (sc_key C, i)"
| "as_entry C (OtherHandle n) = (sc_key C, InText n)"

definition stream_of :: "sconf \<Rightarrow> shandle \<Rightarrow> string" where
  "stream_of C h = (case h of Entry e \<Rightarrow> fst e | _ \<Rightarrow> sc_key C)"

fun entry_id :: "shandle \<Rightarrow> stream_fail + stext" where
  "entry_id (Entry e) = Inr (snd e)"
| "entry_id (BareId i) = Inr i"
| "entry_id (OtherHandle n) = Inl (WrongHandleType n)"

definition stream_ack :: "sconf \<Rightarrow> 'r streams \<Rightarrow> shandle \<Rightarrow> 'r sstate \<Rightarrow> (stream_fail + unit) \<times> 'r sstate" where
  "stream_ack C S h s =
     (case entry_id h of
        Inl e \<Rightarrow> (Inl e, s)
      | Inr i \<Rightarrow>
          (case x_ack S (stream_of C h) (sc_group C) i (snd s) of
             (Inl e, r) \<Rightarrow> (Inl (ServerSaid e), fst s, r)
           | (Inr _, r) \<Rightarrow> (Inr (), (fst s)\<lparr> sb_unsettled := sb_unsettled (fst s) - {as_entry C h} \<rparr>, r)))"

definition give_up :: "sconf \<Rightarrow> shandle \<Rightarrow> sbroker \<Rightarrow> sbroker" where
  "give_up C h b =
     b\<lparr> sb_unsettled := sb_unsettled b - {as_entry C h}, sb_upto := dset (stream_of C h) (Some ZERO) (sb_upto b) \<rparr>"

definition stream_release :: "sconf \<Rightarrow> 'r streams \<Rightarrow> shandle \<Rightarrow> 'r sstate \<Rightarrow> (stream_fail + unit) \<times> 'r sstate" where
  "stream_release C S h s =
     (case entry_id h of
        Inl e \<Rightarrow> (Inl e, s)
      | Inr i \<Rightarrow>
          (case x_claim S (stream_of C h) (sc_group C) (sc_consumer C) i (sc_ttl C * 1000) (snd s) of
             (Inl e, r) \<Rightarrow> (Inl (ServerSaid e), fst s, r)
           | (Inr _, r) \<Rightarrow> (Inr (), give_up C h (fst s), r)))"

section \<open>Taking\<close>

text \<open>
  \<open>_recovered\<close>: a page of this consumer's own pending entries after the cursor.  The cursor moves
  entry by entry and stops at the one handed back.
\<close>

fun recover_page :: "string \<Rightarrow> (stext \<times> sfields option) list \<Rightarrow> sbroker \<Rightarrow> sentry taken option \<times> sbroker" where
  "recover_page key [] b = (None, b)"
| "recover_page key ((i, fs) # es) b =
     (let b1 = b\<lparr> sb_upto := dset key (Some i) (sb_upto b) \<rparr>
      in if (key, i) \<in> sb_unsettled b then recover_page key es b1
         else case stream_decode key i fs of
                None \<Rightarrow> recover_page key es b1
              | Some t \<Rightarrow> (Some t, b1\<lparr> sb_unsettled := insert (tk_handle t) (sb_unsettled b1) \<rparr>))"

definition recovered :: "sconf \<Rightarrow> 'r streams \<Rightarrow> string \<Rightarrow> 'r sstate \<Rightarrow> (stream_fail + sentry taken option) \<times> 'r sstate" where
  "recovered C S key s =
     (case s of (b, r) \<Rightarrow>
        case dget (sb_upto b) key (Some ZERO) of
          None \<Rightarrow> (Inr None, s)
        | Some cursor \<Rightarrow>
            (case x_read S (sc_group C) (sc_consumer C) [(key, cursor)] RECOVERY_PAGE None r of
               (Inl e, r1) \<Rightarrow> (Inl (ServerSaid e), b, r1)
             | (Inr page, r1) \<Rightarrow>
                 if first_entries page = [] then (Inr None, b\<lparr> sb_upto := dset key None (sb_upto b) \<rparr>, r1)
                 else (case recover_page key (first_entries page) b of (t, b1) \<Rightarrow> (Inr t, b1, r1))))"

fun held_spares ::
  "sconf \<Rightarrow> 'r streams \<Rightarrow> string list \<Rightarrow> sentry taken list \<Rightarrow> 'r sstate
    \<Rightarrow> (stream_fail + sentry taken option) \<times> 'r sstate" where
  "held_spares C S keys [] (b, r) = (Inr None, b\<lparr> sb_spare := [] \<rparr>, r)"
| "held_spares C S keys (t # ts) (b, r) =
     (let b1 = b\<lparr> sb_spare := ts \<rparr>
      in if tk_queue t \<notin> set keys
         then (case stream_release C S (Entry (tk_handle t)) (b1, r) of
                 (Inl e, s1) \<Rightarrow> (Inl e, s1)
               | (Inr _, s1) \<Rightarrow> held_spares C S keys ts s1)
         else (Inr (Some t), b1\<lparr> sb_unsettled := insert (tk_handle t) (sb_unsettled b1) \<rparr>, r))"

fun recover_keys ::
  "sconf \<Rightarrow> 'r streams \<Rightarrow> string list \<Rightarrow> 'r sstate \<Rightarrow> (stream_fail + sentry taken option) \<times> 'r sstate" where
  "recover_keys C S [] s = (Inr None, s)"
| "recover_keys C S (key # keys) s =
     (case recovered C S key s of
        (Inr None, s1) \<Rightarrow> recover_keys C S keys s1
      | answer \<Rightarrow> answer)"

definition stream_held ::
  "sconf \<Rightarrow> 'r streams \<Rightarrow> string list \<Rightarrow> 'r sstate \<Rightarrow> (stream_fail + sentry taken option) \<times> 'r sstate" where
  "stream_held C S keys s =
     (case held_spares C S keys (sb_spare (fst s)) s of
        (Inr None, s1) \<Rightarrow> recover_keys C S keys s1
      | answer \<Rightarrow> answer)"

definition regrouped ::
  "sconf \<Rightarrow> 'r streams \<Rightarrow> string \<Rightarrow> string list \<Rightarrow> 'r sstate \<Rightarrow> (stream_fail + bool) \<times> 'r sstate" where
  "regrouped C S e keys s =
     (if \<not> contains ''NOGROUP'' e then (Inr False, s)
      else case stream_ensure C S keys ((fst s)\<lparr> sb_grouped := sb_grouped (fst s) - set keys, sb_upto := [] \<rparr>, snd s) of
             (Inl f, s1) \<Rightarrow> (Inl f, s1)
           | (Inr _, s1) \<Rightarrow> (Inr True, s1))"

definition new_entries :: "string list \<Rightarrow> (string \<times> stext) list" where
  "new_entries keys = map (\<lambda>k. (k, NEW)) (fromkeys keys)"

definition read_new ::
  "sconf \<Rightarrow> 'r streams \<Rightarrow> int option \<Rightarrow> string list \<Rightarrow> 'r sstate \<Rightarrow> (stream_fail + sentry taken option) \<times> 'r sstate" where
  "read_new C S block keys s =
     (case x_read S (sc_group C) (sc_consumer C) (new_entries keys) 1 block (snd s) of
        (Inr reply, r) \<Rightarrow> (case fresh reply (fst s) of (t, b) \<Rightarrow> (Inr t, b, r))
      | (Inl e, r) \<Rightarrow>
          (case regrouped C S e keys (fst s, r) of
             (Inl f, s1) \<Rightarrow> (Inl f, s1)
           | (Inr False, s1) \<Rightarrow> (Inl (ServerSaid e), s1)
           | (Inr True, s1) \<Rightarrow>
               (case x_read S (sc_group C) (sc_consumer C) (new_entries keys) 1 block (snd s1) of
                  (Inr reply, r2) \<Rightarrow> (case fresh reply (fst s1) of (t, b) \<Rightarrow> (Inr t, b, r2))
                | (Inl e2, r2) \<Rightarrow> (Inl (ServerSaid e2), fst s1, r2))))"

definition take_with ::
  "sconf \<Rightarrow> 'r streams \<Rightarrow> int option \<Rightarrow> queue_arg \<Rightarrow> 'r sstate \<Rightarrow> (stream_fail + sentry taken option) \<times> 'r sstate" where
  "take_with C S block queues s =
     (case stream_ensure C S (stream_keys C queues) s of
        (Inl e, s1) \<Rightarrow> (Inl e, s1)
      | (Inr keys, s1) \<Rightarrow>
          (case stream_held C S keys s1 of
             (Inr None, s2) \<Rightarrow> read_new C S block keys s2
           | answer \<Rightarrow> answer))"

definition stream_take ::
  "sconf \<Rightarrow> 'r streams \<Rightarrow> rat \<Rightarrow> queue_arg \<Rightarrow> 'r sstate \<Rightarrow> (stream_fail + sentry taken option) \<times> 'r sstate" where
  "stream_take C S timeout queues s = take_with C S (Some (max 1 \<lfloor>timeout * 1000\<rfloor>)) queues s"

definition stream_take_nowait ::
  "sconf \<Rightarrow> 'r streams \<Rightarrow> queue_arg \<Rightarrow> 'r sstate \<Rightarrow> (stream_fail + sentry taken option) \<times> 'r sstate" where
  "stream_take_nowait C S queues s = take_with C S None queues s"

section \<open>Reclaiming\<close>

text \<open>
  The scan of \<open>_reclaimed\<close> ends when the server says so or its cursor stops moving; on a server
  whose cursor goes on for ever it does not end, which is the value \<open>None\<close>.  The entries lost are
  only counted for the log.
\<close>

partial_function (option) autoclaim_loop ::
  "sconf \<Rightarrow> 'r streams \<Rightarrow> string \<Rightarrow> stext \<Rightarrow> nat \<Rightarrow> nat \<Rightarrow> 'r \<Rightarrow> ((string + nat \<times> nat) \<times> 'r) option" where
  "autoclaim_loop C S key cursor claimed lost r =
     (case x_autoclaim S key (sc_group C) (sc_consumer C) (sc_ttl C * 1000) cursor r of
        (Inl e, r1) \<Rightarrow> Some (Inl e, r1)
      | (Inr (following, n, gone), r1) \<Rightarrow>
          (case following of
             None \<Rightarrow> Some (Inr (claimed + n, lost + gone), r1)
           | Some f \<Rightarrow>
               if plain_text f = [] \<or> plain_text f = ''0-0'' \<or> f = cursor
               then Some (Inr (claimed + n, lost + gone), r1)
               else autoclaim_loop C S key f (claimed + n) (lost + gone) r1))"

declare autoclaim_loop.simps [code]

definition reclaimed :: "sconf \<Rightarrow> 'r streams \<Rightarrow> string \<Rightarrow> 'r sstate \<Rightarrow> ((string + nat) \<times> 'r sstate) option" where
  "reclaimed C S key s =
     (case autoclaim_loop C S key ZERO 0 0 (snd s) of
        None \<Rightarrow> None
      | Some (Inl e, r) \<Rightarrow> Some (Inl e, fst s, r)
      | Some (Inr (claimed, lost), r) \<Rightarrow>
          Some (Inr claimed, (if claimed \<noteq> 0 then (fst s)\<lparr> sb_upto := dset key (Some ZERO) (sb_upto (fst s)) \<rparr> else fst s), r))"

definition recovering ::
  "sconf \<Rightarrow> 'r streams \<Rightarrow> string list \<Rightarrow> string \<Rightarrow> 'r sstate \<Rightarrow> ((stream_fail + nat) \<times> 'r sstate) option" where
  "recovering C S keys key s =
     (case reclaimed C S key s of
        None \<Rightarrow> None
      | Some (Inr n, s1) \<Rightarrow> Some (Inr n, s1)
      | Some (Inl e, s1) \<Rightarrow>
          (case regrouped C S e keys s1 of
             (Inl f, s2) \<Rightarrow> Some (Inl f, s2)
           | (Inr False, s2) \<Rightarrow> Some (Inl (ServerSaid e), s2)
           | (Inr True, s2) \<Rightarrow>
               (case reclaimed C S key s2 of
                  None \<Rightarrow> None
                | Some (Inr n, s3) \<Rightarrow> Some (Inr n, s3)
                | Some (Inl e2, s3) \<Rightarrow> Some (Inl (ServerSaid e2), s3))))"

fun recovering_each ::
  "sconf \<Rightarrow> 'r streams \<Rightarrow> string list \<Rightarrow> string list \<Rightarrow> nat \<Rightarrow> 'r sstate \<Rightarrow> ((stream_fail + nat) \<times> 'r sstate) option" where
  "recovering_each C S keys [] n s = Some (Inr n, s)"
| "recovering_each C S keys (k # ks) n s =
     (case recovering C S keys k s of
        None \<Rightarrow> None
      | Some (Inl e, s1) \<Rightarrow> Some (Inl e, s1)
      | Some (Inr m, s1) \<Rightarrow> recovering_each C S keys ks (n + m) s1)"

definition stream_reclaim ::
  "sconf \<Rightarrow> 'r streams \<Rightarrow> queue_arg \<Rightarrow> 'r sstate \<Rightarrow> ((stream_fail + nat) \<times> 'r sstate) option" where
  "stream_reclaim C S queues s =
     (case stream_ensure C S (stream_keys C queues) s of
        (Inl e, s1) \<Rightarrow> Some (Inl e, s1)
      | (Inr keys, s1) \<Rightarrow> recovering_each C S keys keys 0 s1)"

section \<open>Operations\<close>

definition upper :: "string \<Rightarrow> string" where
  "upper s = map upper_char s"

definition stream_absent :: "string \<Rightarrow> bool" where
  "stream_absent e = (contains ''NO SUCH KEY'' (upper e) \<or> contains ''NOGROUP'' (upper e))"

fun lag_in :: "sconf \<Rightarrow> group_row list \<Rightarrow> stream_fail + int" where
  "lag_in C [] = Inr 0"
| "lag_in C (OtherGroupRow # rows) = lag_in C rows"
| "lag_in C (GroupRow name lag # rows) =
     (if map_option plain_text name \<noteq> Some (sc_group C) then lag_in C rows
      else case lag of
             None \<Rightarrow> Inl StreamServerTooOld
           | Some None \<Rightarrow> Inl (StreamLagUnknown (sc_key C) (sc_group C))
           | Some (Some n) \<Rightarrow> Inr n)"

definition stream_depth :: "sconf \<Rightarrow> 'r streams \<Rightarrow> 'r \<Rightarrow> stream_fail + int" where
  "stream_depth C S r =
     (case fst (x_info_groups S (sc_key C) r) of
        Inr (Some rows) \<Rightarrow> lag_in C rows
      | Inr None \<Rightarrow> Inr 0
      | Inl e \<Rightarrow> if stream_absent e then Inr 0 else Inl (ServerSaid e))"

fun pending_total :: "pending_summary \<Rightarrow> nat" where
  "pending_total (PendingSummary n _ _) = n"
| "pending_total (PendingOther _) = 0"

fun pending_of :: "pending_summary \<Rightarrow> string \<Rightarrow> nat" where
  "pending_of (PendingSummary _ _ consumers) worker =
     (case find (\<lambda>c. plain_text (fst c) = worker) consumers of Some c \<Rightarrow> snd c | None \<Rightarrow> 0)"
| "pending_of (PendingOther _) worker = 0"

definition stream_inflight_depth :: "sconf \<Rightarrow> 'r streams \<Rightarrow> string option \<Rightarrow> 'r \<Rightarrow> stream_fail + nat" where
  "stream_inflight_depth C S worker r =
     (case fst (x_pending S (sc_key C) (sc_group C) r) of
        Inl e \<Rightarrow> if stream_absent e then Inr 0 else Inl (ServerSaid e)
      | Inr summary \<Rightarrow> Inr (case worker of None \<Rightarrow> pending_total summary | Some w \<Rightarrow> pending_of summary w))"

definition stream_trim :: "sconf \<Rightarrow> 'r streams \<Rightarrow> 'r sstate \<Rightarrow> (stream_fail + nat) \<times> 'r sstate" where
  "stream_trim C S s =
     (case stream_ensure C S [sc_key C] s of
        (Inl e, s1) \<Rightarrow> (Inl e, s1)
      | (Inr _, b, r) \<Rightarrow>
          (case x_pending S (sc_key C) (sc_group C) r of
             (Inl e, r1) \<Rightarrow> (Inl (ServerSaid e), b, r1)
           | (Inr (PendingSummary _ (Some oldest) _), r1) \<Rightarrow>
               if plain_text oldest = [] then (Inr 0, b, r1)
               else (case x_trim S (sc_key C) oldest r1 of
                       (Inl e, r2) \<Rightarrow> (Inl (ServerSaid e), b, r2)
                     | (Inr n, r2) \<Rightarrow> (Inr n, b, r2))
           | (Inr _, r1) \<Rightarrow> (Inr 0, b, r1)))"

text \<open>\<open>_pending_count\<close> takes every failure for nothing pending.\<close>

definition pending_count :: "sconf \<Rightarrow> 'r streams \<Rightarrow> string \<Rightarrow> 'r \<Rightarrow> nat" where
  "pending_count C S key r =
     (case fst (x_pending S key (sc_group C) r) of
        Inl _ \<Rightarrow> 0 | Inr (PendingSummary n _ _) \<Rightarrow> n | Inr (PendingOther n) \<Rightarrow> n)"

definition forget_local_state :: "sbroker \<Rightarrow> sbroker" where
  "forget_local_state b =
     b\<lparr> sb_ready := False, sb_grouped := {}, sb_upto := [], sb_unsettled := {}, sb_spare := [] \<rparr>"

text \<open>\<open>meanwhile\<close> is what other clients do between the reads and the transaction.\<close>

definition stream_discarded_if_empty ::
  "sconf \<Rightarrow> 'r streams \<Rightarrow> ('r \<Rightarrow> 'r) \<Rightarrow> 'r sstate \<Rightarrow> (stream_fail + bool) \<times> 'r sstate" where
  "stream_discarded_if_empty C S meanwhile s =
     (case s of (b, r) \<Rightarrow>
        case fst (x_len S (sc_key C) r) of
          Inl e \<Rightarrow> (Inl (ServerSaid e), s)
        | Inr n \<Rightarrow>
            if n \<noteq> 0 \<or> pending_count C S (sc_key C) r \<noteq> 0 then (Inr False, s)
            else (case x_exec_delete S (sc_key C) r (meanwhile r) of
                    (Inl e, r1) \<Rightarrow> (Inl (ServerSaid e), b, r1)
                  | (Inr False, r1) \<Rightarrow> (Inr False, b, r1)
                  | (Inr True, r1) \<Rightarrow> (Inr True, forget_local_state b, r1)))"

definition stream_discard ::
  "sconf \<Rightarrow> 'r streams \<Rightarrow> ('r \<Rightarrow> 'r) \<Rightarrow> bool \<Rightarrow> 'r sstate \<Rightarrow> (stream_fail + bool) \<times> 'r sstate" where
  "stream_discard C S meanwhile if_empty s =
     (if \<not> if_empty
      then (case x_delete S (sc_key C) (snd s) of
              (Inl e, r) \<Rightarrow> (Inl (ServerSaid e), forget_local_state (fst s), r)
            | (Inr _, r) \<Rightarrow> (Inr True, forget_local_state (fst s), r))
      else stream_discarded_if_empty C S meanwhile s)"

text \<open>\<open>liveness\<close>: the age in milliseconds of the least idle consumer, or none that reported.\<close>

definition stream_idles :: "int option list option \<Rightarrow> int list" where
  "stream_idles rows = (case rows of None \<Rightarrow> [] | Some idles \<Rightarrow> map the (filter (\<lambda>i. i \<noteq> None) idles))"

definition stream_liveness :: "sconf \<Rightarrow> 'r streams \<Rightarrow> 'r \<Rightarrow> stream_fail + rat option" where
  "stream_liveness C S r =
     (case fst (x_info_consumers S (sc_key C) (sc_group C) r) of
        Inl e \<Rightarrow> if stream_absent e then Inr None else Inl (ServerSaid e)
      | Inr rows \<Rightarrow>
          Inr (if stream_idles rows = [] then None
               else Some (max 0 (of_int (Min (set (stream_idles rows))) / 1000))))"

end
