(* ===== verification/StreamRuns.thy ===== *)
theory StreamRuns
  imports RedisStreams
begin

text \<open>
  Runs of the Redis Streams transport: one consumer's calls, with other clients at work on the
  server in between.  An entry is handed out once, nothing pending is stranded, the reclaiming
  scan ends; and two things the transport does not do as documented.
\<close>

section \<open>Handed out once\<close>

text \<open>
  \<open>given r\<close> are the entries the group has delivered to anybody.  A read of new entries delivers
  entries nobody was given, each once, and an entry read back from the pending list is one that
  was given; nothing is ever forgotten.
\<close>

definition entry_ids :: "sreply \<Rightarrow> sentry list" where
  "entry_ids reply = map (\<lambda>(k, i, fs). (k, i)) (reply_entries reply)"

locale stream_server =
  fixes S :: "'r streams" and given :: "'r \<Rightarrow> sentry set"
  assumes new_read: "x_read S g c (new_entries keys) n blk r = (Inr reply, r') \<Longrightarrow>
        distinct (entry_ids reply) \<and> set (entry_ids reply) \<inter> given r = {} \<and> set (entry_ids reply) \<subseteq> given r'"
    and pending_read: "x_read S g c [(k, i)] n blk r = (Inr reply, r') \<Longrightarrow>
        (\<lambda>(j, fs). (k, j)) ` set (first_entries reply) \<subseteq> given r'"
    and read_given: "x_read S g c rs n blk r = (x1, r') \<Longrightarrow> given r \<subseteq> given r'"
    and group_given: "x_group_create S k g r = (x2, r') \<Longrightarrow> given r \<subseteq> given r'"
    and info_given: "x_info_groups S k r = (x3, r') \<Longrightarrow> given r \<subseteq> given r'"
    and add_given: "x_add_all S k ps r = (x4, r') \<Longrightarrow> given r \<subseteq> given r'"
    and ack_given: "x_ack S k g i r = (x5, r') \<Longrightarrow> given r \<subseteq> given r'"
    and claim_given: "x_claim S k g c i idle r = (x6, r') \<Longrightarrow> given r \<subseteq> given r'"
    and autoclaim_given: "x_autoclaim S k g c idle i r = (x7, r') \<Longrightarrow> given r \<subseteq> given r'"

text \<open>The parts of the broker that say which entries are out.\<close>

definition same_books :: "sbroker \<Rightarrow> sbroker \<Rightarrow> bool" where
  "same_books b b' \<longleftrightarrow> sb_unsettled b' = sb_unsettled b \<and> sb_spare b' = sb_spare b"

lemma same_books_refl [simp]: "same_books b b"
  by (simp add: same_books_def)

lemma same_books_trans: "same_books a b \<Longrightarrow> same_books b c \<Longrightarrow> same_books a c"
  by (simp add: same_books_def)

lemma same_books_mark [simp]: "same_books b (mark_grouped k b)" "sb_upto (mark_grouped k b) = sb_upto b"
  by (simp_all add: same_books_def mark_grouped_def)

text \<open>What holds of preparing each stream holds of preparing them all, when it composes.\<close>

lemma ensure_each_rel:
  assumes one: "\<And>k b r x b' r'. grouping C S k (b, r) = (x, b', r') \<Longrightarrow> same_books b b' \<and> sb_upto b' = sb_upto b \<and> Q r r'"
    and refl: "\<And>r. Q r r" and trans: "\<And>r r1 r2. Q r r1 \<Longrightarrow> Q r1 r2 \<Longrightarrow> Q r r2"
  shows "ensure_each C S keys usable refused (b, r) = (x, b', r') \<Longrightarrow>
     same_books b b' \<and> sb_upto b' = sb_upto b \<and> Q r r'"
proof (induction keys arbitrary: usable refused b r)
  case Nil
  then show ?case using refl by auto
next
  case (Cons k keys)
  obtain y b1 r1 where g: "grouping C S k (b, r) = (y, b1, r1)" by (cases "grouping C S k (b, r)") auto
  note f = one [OF g]
  show ?case
  proof (cases "k \<in> sb_grouped b")
    case True
    then show ?thesis using Cons by simp
  next
    case False
    consider "x = Inl StreamServerTooOld \<and> b' = b1 \<and> r' = r1"
      | usable' refused' where "ensure_each C S keys usable' refused' (b1, r1) = (x, b', r')"
      using Cons.prems False g by (auto split: sum.splits if_splits)
    then show ?thesis
    proof cases
      case 2
      from Cons.IH [OF this] f show ?thesis by (auto dest: same_books_trans intro: trans)
    qed (use f in simp)
  qed
qed

definition spare_handles :: "sbroker \<Rightarrow> sentry list" where
  "spare_handles b = map tk_handle (sb_spare b)"

fun handed :: "stream_fail + sentry taken option \<Rightarrow> sentry set" where
  "handed (Inr (Some t)) = {tk_handle t}"
| "handed _ = {}"

lemma stream_decode_handle: "stream_decode k i fs = Some t \<Longrightarrow> tk_handle t = (k, i) \<and> tk_queue t = k"
  by (auto simp: stream_decode_def Let_def)

context stream_server
begin

definition once :: "'r sstate \<Rightarrow> bool" where
  "once s \<longleftrightarrow>
     sb_unsettled (fst s) \<union> set (spare_handles (fst s)) \<subseteq> given (snd s) \<and>
     distinct (spare_handles (fst s)) \<and> sb_unsettled (fst s) \<inter> set (spare_handles (fst s)) = {}"

text \<open>A part of a take: what is handed out was not out, and is out afterwards.\<close>

definition hands :: "'r sstate \<Rightarrow> (stream_fail + sentry taken option) \<times> 'r sstate \<Rightarrow> bool" where
  "hands s a \<longleftrightarrow>
     once (snd a) \<and> sb_unsettled (fst (snd a)) = sb_unsettled (fst s) \<union> handed (fst a) \<and>
     handed (fst a) \<inter> sb_unsettled (fst s) = {}"

lemma once_frame: "once (b, r) \<Longrightarrow> same_books b b' \<Longrightarrow> given r \<subseteq> given r' \<Longrightarrow> once (b', r')"
  by (auto simp: once_def same_books_def spare_handles_def)

lemma hands_nothing: "once (b, r) \<Longrightarrow> same_books b b' \<Longrightarrow> given r \<subseteq> given r' \<Longrightarrow> handed x = {} \<Longrightarrow> hands (b, r) (x, b', r')"
  using once_frame by (simp add: hands_def same_books_def)

lemma hands_then: "hands s (x, s1) \<Longrightarrow> handed x = {} \<Longrightarrow> hands s1 a \<Longrightarrow> hands s a"
  by (simp add: hands_def)

lemma probe_frame:
  "probe_server S k (b, r) = (x, b', r') \<Longrightarrow> same_books b b' \<and> sb_upto b' = sb_upto b \<and> given r \<subseteq> given r'"
  by (auto simp: probe_server_def dest: info_given split: if_splits prod.splits sum.splits)

lemma grouping_frame:
  "grouping C S k (b, r) = (x, b', r') \<Longrightarrow> same_books b b' \<and> sb_upto b' = sb_upto b \<and> given r \<subseteq> given r'"
  by (auto simp: grouping_def dest: group_given dest!: probe_frame split: if_splits prod.splits sum.splits)

lemma ensure_frame:
  assumes "stream_ensure C S keys (b, r) = (x, b', r')"
  shows "same_books b b' \<and> sb_upto b' = sb_upto b \<and> given r \<subseteq> given r'"
  using assms grouping_frame unfolding stream_ensure_def
  by (elim ensure_each_rel [where Q = "\<lambda>r r'. given r \<subseteq> given r'", rotated 3]) auto

lemma regrouped_frame:
  "regrouped C S e keys (b, r) = (x, b', r') \<Longrightarrow> same_books b b' \<and> given r \<subseteq> given r'"
  by (auto simp: regrouped_def same_books_def dest!: ensure_frame split: if_splits prod.splits sum.splits)

lemma fresh_each_once:
  assumes "fresh_each es first b = (t, b')"
    and "once (b, r)" and "distinct (map (\<lambda>(k, i, fs). (k, i)) es)"
    and "set (map (\<lambda>(k, i, fs). (k, i)) es) \<subseteq> given r"
    and "set (map (\<lambda>(k, i, fs). (k, i)) es) \<inter> (sb_unsettled b \<union> set (spare_handles b)) = {}"
  shows "once (b', r) \<and> (case first of
      Some f \<Rightarrow> t = Some f \<and> sb_unsettled b' = sb_unsettled b
    | None \<Rightarrow> sb_unsettled b' = sb_unsettled b \<union> handed (Inr t) \<and> handed (Inr t) \<inter> sb_unsettled b = {})"
  using assms
proof (induction es first b rule: fresh_each.induct)
  case (2 k i fs es first b)
  show ?case
  proof (cases "stream_decode k i fs")
    case None
    with 2 show ?thesis by simp
  next
    case (Some u)
    have u: "tk_handle u = (k, i)" using stream_decode_handle [OF Some] by simp
    show ?thesis
    proof (cases first)
      case None
      let ?b = "b\<lparr> sb_unsettled := insert (tk_handle u) (sb_unsettled b) \<rparr>"
      have "once (?b, r)" using "2.prems"(2-5) u by (auto simp: once_def spare_handles_def)
      moreover have "set (map (\<lambda>(k, i, fs). (k, i)) es) \<inter> (sb_unsettled ?b \<union> set (spare_handles ?b)) = {}"
        using "2.prems"(3,5) u by (auto simp: spare_handles_def)
      ultimately have "once (b', r) \<and> t = Some u \<and> sb_unsettled b' = sb_unsettled ?b"
        using "2.IH"(2) [of u] "2.prems"(1,3,4) Some None by simp
      then show ?thesis using None u "2.prems"(5) by auto
    next
      case (Some f)
      let ?b = "b\<lparr> sb_spare := sb_spare b @ [u] \<rparr>"
      have "once (?b, r)" using "2.prems"(2-5) u by (auto simp: once_def spare_handles_def)
      moreover have "set (map (\<lambda>(k, i, fs). (k, i)) es) \<inter> (sb_unsettled ?b \<union> set (spare_handles ?b)) = {}"
        using "2.prems"(3,5) u by (auto simp: spare_handles_def)
      ultimately show ?thesis
        using "2.IH"(3) [of u f] "2.prems"(1,3,4) Some \<open>stream_decode k i fs = Some u\<close> by simp
    qed
  qed
qed (auto split: option.splits)

lemma fresh_hands:
  assumes "once (b, r)" and "x_read S g c (new_entries keys) n blk r = (Inr reply, r')" and "fresh reply b = (t, b')"
  shows "hands (b, r) (Inr t, b', r')"
proof -
  have g: "given r \<subseteq> given r'" using read_given [OF assms(2)] .
  have r': "once (b, r')" using once_frame [OF assms(1)] g by simp
  have "sb_unsettled b \<union> set (spare_handles b) \<subseteq> given r" using assms(1) by (simp add: once_def)
  with new_read [OF assms(2)] have "set (entry_ids reply) \<inter> (sb_unsettled b \<union> set (spare_handles b)) = {}" by blast
  with fresh_each_once [OF assms(3) [unfolded fresh_def] r'] new_read [OF assms(2)] show ?thesis
    by (simp add: hands_def entry_ids_def)
qed

lemma release_frame:
  assumes "stream_release C S h (b, r) = (x, b', r')"
  shows "given r \<subseteq> given r' \<and> sb_spare b' = sb_spare b \<and>
    sb_unsettled b' = (if x = Inr () then sb_unsettled b - {as_entry C h} else sb_unsettled b)"
  using assms by (auto simp: stream_release_def give_up_def dest: claim_given split: sum.splits prod.splits)

lemma held_spares_hands:
  "once (b\<lparr> sb_spare := ts \<rparr>, r) \<Longrightarrow> held_spares C S keys ts (b, r) = a \<Longrightarrow>
     hands (b, r) a \<and> (fst a = Inr None \<longrightarrow> sb_spare (fst (snd a)) = [])"
proof (induction ts arbitrary: b r a)
  case Nil
  then show ?case by (auto simp: hands_def once_def spare_handles_def)
next
  case (Cons t ts)
  let ?b = "b\<lparr> sb_spare := ts \<rparr>"
  have o: "once (?b, r)" and out: "tk_handle t \<notin> sb_unsettled b" "tk_handle t \<notin> set (spare_handles ?b)" "tk_handle t \<in> given r"
    using Cons.prems(1) by (auto simp: once_def spare_handles_def)
  show ?case
  proof (cases "tk_queue t \<in> set keys")
    case True
    then have "a = (Inr (Some t), ?b\<lparr> sb_unsettled := insert (tk_handle t) (sb_unsettled b) \<rparr>, r)" using Cons.prems(2) by simp
    then show ?thesis using o out by (simp add: hands_def once_def spare_handles_def)
  next
    case False
    obtain x b1 r1 where rel: "stream_release C S (Entry (tk_handle t)) (?b, r) = (x, b1, r1)"
      by (cases "stream_release C S (Entry (tk_handle t)) (?b, r)") auto
    have f: "given r \<subseteq> given r1" "sb_spare b1 = ts" "sb_unsettled b1 = sb_unsettled b"
      using release_frame [OF rel] out(1) by auto
    then have o1: "once (b1\<lparr> sb_spare := ts \<rparr>, r1)" using o by (auto simp: once_def spare_handles_def)
    show ?thesis
    proof (cases x)
      case (Inl e)
      have "a = (Inl e, b1, r1)" using Cons.prems(2) False rel Inl by simp
      then show ?thesis using o1 f by (simp add: hands_def once_def spare_handles_def)
    next
      case (Inr u)
      have "held_spares C S keys ts (b1, r1) = a" using Cons.prems(2) False rel Inr by simp
      from Cons.IH [OF o1 this] f show ?thesis by (simp add: hands_def)
    qed
  qed
qed

lemma recover_page_hands:
  "recover_page key es b = (t, b') \<Longrightarrow> sb_spare b = [] \<Longrightarrow> once (b, r) \<Longrightarrow> (\<lambda>(j, fs). (key, j)) ` set es \<subseteq> given r \<Longrightarrow>
     hands (b, r) (Inr t, b', r) \<and> sb_spare b' = []"
proof (induction key es b rule: recover_page.induct)
  case (2 key i fs es b)
  let ?b = "b\<lparr> sb_upto := dset key (Some i) (sb_upto b) \<rparr>"
  have o: "once (?b, r)" using "2.prems"(3) by (simp add: once_def spare_handles_def)
  consider (hand) u where "(key, i) \<notin> sb_unsettled b" "stream_decode key i fs = Some u" "t = Some u"
      "b' = ?b\<lparr> sb_unsettled := insert (tk_handle u) (sb_unsettled b) \<rparr>"
    | (skip) "recover_page key es ?b = (t, b')"
    using "2.prems"(1) by (auto simp: Let_def split: if_splits option.splits)
  then show ?case
  proof cases
    case hand
    then show ?thesis using stream_decode_handle [OF hand(2)] "2.prems"(2-4)
      by (auto simp: hands_def once_def spare_handles_def)
  next
    case skip
    have "hands (?b, r) (Inr t, b', r) \<and> sb_spare b' = []"
    proof (cases "(key, i) \<in> sb_unsettled b")
      case True
      then show ?thesis using "2.IH"(1) [OF refl True skip] "2.prems"(2,4) o by simp
    next
      case False
      have "stream_decode key i fs = None \<or> (\<exists>u. stream_decode key i fs = Some u)" by auto
      then show ?thesis
      proof
        assume "stream_decode key i fs = None"
        then show ?thesis using "2.IH"(2) [OF refl False _ skip] "2.prems"(2,4) o by simp
      next
        assume "\<exists>u. stream_decode key i fs = Some u"
        then obtain u where u: "stream_decode key i fs = Some u" ..
        then have "t = Some u" "b' = ?b\<lparr> sb_unsettled := insert (tk_handle u) (sb_unsettled b) \<rparr>"
          using "2.prems"(1) False by simp_all
        then show ?thesis using stream_decode_handle [OF u] "2.prems"(2-4) False
          by (auto simp: hands_def once_def spare_handles_def)
      qed
    qed
    then show ?thesis by (simp add: hands_def)
  qed
qed (simp add: hands_def)

lemma recovered_hands:
  assumes "recovered C S key (b, r) = a" and "sb_spare b = []" and "once (b, r)"
  shows "hands (b, r) a \<and> sb_spare (fst (snd a)) = []"
proof (cases "dget (sb_upto b) key (Some ZERO)")
  case None
  then show ?thesis using assms by (auto simp: recovered_def hands_def)
next
  case (Some cursor)
  obtain x r1 where rd: "x_read S (sc_group C) (sc_consumer C) [(key, cursor)] RECOVERY_PAGE None r = (x, r1)" by fastforce
  have o: "once (b, r1)" using once_frame [OF assms(3) _ read_given [OF rd]] by simp
  show ?thesis
  proof (cases x)
    case (Inl e)
    then show ?thesis using assms Some rd o by (auto simp: recovered_def hands_def)
  next
    case (Inr page)
    show ?thesis
    proof (cases "first_entries page = []")
      case True
      then have "a = (Inr None, b\<lparr> sb_upto := dset key None (sb_upto b) \<rparr>, r1)" using assms(1) Some rd Inr by (simp add: recovered_def)
      then show ?thesis using o assms(2) by (simp add: hands_def once_def spare_handles_def)
    next
      case False
      obtain t b1 where p: "recover_page key (first_entries page) b = (t, b1)" by fastforce
      then have "a = (Inr t, b1, r1)" using assms(1) Some rd Inr False by (simp add: recovered_def)
      then show ?thesis using recover_page_hands [OF p assms(2) o] pending_read [OF rd [unfolded Inr]]
        by (simp add: hands_def)
    qed
  qed
qed

lemma recover_keys_hands:
  "recover_keys C S keys (b, r) = a \<Longrightarrow> sb_spare b = [] \<Longrightarrow> once (b, r) \<Longrightarrow> hands (b, r) a \<and> sb_spare (fst (snd a)) = []"
proof (induction keys arbitrary: b r)
  case Nil
  then show ?case by (auto simp: hands_def)
next
  case (Cons k keys)
  obtain x b1 r1 where k: "recovered C S k (b, r) = (x, b1, r1)" by (cases "recovered C S k (b, r)") auto
  note f = recovered_hands [OF k Cons.prems(2,3)]
  show ?case
  proof (cases "x = Inr None")
    case True
    then have "recover_keys C S keys (b1, r1) = a" using Cons.prems(1) k by simp
    with Cons.IH [OF this] f have "hands (b1, r1) a \<and> sb_spare (fst (snd a)) = []" by (simp add: hands_def)
    moreover have "hands (b, r) (x, b1, r1)" using f by simp
    ultimately show ?thesis using hands_then [of "(b, r)" x "(b1, r1)" a] True by simp
  next
    case False
    then have "a = (x, b1, r1)" using Cons.prems(1) k by (auto split: sum.splits option.splits)
    then show ?thesis using f by simp
  qed
qed

lemma stream_held_hands:
  assumes "stream_held C S keys (b, r) = a" and "once (b, r)"
  shows "hands (b, r) a"
proof -
  obtain x b1 r1 where k: "held_spares C S keys (sb_spare b) (b, r) = (x, b1, r1)"
    by (cases "held_spares C S keys (sb_spare b) (b, r)") auto
  have "once (b\<lparr> sb_spare := sb_spare b \<rparr>, r)" using assms(2) by simp
  note f = held_spares_hands [OF this k]
  show ?thesis
  proof (cases "x = Inr None")
    case True
    then have "recover_keys C S keys (b1, r1) = a" using assms(1) k by (simp add: stream_held_def)
    moreover have "sb_spare b1 = []" "once (b1, r1)" using f True by (simp_all add: hands_def)
    ultimately have "hands (b1, r1) a" using recover_keys_hands by blast
    then show ?thesis using hands_then [of "(b, r)" x "(b1, r1)" a] f True by simp
  next
    case False
    then have "a = (x, b1, r1)" using assms(1) k by (auto simp: stream_held_def split: sum.splits option.splits)
    then show ?thesis using f by simp
  qed
qed

lemma read_new_hands:
  assumes "read_new C S block keys (b, r) = a" and "once (b, r)"
  shows "hands (b, r) a"
proof -
  obtain x r1 where rd: "x_read S (sc_group C) (sc_consumer C) (new_entries keys) 1 block r = (x, r1)" by fastforce
  show ?thesis
  proof (cases x)
    case (Inr reply)
    obtain t b1 where "fresh reply b = (t, b1)" by fastforce
    then show ?thesis using fresh_hands [OF assms(2) rd [unfolded Inr]] assms(1) rd Inr by (simp add: read_new_def)
  next
    case (Inl e)
    obtain y b2 r2 where g: "regrouped C S e keys (b, r1) = (y, b2, r2)" by (cases "regrouped C S e keys (b, r1)") auto
    have f: "same_books b b2" "given r \<subseteq> given r2" using regrouped_frame [OF g] read_given [OF rd] by auto
    then have o: "once (b2, r2)" using once_frame [OF assms(2)] by blast
    have quiet: "hands (b, r) (Inl z, b2, r2)" for z using hands_nothing [OF assms(2) f] by simp
    show ?thesis
    proof (cases "y = Inr True")
      case False
      then have "\<exists>z. a = (Inl z, b2, r2)" using assms(1) rd Inl g by (auto simp: read_new_def split: sum.splits bool.splits)
      then show ?thesis using quiet by blast
    next
      case True
      obtain x3 r3 where rd3: "x_read S (sc_group C) (sc_consumer C) (new_entries keys) 1 block r2 = (x3, r3)" by fastforce
      have "hands (b2, r2) a"
      proof (cases x3)
        case (Inl e3)
        then have "a = (Inl (ServerSaid e3), b2, r3)" using assms(1) rd \<open>x = Inl e\<close> g True rd3 by (simp add: read_new_def)
        then show ?thesis using hands_nothing [OF o _ read_given [OF rd3]] by simp
      next
        case (Inr reply)
        obtain t b3 where "fresh reply b2 = (t, b3)" by fastforce
        then show ?thesis using fresh_hands [OF o rd3 [unfolded Inr]] assms(1) rd \<open>x = Inl e\<close> g True rd3 Inr by (simp add: read_new_def)
      qed
      then show ?thesis using f(1) by (simp add: hands_def same_books_def)
    qed
  qed
qed

lemma take_hands:
  assumes "take_with C S block queues (b, r) = a" and "once (b, r)"
  shows "hands (b, r) a"
proof -
  obtain x b1 r1 where e: "stream_ensure C S (stream_keys C queues) (b, r) = (x, b1, r1)"
    by (cases "stream_ensure C S (stream_keys C queues) (b, r)") auto
  have f: "same_books b b1" "given r \<subseteq> given r1" using ensure_frame [OF e] by auto
  show ?thesis
  proof (cases x)
    case (Inl z)
    then show ?thesis using hands_nothing [OF assms(2) f] assms(1) e by (auto simp: take_with_def)
  next
    case (Inr keys)
    have o: "once (b1, r1)" using once_frame [OF assms(2) f] .
    obtain y b2 r2 where h: "stream_held C S keys (b1, r1) = (y, b2, r2)" by (cases "stream_held C S keys (b1, r1)") auto
    have "hands (b1, r1) a"
    proof (cases "y = Inr None")
      case True
      then have "read_new C S block keys (b2, r2) = a" using assms(1) e Inr h by (simp add: take_with_def)
      moreover have hh: "hands (b1, r1) (y, b2, r2)" using stream_held_hands [OF h o] .
      moreover have "once (b2, r2)" using hh by (simp add: hands_def)
      ultimately have "hands (b2, r2) a" using read_new_hands by blast
      then show ?thesis using hands_then [OF hh] True by simp
    next
      case False
      then have "a = (y, b2, r2)" using assms(1) e Inr h by (auto simp: take_with_def split: sum.splits option.splits)
      then show ?thesis using stream_held_hands [OF h o] by simp
    qed
    then show ?thesis using f(1) by (simp add: hands_def same_books_def)
  qed
qed

end

text \<open>What holds of every command of the scan holds of the scan, when it composes.\<close>

lemma autoclaim_loop_rel:
  assumes step: "\<And>cur r x r1. x_autoclaim S key (sc_group C) (sc_consumer C) (sc_ttl C * 1000) cur r = (x, r1) \<Longrightarrow>
      Q (case x of Inl e \<Rightarrow> 0 | Inr (f, k, g) \<Rightarrow> k) r r1"
    and trans: "\<And>j k r r1 r2. Q j r r1 \<Longrightarrow> Q k r1 r2 \<Longrightarrow> Q (j + k) r r2"
    and run: "autoclaim_loop C S key cursor n m r = Some (x, r')"
  shows "\<exists>d. Q d r r' \<and> (\<forall>n' m'. x = Inr (n', m') \<longrightarrow> n' = n + d)"
proof -
  define good where "good n r y \<longleftrightarrow> (\<exists>d. Q d r (snd y) \<and> (\<forall>n' m'. fst y = Inr (n', m') \<longrightarrow> n' = n + d))" for n r and y :: "(string + nat \<times> nat) \<times> 'a"
  have "C = C \<and> S = S \<and> key = key \<longrightarrow> good n r (x, r')"
  proof (rule autoclaim_loop.raw_induct [where P = "\<lambda>C' S' key' cursor n m r y. C' = C \<and> S' = S \<and> key' = key \<longrightarrow> good n r y", OF _ run])
    fix f C' S' key' cursor n m r y
    assume ih: "\<And>C' S' key' cursor n m r y. f C' S' key' cursor n m r = Some y \<Longrightarrow> C' = C \<and> S' = S \<and> key' = key \<longrightarrow> good n r y"
      and body: "(case x_autoclaim S' key' (sc_group C') (sc_consumer C') (sc_ttl C' * 1000) cursor r of
        (Inl e, r1) \<Rightarrow> Some (Inl e, r1)
      | (Inr (following, n', gone), r1) \<Rightarrow>
          (case following of
             None \<Rightarrow> Some (Inr (n + n', m + gone), r1)
           | Some g \<Rightarrow>
               if plain_text g = [] \<or> plain_text g = ''0-0'' \<or> g = cursor
               then Some (Inr (n + n', m + gone), r1)
               else f C' S' key' g (n + n') (m + gone) r1)) = Some y"
    show "C' = C \<and> S' = S \<and> key' = key \<longrightarrow> good n r y"
    proof
      assume same: "C' = C \<and> S' = S \<and> key' = key"
      obtain z r1 where c: "x_autoclaim S key (sc_group C) (sc_consumer C) (sc_ttl C * 1000) cursor r = (z, r1)" by fastforce
      show "good n r y"
      proof (cases z)
        case (Inl e)
        then have "y = (Inl e, r1)" using body same c by simp
        then show ?thesis using step [OF c] by (auto simp: good_def)
      next
        case (Inr u)
        obtain g k l where u: "u = (g, k, l)" by (cases u)
        have q: "Q k r r1" using step [OF c] Inr u by simp
        have "y = (Inr (n + k, m + l), r1) \<or> (\<exists>g. f C S key g (n + k) (m + l) r1 = Some y)" using body same c Inr u
          by (auto split: option.splits if_splits)
        then show ?thesis
        proof
          assume "y = (Inr (n + k, m + l), r1)"
          with q show ?thesis by (auto simp: good_def)
        next
          assume "\<exists>g. f C S key g (n + k) (m + l) r1 = Some y"
          then have "good (n + k) r1 y" using ih same by blast
          then obtain d where "Q d r1 (snd y)" "\<forall>n' m'. fst y = Inr (n', m') \<longrightarrow> n' = n + k + d" by (auto simp: good_def)
          with trans [OF q] show ?thesis unfolding good_def by (intro exI [of _ "k + d"]) (simp add: add.assoc)
        qed
      qed
    qed
  qed
  then show ?thesis by (simp add: good_def)
qed

context stream_server
begin

lemma reclaimed_frame:
  assumes "reclaimed C S key (b, r) = Some (x, b', r')"
  shows "same_books b b' \<and> given r \<subseteq> given r'"
proof -
  have "autoclaim_loop C S key ZERO 0 0 r = Some (z, r1) \<Longrightarrow> given r \<subseteq> given r1" for z r1
    using autoclaim_loop_rel [where Q = "\<lambda>d r r'. given r \<subseteq> given r'"] autoclaim_given by blast
  then show ?thesis using assms
    by (auto simp: reclaimed_def same_books_def split: option.splits sum.splits prod.splits if_splits)
qed

lemma recovering_frame:
  assumes "recovering C S keys key (b, r) = Some (x, b', r')"
  shows "same_books b b' \<and> given r \<subseteq> given r'"
proof -
  obtain y b1 r1 where y: "reclaimed C S key (b, r) = Some (y, b1, r1)"
    using assms by (cases "reclaimed C S key (b, r)") (auto simp: recovering_def)
  note f = reclaimed_frame [OF y]
  show ?thesis
  proof (cases y)
    case (Inr n)
    then show ?thesis using assms y f by (simp add: recovering_def)
  next
    case (Inl e)
    obtain z b2 r2 where z: "regrouped C S e keys (b1, r1) = (z, b2, r2)" by (cases "regrouped C S e keys (b1, r1)") auto
    note g = regrouped_frame [OF z]
    have "(b', r') = (b2, r2) \<or> (\<exists>w. reclaimed C S key (b2, r2) = Some (w, b', r'))"
      using assms y Inl z by (auto simp: recovering_def split: option.splits sum.splits bool.splits)
    then show ?thesis using f g by (auto dest!: reclaimed_frame dest: same_books_trans)
  qed
qed

lemma recovering_each_frame:
  "recovering_each C S keys ks n (b, r) = Some (x, b', r') \<Longrightarrow> same_books b b' \<and> given r \<subseteq> given r'"
proof (induction ks arbitrary: n b r)
  case (Cons k ks)
  then obtain y b1 r1 where y: "recovering C S keys k (b, r) = Some (y, b1, r1)"
    by (cases "recovering C S keys k (b, r)") auto
  note f = recovering_frame [OF y]
  have "(b', r') = (b1, r1) \<or> (\<exists>m. recovering_each C S keys ks m (b1, r1) = Some (x, b', r'))"
    using Cons.prems y by (auto split: sum.splits)
  then show ?case using f by (auto dest!: Cons.IH dest: same_books_trans)
qed simp

lemma reclaim_frame:
  assumes "stream_reclaim C S queues (b, r) = Some (x, b', r')"
  shows "same_books b b' \<and> given r \<subseteq> given r'"
proof -
  obtain y b1 r1 where y: "stream_ensure C S (stream_keys C queues) (b, r) = (y, b1, r1)"
    by (cases "stream_ensure C S (stream_keys C queues) (b, r)") auto
  have "(b', r') = (b1, r1) \<or> (\<exists>keys. recovering_each C S keys keys 0 (b1, r1) = Some (x, b', r'))"
    using assms y by (auto simp: stream_reclaim_def split: sum.splits)
  then show ?thesis using ensure_frame [OF y] by (auto dest!: recovering_each_frame dest: same_books_trans)
qed

lemma publish_frame:
  assumes "stream_publish C S ps (b, r) = (x, b', r')"
  shows "same_books b b' \<and> given r \<subseteq> given r'"
  using assms by (auto simp: stream_publish_def dest!: ensure_frame add_given split: if_splits sum.splits prod.splits)

lemma ack_frame:
  assumes "stream_ack C S h (b, r) = (x, b', r')"
  shows "given r \<subseteq> given r' \<and> sb_spare b' = sb_spare b \<and>
    sb_unsettled b' = (if x = Inr () then sb_unsettled b - {as_entry C h} else sb_unsettled b)"
  using assms by (auto simp: stream_ack_def dest: ack_given split: sum.splits prod.splits)

end

lemma autoclaim_loop_answers:
  assumes "autoclaim_loop C S key cursor n m r = Some (x, r')" and "\<And>k g c idle i r err r'. x_autoclaim S k g c idle i r \<noteq> (Inl err, r')"
  shows "\<exists>n m. x = Inr (n, m)"
proof -
  have "S = S \<longrightarrow> (\<exists>n m. fst (x, r') = Inr (n, m))"
  proof (rule autoclaim_loop.raw_induct [where P = "\<lambda>C' S' key' cursor n m r y. S' = S \<longrightarrow> (\<exists>n m. fst y = Inr (n, m))", OF _ assms(1)])
    fix f C' S' key' cursor n m r y
    assume "\<And>C' S' key' cursor n m r y. f C' S' key' cursor n m r = Some y \<Longrightarrow> S' = S \<longrightarrow> (\<exists>n m. fst y = Inr (n, m))"
      and "(case x_autoclaim S' key' (sc_group C') (sc_consumer C') (sc_ttl C' * 1000) cursor r of
        (Inl e, r1) \<Rightarrow> Some (Inl e, r1)
      | (Inr (following, n', gone), r1) \<Rightarrow>
          (case following of
             None \<Rightarrow> Some (Inr (n + n', m + gone), r1)
           | Some g \<Rightarrow>
               if plain_text g = [] \<or> plain_text g = ''0-0'' \<or> g = cursor
               then Some (Inr (n + n', m + gone), r1)
               else f C' S' key' g (n + n') (m + gone) r1)) = Some y"
    then show "S' = S \<longrightarrow> (\<exists>n m. fst y = Inr (n, m))" using assms(2)
      by (auto split: sum.splits prod.splits option.splits if_splits)
  qed
  then show ?thesis by simp
qed

text \<open>
  A run of one consumer: what it calls, and what other clients do to the server in between.  The
  set is what has been handed out and not settled since.
\<close>

inductive stream_run ::
  "sconf \<Rightarrow> 'r streams \<Rightarrow> ('r \<Rightarrow> 'r \<Rightarrow> bool) \<Rightarrow> 'r \<Rightarrow> 'r sstate \<Rightarrow> sentry set \<Rightarrow> bool"
  for C :: sconf and S :: "'r streams" and elsewhere :: "'r \<Rightarrow> 'r \<Rightarrow> bool" and r0 :: 'r
  where
    run_start: "stream_run C S elsewhere r0 (streams_init, r0) {}"
  | run_take: "\<lbrakk> stream_run C S elsewhere r0 s out; take_with C S block queues s = (x, s') \<rbrakk> \<Longrightarrow>
      stream_run C S elsewhere r0 s' (out \<union> handed x)"
  | run_ack: "\<lbrakk> stream_run C S elsewhere r0 s out; stream_ack C S h s = (x, s') \<rbrakk> \<Longrightarrow>
      stream_run C S elsewhere r0 s' (if x = Inr () then out - {as_entry C h} else out)"
  | run_release: "\<lbrakk> stream_run C S elsewhere r0 s out; stream_release C S h s = (x, s') \<rbrakk> \<Longrightarrow>
      stream_run C S elsewhere r0 s' (if x = Inr () then out - {as_entry C h} else out)"
  | run_reclaim: "\<lbrakk> stream_run C S elsewhere r0 s out; stream_reclaim C S queues s = Some (x, s') \<rbrakk> \<Longrightarrow>
      stream_run C S elsewhere r0 s' out"
  | run_publish: "\<lbrakk> stream_run C S elsewhere r0 s out; stream_publish C S ps s = (x, s') \<rbrakk> \<Longrightarrow>
      stream_run C S elsewhere r0 s' out"
  | run_elsewhere: "\<lbrakk> stream_run C S elsewhere r0 (b, r) out; elsewhere r r' \<rbrakk> \<Longrightarrow>
      stream_run C S elsewhere r0 (b, r') out"

context stream_server
begin

lemma settled_once:
  "once (b, r) \<Longrightarrow> given r \<subseteq> given r' \<Longrightarrow> sb_spare b' = sb_spare b \<Longrightarrow>
     sb_unsettled b' = (if ok then sb_unsettled b - {e} else sb_unsettled b) \<Longrightarrow> once (b', r')"
  by (auto simp: once_def spare_handles_def split: if_splits)

lemma run_once:
  assumes "stream_run C S elsewhere r0 s out" and "\<And>r r'. elsewhere r r' \<Longrightarrow> given r \<subseteq> given r'"
  shows "once s \<and> out \<subseteq> sb_unsettled (fst s)"
  using assms(1)
proof (induction rule: stream_run.induct)
  case run_start
  then show ?case by (simp add: once_def streams_init_def spare_handles_def)
next
  case (run_take s out block queues x s')
  then have "hands s (x, s')" using take_hands by (cases s) blast
  with run_take.IH show ?case by (auto simp: hands_def)
next
  case (run_ack s out h x s')
  obtain b r b' r' where s: "s = (b, r)" "s' = (b', r')" by fastforce
  have f: "given r \<subseteq> given r'" "sb_spare b' = sb_spare b" "sb_unsettled b' = (if x = Inr () then sb_unsettled b - {as_entry C h} else sb_unsettled b)"
    using ack_frame run_ack.hyps(2) unfolding s by blast+
  with run_ack.IH settled_once [OF _ f] show ?case by (auto simp: s)
next
  case (run_release s out h x s')
  obtain b r b' r' where s: "s = (b, r)" "s' = (b', r')" by fastforce
  have f: "given r \<subseteq> given r'" "sb_spare b' = sb_spare b" "sb_unsettled b' = (if x = Inr () then sb_unsettled b - {as_entry C h} else sb_unsettled b)"
    using release_frame run_release.hyps(2) unfolding s by blast+
  with run_release.IH settled_once [OF _ f] show ?case by (auto simp: s)
next
  case (run_reclaim s out queues x s')
  obtain b r b' r' where s: "s = (b, r)" "s' = (b', r')" by fastforce
  have "same_books b b' \<and> given r \<subseteq> given r'" using reclaim_frame run_reclaim.hyps(2) unfolding s by blast
  with run_reclaim.IH once_frame [of b r b' r'] show ?case by (simp add: s same_books_def)
next
  case (run_publish s out ps x s')
  obtain b r b' r' where s: "s = (b, r)" "s' = (b', r')" by fastforce
  have "same_books b b' \<and> given r \<subseteq> given r'" using publish_frame run_publish.hyps(2) unfolding s by blast
  with run_publish.IH once_frame [of b r b' r'] show ?case by (simp add: s same_books_def)
next
  case (run_elsewhere b r out r')
  with once_frame [of b r b r'] assms(2) show ?case by simp
qed

lemma run_hands_out_once:
  assumes "stream_run C S elsewhere r0 s out" and "\<And>r r'. elsewhere r r' \<Longrightarrow> given r \<subseteq> given r'"
    and "take_with C S block queues s = (Inr (Some t), s')"
  shows "tk_handle t \<notin> out"
proof -
  have o: "once s" "out \<subseteq> sb_unsettled (fst s)" using run_once [OF assms(1,2)] by simp_all
  have "hands s (Inr (Some t), s')" using take_hands assms(3) o(1) by (cases s) blast
  with o(2) show ?thesis by (auto simp: hands_def)
qed

end

section \<open>Nothing stranded\<close>

text \<open>
  \<open>mine r k\<close> are this consumer's pending entries on a stream, in the order of their ids, which
  \<open>rank\<close> gives; \<open>unreadable\<close> are the entries whose fields hold no payload, or which are gone from
  the stream.  Reading the pending list answers its first entries after the id asked from; only
  reads of new entries and claims add to it, and a refused command changes nothing.  The two
  claiming commands are taken to succeed.
\<close>

definition still :: "('r \<Rightarrow> string \<Rightarrow> stext list) \<Rightarrow> ('r \<Rightarrow> sentry \<Rightarrow> bool) \<Rightarrow> 'r \<Rightarrow> 'r \<Rightarrow> bool" where
  "still mine unreadable r r' \<longleftrightarrow>
     (\<forall>k i. i \<in> set (mine r' k) \<longrightarrow> i \<in> set (mine r k)) \<and> (\<forall>e. unreadable r e \<longrightarrow> unreadable r' e)"

locale stream_pending =
  fixes S :: "'r streams" and C :: sconf
    and mine :: "'r \<Rightarrow> string \<Rightarrow> stext list" and unreadable :: "'r \<Rightarrow> sentry \<Rightarrow> bool" and rank :: "stext \<Rightarrow> nat"
  assumes mine_sorted: "sorted_wrt (\<lambda>i j. rank i < rank j) (mine r k)"
    and mine_ids: "i \<in> set (mine r k) \<Longrightarrow> rank ZERO < rank i \<and> i \<noteq> NEW"
    and new_mine: "x_read S (sc_group C) (sc_consumer C) (new_entries keys) n blk r = (Inr reply, r') \<Longrightarrow>
        set (mine r' k) \<subseteq> set (mine r k) \<union> {i. (k, i) \<in> set (entry_ids reply)} \<and>
        (unreadable r e \<longrightarrow> unreadable r' e) \<and>
        (\<forall>(k, i, fs) \<in> set (reply_entries reply). stream_decode k i fs = None \<longrightarrow> unreadable r' (k, i))"
    and pending_mine: "\<lbrakk> x_read S (sc_group C) (sc_consumer C) [(k, cur)] n None r = (Inr reply, r'); cur \<noteq> NEW \<rbrakk> \<Longrightarrow>
        map fst (first_entries reply) = take n (filter (\<lambda>i. rank cur < rank i) (mine r' k)) \<and>
        (\<forall>(i, fs) \<in> set (first_entries reply). stream_decode k i fs = None \<longrightarrow> unreadable r' (k, i)) \<and>
        still mine unreadable r r'"
    and read_still: "x_read S (sc_group C) (sc_consumer C) rs n blk r = (Inl err, r') \<Longrightarrow> still mine unreadable r r'"
    and group_still: "x_group_create S k g r = (x1, r') \<Longrightarrow> still mine unreadable r r'"
    and info_still: "x_info_groups S k r = (x2, r') \<Longrightarrow> still mine unreadable r r'"
    and add_still: "x_add_all S k ps r = (x3, r') \<Longrightarrow> still mine unreadable r r'"
    and ack_still: "x_ack S k g i r = (x4, r') \<Longrightarrow> still mine unreadable r r' \<and> (x4 = Inr () \<longrightarrow> i \<notin> set (mine r' k))"
    and claim_up: "x_claim S k g c i idle r = (x5, r') \<Longrightarrow> x5 = Inr ()"
    and claim_mine: "x_claim S k g c i idle r = (x5, r') \<Longrightarrow>
        (k' \<noteq> k \<longrightarrow> set (mine r' k') \<subseteq> set (mine r k')) \<and> (unreadable r e \<longrightarrow> unreadable r' e)"
    and autoclaim_up: "x_autoclaim S k g c idle i r \<noteq> (Inl err, r')"
    and autoclaim_mine: "x_autoclaim S k g c idle i r = (Inr (f, n, gone), r') \<Longrightarrow>
        (k' \<noteq> k \<or> n = 0 \<longrightarrow> set (mine r' k') \<subseteq> set (mine r k')) \<and> (unreadable r e \<longrightarrow> unreadable r' e)"
begin

definition found_next :: "sbroker \<Rightarrow> sentry \<Rightarrow> bool" where
  "found_next b e \<longleftrightarrow> (\<exists>c. dget (sb_upto b) (fst e) (Some ZERO) = Some c \<and> rank c < rank (snd e))"

definition accounted :: "'r sstate \<Rightarrow> bool" where
  "accounted s \<longleftrightarrow>
     (\<forall>k. \<forall>i \<in> set (mine (snd s) k). (k, i) \<in> sb_unsettled (fst s) \<union> set (spare_handles (fst s)) \<or>
        unreadable (snd s) (k, i) \<or> found_next (fst s) (k, i)) \<and>
     (\<forall>k c. dget (sb_upto (fst s)) k (Some ZERO) = Some c \<longrightarrow> c \<noteq> NEW)"

abbreviation stays :: "'r \<Rightarrow> 'r \<Rightarrow> bool" where
  "stays \<equiv> still mine unreadable"

lemma stays_trans: "stays r r1 \<Longrightarrow> stays r1 r2 \<Longrightarrow> stays r r2"
  by (auto simp: still_def)

lemma stays_refl [simp]: "stays r r"
  by (simp add: still_def)

lemma accounted_frame:
  "accounted (b, r) \<Longrightarrow> stays r r' \<Longrightarrow> same_books b b' \<Longrightarrow> sb_upto b' = sb_upto b \<Longrightarrow> accounted (b', r')"
  unfolding accounted_def still_def same_books_def spare_handles_def found_next_def by (simp, blast)

text \<open>A stream whose cursor is at the start is accounted for whatever is pending on it.\<close>

lemma at_start: "dget (sb_upto b) k (Some ZERO) = Some ZERO \<Longrightarrow> i \<in> set (mine r k) \<Longrightarrow> found_next b (k, i)"
  using mine_ids by (auto simp: found_next_def)

lemma ZERO_NEW [simp]: "ZERO \<noteq> NEW"
  by (simp add: ZERO_def NEW_def)

lemma probe_still: "probe_server S k (b, r) = (x, b', r') \<Longrightarrow> same_books b b' \<and> sb_upto b' = sb_upto b \<and> stays r r'"
  by (auto simp: probe_server_def dest: info_still split: if_splits prod.splits sum.splits)

lemma grouping_still: "grouping C S k (b, r) = (x, b', r') \<Longrightarrow> same_books b b' \<and> sb_upto b' = sb_upto b \<and> stays r r'"
  by (auto simp: grouping_def dest: group_still dest!: probe_still intro: stays_trans split: if_splits prod.splits sum.splits)

lemma ensure_still:
  assumes "stream_ensure C S keys (b, r) = (x, b', r')"
  shows "same_books b b' \<and> sb_upto b' = sb_upto b \<and> stays r r'"
  using assms grouping_still stays_trans unfolding stream_ensure_def
  by (elim ensure_each_rel [where Q = stays, rotated 3]) auto

lemma accounted_at_start: "sb_upto b = [] \<Longrightarrow> accounted (b, r)"
  using at_start [of b] by (simp add: accounted_def dget_def)

lemma regrouped_accounted:
  assumes "accounted (b, r)" and "regrouped C S e keys (b, r) = (x, b', r')"
  shows "accounted (b', r')"
proof (cases "contains ''NOGROUP'' e")
  case True
  let ?b = "b\<lparr> sb_grouped := sb_grouped b - set keys, sb_upto := [] \<rparr>"
  obtain y where "stream_ensure C S keys (?b, r) = (y, b', r')"
    using assms(2) True by (auto simp: regrouped_def split: sum.splits prod.splits)
  then have "sb_upto b' = []" using ensure_still by fastforce
  then show ?thesis by (rule accounted_at_start)
qed (use assms in \<open>simp add: regrouped_def\<close>)

text \<open>Giving an entry up puts its stream back to the start and leaves the others alone.\<close>

lemma as_entry_of: "entry_id h = Inr i \<Longrightarrow> as_entry C h = (stream_of C h, i)"
  by (cases h) (auto simp: stream_of_def)

lemma release_accounted:
  assumes rel: "stream_release C S h (b, r) = (x, b', r')" and h: "entry_id h = Inr i"
    and others: "\<And>k j. k \<noteq> stream_of C h \<Longrightarrow> j \<in> set (mine r k) \<Longrightarrow>
      (k, j) \<in> sb_unsettled b \<union> set (spare_handles b) \<or> unreadable r (k, j) \<or> found_next b (k, j)"
    and cursors: "\<And>k c. dget (sb_upto b) k (Some ZERO) = Some c \<Longrightarrow> c \<noteq> NEW"
  shows "x = Inr () \<and> sb_spare b' = sb_spare b \<and> accounted (b', r')"
proof -
  let ?k = "stream_of C h"
  obtain y r1 where c: "x_claim S ?k (sc_group C) (sc_consumer C) i (sc_ttl C * 1000) r = (y, r1)" by fastforce
  have eqs: "x = Inr ()" "b' = give_up C h b" "r' = r1" using rel h c claim_up [OF c] by (simp_all add: stream_release_def)
  have "(k, j) \<in> sb_unsettled b' \<union> set (spare_handles b') \<or> unreadable r' (k, j) \<or> found_next b' (k, j)"
    if j: "j \<in> set (mine r' k)" for k j
  proof (cases "k = ?k")
    case True
    then show ?thesis using at_start [of b' k j r'] j by (simp add: eqs give_up_def dget_set)
  next
    case False
    then have "j \<in> set (mine r k)" "unreadable r (k, j) \<longrightarrow> unreadable r' (k, j)" using claim_mine [OF c] j eqs by auto
    with others [OF False] False show ?thesis
      by (auto simp: eqs give_up_def spare_handles_def found_next_def dget_set as_entry_of [OF h])
  qed
  moreover have "dget (sb_upto b') k (Some ZERO) = Some c \<Longrightarrow> c \<noteq> NEW" for k c
    using cursors by (auto simp: eqs give_up_def dget_set split: if_splits)
  ultimately show ?thesis using eqs by (auto simp: accounted_def give_up_def)
qed

lemma held_spares_accounted:
  "accounted (b\<lparr> sb_spare := ts \<rparr>, r) \<Longrightarrow> held_spares C S keys ts (b, r) = (x, s') \<Longrightarrow> accounted s'"
proof (induction ts arbitrary: b r)
  case Nil
  then show ?case by auto
next
  case (Cons t ts)
  show ?case
  proof (cases "tk_queue t \<in> set keys")
    case True
    then have "s' = (b\<lparr> sb_spare := ts, sb_unsettled := insert (tk_handle t) (sb_unsettled b) \<rparr>, r)" using Cons.prems(2) by simp
    then show ?thesis using Cons.prems(1) by (auto simp: accounted_def spare_handles_def found_next_def)
  next
    case False
    let ?b = "b\<lparr> sb_spare := ts \<rparr>"
    obtain y b1 r1 where rel: "stream_release C S (Entry (tk_handle t)) (?b, r) = (y, b1, r1)"
      by (cases "stream_release C S (Entry (tk_handle t)) (?b, r)") auto
    have "y = Inr () \<and> sb_spare b1 = sb_spare ?b \<and> accounted (b1, r1)"
    proof (rule release_accounted [OF rel])
      show "entry_id (Entry (tk_handle t)) = Inr (snd (tk_handle t))" by simp
      show "(k, j) \<in> sb_unsettled ?b \<union> set (spare_handles ?b) \<or> unreadable r (k, j) \<or> found_next ?b (k, j)"
        if "k \<noteq> stream_of C (Entry (tk_handle t))" "j \<in> set (mine r k)" for k j
      proof -
        have "(k, j) \<noteq> tk_handle t" using that(1) by (cases "tk_handle t") (simp add: stream_of_def)
        moreover have "(k, j) \<in> sb_unsettled b \<union> insert (tk_handle t) (tk_handle ` set ts) \<or> unreadable r (k, j) \<or> found_next ?b (k, j)"
          using Cons.prems(1) that(2) by (simp add: accounted_def spare_handles_def found_next_def)
        ultimately show ?thesis by (simp add: spare_handles_def)
      qed
      show "c \<noteq> NEW" if "dget (sb_upto ?b) k (Some ZERO) = Some c" for k c
        using Cons.prems(1) that by (simp add: accounted_def)
    qed
    then have rest: "held_spares C S keys ts (b1, r1) = (x, s')" and "sb_spare b1 = ts" "accounted (b1, r1)"
      using Cons.prems(2) False rel by auto
    then have "accounted (b1\<lparr> sb_spare := ts \<rparr>, r1)" by (auto simp: accounted_def spare_handles_def found_next_def)
    then show ?thesis using Cons.IH rest by blast
  qed
qed

lemma recover_page_accounted:
  assumes "recover_page key es b = (t, b')" and "accounted (b, r)" and "dget (sb_upto b) key (Some ZERO) = Some cur"
    and "\<forall>(i, fs) \<in> set es. (stream_decode key i fs = None \<longrightarrow> unreadable r (key, i)) \<and> rank cur < rank i \<and> i \<noteq> NEW"
    and "sorted_wrt (\<lambda>i j. rank i < rank j) (map fst es)"
    and "\<forall>i \<in> set (mine r key). rank cur < rank i \<longrightarrow> i \<in> fst ` set es \<or> (\<forall>j \<in> fst ` set es. rank j < rank i)"
  shows "accounted (b', r)"
  using assms
proof (induction key es b arbitrary: cur rule: recover_page.induct)
  case (2 key i fs es b)
  let ?b = "b\<lparr> sb_upto := dset key (Some i) (sb_upto b) \<rparr>"
  have after: "rank i < rank j \<or> j = i"
    if "j \<in> set (mine r key)" "rank cur < rank j" for j
    using "2.prems"(5,6) that by auto
  have rest: "(k, j) \<in> sb_unsettled b \<union> set (spare_handles b) \<or> unreadable r (k, j) \<or> found_next ?b (k, j)"
    if j: "j \<in> set (mine r k)" "(k, j) \<noteq> (key, i)" for k j
  proof -
    have "found_next ?b (k, j)" if "found_next b (k, j)"
      using that after [of j] j "2.prems"(3) by (auto simp: found_next_def dget_set)
    then show ?thesis using "2.prems"(2) j(1) by (auto simp: accounted_def)
  qed
  have cursors: "dget (sb_upto ?b) k (Some ZERO) = Some c \<Longrightarrow> c \<noteq> NEW" for k c
    using "2.prems"(2,4) by (auto simp: accounted_def dget_set split: if_splits)
  have next_ok: "\<forall>(j, fs) \<in> set es. (stream_decode key j fs = None \<longrightarrow> unreadable r (key, j)) \<and> rank i < rank j \<and> j \<noteq> NEW"
    using "2.prems"(4,5) by fastforce
  have next_all: "\<forall>j \<in> set (mine r key). rank i < rank j \<longrightarrow> j \<in> fst ` set es \<or> (\<forall>l \<in> fst ` set es. rank l < rank j)"
    using "2.prems"(4,6) by fastforce
  have next_sorted: "sorted_wrt (\<lambda>i j. rank i < rank j) (map fst es)" using "2.prems"(5) by simp
  have here: "dget (sb_upto ?b) key (Some ZERO) = Some i" by (simp add: dget_set)
  show ?case
  proof (cases "(key, i) \<in> sb_unsettled b \<or> stream_decode key i fs = None")
    case True
    have acc: "accounted (?b, r)"
      unfolding accounted_def
    proof (intro conjI allI ballI impI)
      fix k j assume j: "j \<in> set (mine (snd (?b, r)) k)"
      show "(k, j) \<in> sb_unsettled (fst (?b, r)) \<union> set (spare_handles (fst (?b, r))) \<or> unreadable (snd (?b, r)) (k, j) \<or> found_next (fst (?b, r)) (k, j)"
        using True rest [of j k] j "2.prems"(4) by (cases "(k, j) = (key, i)") (auto simp: spare_handles_def)
    qed (use cursors in simp)
    have "recover_page key es ?b = (t, b')" using "2.prems"(1) True by (auto simp: Let_def split: if_splits)
    then show ?thesis
      using True "2.IH"(1) [OF refl _ _ acc here next_ok next_sorted next_all] "2.IH"(2) [OF refl _ _ _ acc here next_ok next_sorted next_all]
      by blast
  next
    case False
    then obtain u where u: "stream_decode key i fs = Some u" by auto
    have h: "tk_handle u = (key, i)" using stream_decode_handle [OF u] by simp
    have b': "b' = ?b\<lparr> sb_unsettled := insert (key, i) (sb_unsettled b) \<rparr>" using "2.prems"(1) False u h by (simp add: Let_def)
    show ?thesis
      unfolding accounted_def
    proof (intro conjI allI ballI impI)
      fix k j assume j: "j \<in> set (mine (snd (b', r)) k)"
      show "(k, j) \<in> sb_unsettled (fst (b', r)) \<union> set (spare_handles (fst (b', r))) \<or> unreadable (snd (b', r)) (k, j) \<or> found_next (fst (b', r)) (k, j)"
        using rest [of j k] j by (cases "(k, j) = (key, i)") (auto simp: b' spare_handles_def found_next_def)
    qed (use cursors in \<open>simp add: b'\<close>)
  qed
qed simp

lemma take_or_later:
  assumes "sorted_wrt P xs" and "i \<in> set xs"
  shows "i \<in> set (take n xs) \<or> (\<forall>j \<in> set (take n xs). P j i)"
proof -
  have "sorted_wrt P (take n xs @ drop n xs)" using assms(1) by simp
  moreover have "i \<in> set (take n xs) \<or> i \<in> set (drop n xs)" using assms(2) by (metis Un_iff append_take_drop_id set_append)
  ultimately show ?thesis unfolding sorted_wrt_append by blast
qed

lemma recovered_accounted:
  assumes "recovered C S key (b, r) = (x, s')" and "accounted (b, r)"
  shows "accounted s'"
proof (cases "dget (sb_upto b) key (Some ZERO)")
  case None
  then show ?thesis using assms by (auto simp: recovered_def)
next
  case (Some cur)
  have cur: "cur \<noteq> NEW" using assms(2) Some by (auto simp: accounted_def)
  obtain y r1 where rd: "x_read S (sc_group C) (sc_consumer C) [(key, cur)] RECOVERY_PAGE None r = (y, r1)" by fastforce
  show ?thesis
  proof (cases y)
    case (Inl e)
    then have "s' = (b, r1)" using assms(1) Some rd by (simp add: recovered_def)
    then show ?thesis using accounted_frame [OF assms(2) read_still [OF rd [unfolded Inl]]] by simp
  next
    case (Inr page)
    let ?xs = "filter (\<lambda>i. rank cur < rank i) (mine r1 key)"
    have page: "map fst (first_entries page) = take RECOVERY_PAGE ?xs"
      "\<forall>(i, fs) \<in> set (first_entries page). stream_decode key i fs = None \<longrightarrow> unreadable r1 (key, i)" "stays r r1"
      using pending_mine [OF rd [unfolded Inr] cur] by simp_all
    have acc: "accounted (b, r1)" using accounted_frame [OF assms(2) page(3)] by simp
    have sorted: "sorted_wrt (\<lambda>i j. rank i < rank j) ?xs" using mine_sorted by (simp add: sorted_wrt_filter)
    show ?thesis
    proof (cases "first_entries page = []")
      case True
      then have "?xs = []" using page(1) by (simp add: RECOVERY_PAGE_def)
      then have none: "\<not> rank cur < rank i" if "i \<in> set (mine r1 key)" for i using that by (auto simp: filter_empty_conv)
      have "s' = (b\<lparr> sb_upto := dset key None (sb_upto b) \<rparr>, r1)" using assms(1) Some rd Inr True by (simp add: recovered_def)
      moreover have "(k, j) \<in> sb_unsettled b \<union> set (spare_handles b) \<or> unreadable r1 (k, j) \<or> k \<noteq> key \<and> found_next b (k, j)"
        if "j \<in> set (mine r1 k)" for k j
      proof -
        have "(k, j) \<in> sb_unsettled b \<union> set (spare_handles b) \<or> unreadable r1 (k, j) \<or> found_next b (k, j)"
          using acc that by (simp add: accounted_def)
        moreover have "k = key \<Longrightarrow> \<not> found_next b (k, j)" using none [of j] that Some by (simp add: found_next_def)
        ultimately show ?thesis by blast
      qed
      moreover have "dget (dset key None (sb_upto b)) k (Some ZERO) = Some c \<Longrightarrow> c \<noteq> NEW" for k c
        using acc by (auto simp: accounted_def dget_set split: if_splits)
      ultimately show ?thesis unfolding accounted_def
        by (auto simp: spare_handles_def found_next_def dget_set)
    next
      case False
      obtain t b1 where p: "recover_page key (first_entries page) b = (t, b1)" by fastforce
      have ids: "fst ` set (first_entries page) = set (take RECOVERY_PAGE ?xs)" using page(1) by (metis list.set_map)
      have later: "rank cur < rank i \<and> i \<noteq> NEW" if "(i, fs) \<in> set (first_entries page)" for i fs
      proof -
        have "i \<in> fst ` set (first_entries page)" using that by (rule image_eqI [rotated]) simp
        then have "i \<in> set ?xs" unfolding ids by (rule in_set_takeD)
        then show ?thesis using mine_ids [of i r1 key] by simp
      qed
      have "accounted (b1, r1)"
      proof (rule recover_page_accounted [OF p acc Some])
        show "sorted_wrt (\<lambda>i j. rank i < rank j) (map fst (first_entries page))" unfolding page(1)
          using sorted by (rule sorted_wrt_take)
        show "\<forall>i \<in> set (mine r1 key). rank cur < rank i \<longrightarrow> i \<in> fst ` set (first_entries page) \<or> (\<forall>j \<in> fst ` set (first_entries page). rank j < rank i)"
          unfolding ids using take_or_later [OF sorted] by simp
        show "\<forall>(i, fs) \<in> set (first_entries page). (stream_decode key i fs = None \<longrightarrow> unreadable r1 (key, i)) \<and> rank cur < rank i \<and> i \<noteq> NEW"
        proof
          fix e assume e: "e \<in> set (first_entries page)"
          obtain i fs where "e = (i, fs)" by fastforce
          with e bspec [OF page(2) e] later
          show "case e of (i, fs) \<Rightarrow> (stream_decode key i fs = None \<longrightarrow> unreadable r1 (key, i)) \<and> rank cur < rank i \<and> i \<noteq> NEW" by simp
        qed
      qed
      moreover have "s' = (b1, r1)" using assms(1) Some rd Inr False p by (simp add: recovered_def)
      ultimately show ?thesis by simp
    qed
  qed
qed

lemma recover_keys_accounted:
  "recover_keys C S keys (b, r) = (x, s') \<Longrightarrow> accounted (b, r) \<Longrightarrow> accounted s'"
proof (induction keys arbitrary: b r)
  case (Cons k keys)
  obtain y b1 r1 where k: "recovered C S k (b, r) = (y, b1, r1)" by (cases "recovered C S k (b, r)") auto
  have acc: "accounted (b1, r1)" using recovered_accounted [OF k Cons.prems(2)] .
  have "recover_keys C S keys (b1, r1) = (x, s') \<or> s' = (b1, r1)"
    using Cons.prems(1) k by (auto split: sum.splits option.splits)
  then show ?case using Cons.IH acc by blast
qed simp

lemma stream_held_accounted:
  assumes "stream_held C S keys (b, r) = (x, s')" and "accounted (b, r)"
  shows "accounted s'"
proof -
  obtain y b1 r1 where k: "held_spares C S keys (sb_spare b) (b, r) = (y, b1, r1)"
    by (cases "held_spares C S keys (sb_spare b) (b, r)") auto
  have acc: "accounted (b1, r1)" by (rule held_spares_accounted [OF _ k]) (simp add: assms(2))
  have "recover_keys C S keys (b1, r1) = (x, s') \<or> s' = (b1, r1)"
    using assms(1) k by (auto simp: stream_held_def split: sum.splits option.splits)
  then show ?thesis using recover_keys_accounted acc by blast
qed

lemma fresh_each_keeps:
  "fresh_each es first b = (t, b') \<Longrightarrow>
     sb_upto b' = sb_upto b \<and> sb_unsettled b \<subseteq> sb_unsettled b' \<and> set (spare_handles b) \<subseteq> set (spare_handles b') \<and>
     (\<forall>(k, i, fs) \<in> set es. stream_decode k i fs = None \<or> (k, i) \<in> sb_unsettled b' \<union> set (spare_handles b'))"
proof (induction es first b rule: fresh_each.induct)
  case (2 k i fs es first b)
  show ?case
  proof (cases "stream_decode k i fs")
    case None
    with 2 show ?thesis by simp
  next
    case (Some u)
    have h: "tk_handle u = (k, i)" using stream_decode_handle [OF Some] by simp
    show ?thesis
    proof (cases first)
      case None
      with Some "2.IH"(2) [of u] "2.prems" h show ?thesis by (simp add: spare_handles_def)
    next
      case (Some f)
      with \<open>stream_decode k i fs = Some u\<close> "2.IH"(3) [of u f] "2.prems" h show ?thesis by (simp add: spare_handles_def)
    qed
  qed
qed simp

lemma fresh_accounted:
  assumes "x_read S (sc_group C) (sc_consumer C) (new_entries keys) n blk r = (Inr reply, r')"
    and "fresh reply b = (t, b')" and "accounted (b, r)"
  shows "accounted (b', r')"
proof -
  note f = fresh_each_keeps [OF assms(2) [unfolded fresh_def]]
  have "(k, i) \<in> sb_unsettled b' \<union> set (spare_handles b') \<or> unreadable r' (k, i) \<or> found_next b' (k, i)"
    if "i \<in> set (mine r' k)" for k i
  proof (cases "i \<in> set (mine r k)")
    case True
    then have "(k, i) \<in> sb_unsettled b \<union> set (spare_handles b) \<or> unreadable r (k, i) \<or> found_next b (k, i)"
      using assms(3) by (simp add: accounted_def)
    then show ?thesis using f new_mine [OF assms(1), of k "(k, i)"] by (auto simp: found_next_def)
  next
    case False
    then have "(k, i) \<in> set (entry_ids reply)" using new_mine [OF assms(1), of k] that by auto
    then obtain fs where e: "(k, i, fs) \<in> set (reply_entries reply)" by (auto simp: entry_ids_def)
    have d: "stream_decode k i fs = None \<or> (k, i) \<in> sb_unsettled b' \<union> set (spare_handles b')" using f e by blast
    have "stream_decode k i fs = None \<longrightarrow> unreadable r' (k, i)" 
      using bspec [OF conjunct2 [OF conjunct2 [OF new_mine [OF assms(1), of k "(k, i)"]]] e] by simp
    with d show ?thesis by blast
  qed
  then show ?thesis using f assms(3) by (simp add: accounted_def)
qed

lemma read_new_accounted:
  assumes "read_new C S block keys (b, r) = (x, s')" and "accounted (b, r)"
  shows "accounted s'"
proof -
  obtain y r1 where rd: "x_read S (sc_group C) (sc_consumer C) (new_entries keys) 1 block r = (y, r1)" by fastforce
  show ?thesis
  proof (cases y)
    case (Inr reply)
    obtain t b1 where "fresh reply b = (t, b1)" by fastforce
    then show ?thesis using fresh_accounted [OF rd [unfolded Inr]] assms rd Inr by (auto simp: read_new_def)
  next
    case (Inl e)
    have acc: "accounted (b, r1)" using accounted_frame [OF assms(2) read_still [OF rd [unfolded Inl]]] by simp
    obtain z b2 r2 where g: "regrouped C S e keys (b, r1) = (z, b2, r2)" by (cases "regrouped C S e keys (b, r1)") auto
    have acc2: "accounted (b2, r2)" using regrouped_accounted [OF acc g] .
    obtain x3 r3 where rd3: "x_read S (sc_group C) (sc_consumer C) (new_entries keys) 1 block r2 = (x3, r3)" by fastforce
    consider "s' = (b2, r2)" | e3 where "x3 = Inl e3" "s' = (b2, r3)" | reply t b3 where "x3 = Inr reply" "fresh reply b2 = (t, b3)" "s' = (b3, r3)"
      using assms(1) rd Inl g rd3 by (auto simp: read_new_def split: sum.splits bool.splits prod.splits)
    then show ?thesis
    proof cases
      case (2 e3)
      then show ?thesis using accounted_frame [OF acc2 read_still [OF rd3 [unfolded 2(1)]]] by simp
    next
      case (3 reply t b3)
      then show ?thesis using fresh_accounted [OF rd3 [unfolded 3(1)] 3(2) acc2] by simp
    qed (use acc2 in simp)
  qed
qed

lemma take_accounted:
  assumes "take_with C S block queues (b, r) = (x, s')" and "accounted (b, r)"
  shows "accounted s'"
proof -
  obtain y b1 r1 where e: "stream_ensure C S (stream_keys C queues) (b, r) = (y, b1, r1)"
    by (cases "stream_ensure C S (stream_keys C queues) (b, r)") auto
  have acc: "accounted (b1, r1)" using ensure_still [OF e] accounted_frame [OF assms(2)] by blast
  show ?thesis
  proof (cases y)
    case (Inl z)
    then show ?thesis using assms(1) e acc by (simp add: take_with_def)
  next
    case (Inr keys)
    obtain z b2 r2 where h: "stream_held C S keys (b1, r1) = (z, b2, r2)" by (cases "stream_held C S keys (b1, r1)") auto
    have acc2: "accounted (b2, r2)" using stream_held_accounted [OF h acc] .
    have "read_new C S block keys (b2, r2) = (x, s') \<or> s' = (b2, r2)"
      using assms(1) e Inr h by (auto simp: take_with_def split: sum.splits option.splits)
    then show ?thesis using read_new_accounted acc2 by blast
  qed
qed

lemma reclaimed_accounted:
  assumes "reclaimed C S key (b, r) = Some (x, s')" and "accounted (b, r)"
  shows "accounted s' \<and> (\<exists>n. x = Inr n)"
proof -
  define Q where "Q d r r' \<longleftrightarrow> (\<forall>k j. k \<noteq> key \<or> d = 0 \<longrightarrow> j \<in> set (mine r' k) \<longrightarrow> j \<in> set (mine r k)) \<and>
    (\<forall>e. unreadable r e \<longrightarrow> unreadable r' e)" for d :: nat and r r'
  obtain y r1 where l: "autoclaim_loop C S key ZERO 0 0 r = Some (y, r1)"
    using assms(1) by (cases "autoclaim_loop C S key ZERO 0 0 r") (auto simp: reclaimed_def)
  have "\<exists>d. Q d r r1 \<and> (\<forall>n' m'. y = Inr (n', m') \<longrightarrow> n' = 0 + d)"
  proof (rule autoclaim_loop_rel [OF _ _ l])
    fix cur r x r1 assume a: "x_autoclaim S key (sc_group C) (sc_consumer C) (sc_ttl C * 1000) cur r = (x, r1)"
    obtain u where u: "x = Inr u" using autoclaim_up a by (cases x) auto
    obtain f n gone where "u = (f, n, gone)" by (cases u)
    then show "Q (case x of Inl e \<Rightarrow> 0 | Inr (f, k, g) \<Rightarrow> k) r r1" using autoclaim_mine a u unfolding Q_def by (simp, blast)
  next
    fix j k r r1 r2 assume "Q j r r1" "Q k r1 r2"
    then show "Q (j + k) r r2" unfolding Q_def by (metis add_is_0)
  qed
  then obtain d where q: "Q d r r1" "\<And>n m. y = Inr (n, m) \<Longrightarrow> n = d" by auto
  obtain n m where y: "y = Inr (n, m)" using autoclaim_loop_answers [OF l] autoclaim_up by blast
  let ?b = "if n \<noteq> 0 then b\<lparr> sb_upto := dset key (Some ZERO) (sb_upto b) \<rparr> else b"
  have s': "s' = (?b, r1)" "x = Inr n" using assms(1) l y by (auto simp: reclaimed_def split: if_splits)
  have "accounted (?b, r1)"
    unfolding accounted_def
  proof (intro conjI allI ballI impI)
    fix k j assume j: "j \<in> set (mine (snd (?b, r1)) k)"
    show "(k, j) \<in> sb_unsettled (fst (?b, r1)) \<union> set (spare_handles (fst (?b, r1))) \<or> unreadable (snd (?b, r1)) (k, j) \<or> found_next (fst (?b, r1)) (k, j)"
    proof (cases "k = key \<and> n \<noteq> 0")
      case True
      then show ?thesis using at_start [of ?b k j r1] j by (simp add: dget_set)
    next
      case False
      then have "j \<in> set (mine r k)" "unreadable r (k, j) \<longrightarrow> unreadable r1 (k, j)" using q(1) q(2) [OF y] j by (auto simp: Q_def)
      moreover have "(k, j) \<in> sb_unsettled b \<union> set (spare_handles b) \<or> unreadable r (k, j) \<or> found_next b (k, j)"
        using assms(2) calculation(1) by (simp add: accounted_def)
      ultimately show ?thesis using False by (auto simp: spare_handles_def found_next_def dget_set)
    qed
  next
    fix k c assume "dget (sb_upto (fst (?b, r1))) k (Some ZERO) = Some c"
    then show "c \<noteq> NEW" using assms(2) by (auto simp: accounted_def dget_set split: if_splits)
  qed
  then show ?thesis using s' by simp
qed

lemma recovering_each_accounted:
  "recovering_each C S keys ks n (b, r) = Some (x, s') \<Longrightarrow> accounted (b, r) \<Longrightarrow> accounted s'"
proof (induction ks arbitrary: n b r)
  case (Cons k ks)
  obtain y b1 r1 where y: "reclaimed C S k (b, r) = Some (y, b1, r1)"
    using Cons.prems(1) by (cases "reclaimed C S k (b, r)") (auto simp: recovering_def)
  have acc: "accounted (b1, r1)" "\<exists>m. y = Inr m" using reclaimed_accounted [OF y Cons.prems(2)] by simp_all
  then have "\<exists>m. recovering_each C S keys ks m (b1, r1) = Some (x, s')" using Cons.prems(1) y by (auto simp: recovering_def)
  then show ?case using Cons.IH acc(1) by blast
qed simp

lemma run_accounted:
  assumes "stream_run C S elsewhere r0 s out" and "\<And>r r'. elsewhere r r' \<Longrightarrow> stays r r'"
  shows "accounted s"
  using assms(1)
proof (induction rule: stream_run.induct)
  case run_start
  show ?case by (rule accounted_at_start) (simp add: streams_init_def)
next
  case (run_take s out block queues x s')
  then show ?case using take_accounted by (cases s) blast
next
  case (run_ack s out h x s')
  obtain b r where s: "s = (b, r)" by fastforce
  show ?case
  proof (cases "entry_id h")
    case (Inl e)
    then show ?thesis using run_ack by (simp add: stream_ack_def)
  next
    case (Inr i)
    obtain y r1 where a: "x_ack S (stream_of C h) (sc_group C) i r = (y, r1)" by fastforce
    have st: "stays r r1" "y = Inr () \<longrightarrow> i \<notin> set (mine r1 (stream_of C h))" using ack_still [OF a] by simp_all
    have acc: "accounted (b, r1)" using accounted_frame [OF run_ack.IH [unfolded s] st(1)] by simp
    show ?thesis
    proof (cases y)
      case (Inl e)
      then show ?thesis using run_ack.hyps(2) acc Inr a by (auto simp: stream_ack_def s)
    next
      case y: (Inr u)
      then have s': "s' = (b\<lparr> sb_unsettled := sb_unsettled b - {(stream_of C h, i)} \<rparr>, r1)"
        using run_ack.hyps(2) Inr a by (auto simp: stream_ack_def s as_entry_of [OF Inr])
      have gone: "j \<in> set (mine r1 k) \<Longrightarrow> (k, j) \<noteq> (stream_of C h, i)" for k j using st(2) y by auto
      show ?thesis using acc gone unfolding s' accounted_def by (auto simp: spare_handles_def found_next_def)
    qed
  qed
next
  case (run_release s out h x s')
  obtain b r b' r' where s: "s = (b, r)" "s' = (b', r')" by fastforce
  show ?case
  proof (cases "entry_id h")
    case (Inl e)
    then show ?thesis using run_release by (simp add: stream_release_def)
  next
    case (Inr i)
    have "x = Inr () \<and> sb_spare b' = sb_spare b \<and> accounted (b', r')"
      by (rule release_accounted [OF run_release.hyps(2) [unfolded s] Inr])
        (use run_release.IH in \<open>auto simp: accounted_def s\<close>)
    then show ?thesis by (simp add: s)
  qed
next
  case (run_reclaim s out queues x s')
  obtain b r where s: "s = (b, r)" by fastforce
  obtain y b1 r1 where y: "stream_ensure C S (stream_keys C queues) (b, r) = (y, b1, r1)"
    by (cases "stream_ensure C S (stream_keys C queues) (b, r)") auto
  have "accounted (b1, r1)" using ensure_still [OF y] accounted_frame run_reclaim.IH unfolding s by blast
  moreover have "s' = (b1, r1) \<or> (\<exists>keys. recovering_each C S keys keys 0 (b1, r1) = Some (x, s'))"
    using run_reclaim.hyps(2) y by (auto simp: s stream_reclaim_def split: sum.splits)
  ultimately show ?case using recovering_each_accounted by blast
next
  case (run_publish s out ps x s')
  obtain b r b' r' where s: "s = (b, r)" "s' = (b', r')" by fastforce
  have "same_books b b' \<and> sb_upto b' = sb_upto b \<and> stays r r'"
    using run_publish.hyps(2) unfolding s
    by (auto simp: stream_publish_def dest!: ensure_still add_still intro: stays_trans split: if_splits sum.splits prod.splits)
  then show ?case using accounted_frame run_publish.IH unfolding s by blast
next
  case (run_elsewhere b r out r')
  then show ?case using accounted_frame [of b r r' b] assms(2) by simp
qed

end

section \<open>A server that behaves as documented\<close>

text \<open>
  Streams over an association list: the payloads added, how many of them the group has been
  given, which are pending here and which elsewhere, and how many have been trimmed.  The ids are
  the positions, counted from one.  The locales are interpreted on it and the witnesses evaluated.
\<close>

record slog =
  sl_entries :: "bytes list"
  sl_given :: nat
  sl_mine :: "nat list"
  sl_theirs :: "nat list"
  sl_trimmed :: nat

type_synonym sstore = "(string \<times> slog) list"

definition store_log :: "sstore \<Rightarrow> string \<Rightarrow> slog" where
  "store_log st k = dget st k \<lparr> sl_entries = [], sl_given = 0, sl_mine = [], sl_theirs = [], sl_trimmed = 0 \<rparr>"

definition store_id :: "nat \<Rightarrow> stext" where
  "store_id n = InBytes (dec_nat n)"

definition store_rank :: "stext \<Rightarrow> nat" where
  "store_rank i = dec_value (plain_text i)"

definition log_pending :: "slog \<Rightarrow> nat list" where
  "log_pending l = filter (\<lambda>n. n \<in> set (sl_mine l)) [1..<Suc (sl_given l)]"

definition log_entry :: "slog \<Rightarrow> nat \<Rightarrow> stext \<times> sfields option" where
  "log_entry l n =
     (store_id n,
      if n \<le> sl_trimmed l then None else Some [(InBytes FIELD, InBytes (concat (take 1 (drop (n - 1) (sl_entries l)))))])"

definition log_new :: "nat \<Rightarrow> slog \<Rightarrow> nat list" where
  "log_new n l = [Suc (sl_given l)..<Suc (min (sl_given l + n) (length (sl_entries l)))]"

definition store_read_one :: "nat \<Rightarrow> string \<times> stext \<Rightarrow> sstore \<Rightarrow> srow \<times> sstore" where
  "store_read_one n q st =
     (let l = store_log st (fst q)
      in if snd q = NEW
         then (Row (InBytes (fst q)) (Some (map (log_entry l) (log_new n l))),
               dset (fst q) (l\<lparr> sl_given := sl_given l + length (log_new n l), sl_mine := sl_mine l @ log_new n l \<rparr>) st)
         else (Row (InBytes (fst q)) (Some (map (log_entry l) (take n (filter (\<lambda>j. store_rank (snd q) < j) (log_pending l))))), st))"

fun store_read :: "nat \<Rightarrow> (string \<times> stext) list \<Rightarrow> sstore \<Rightarrow> srow list \<times> sstore" where
  "store_read n [] st = ([], st)"
| "store_read n (q # qs) st =
     (let (row, st1) = store_read_one n q st; (rows, st2) = store_read n qs st1 in (row # rows, st2))"

definition store_streams :: "sstore streams" where
  "store_streams =
     \<lparr> x_group_create = (\<lambda>k g st. (Inr (), st)),
       x_info_groups = (\<lambda>k st. (Inr (Some [GroupRow (Some (InBytes ''django-aiogram''))
          (Some (Some (int (length (sl_entries (store_log st k))) - int (sl_given (store_log st k)))))]), st)),
       x_info_consumers = (\<lambda>k g st. (Inr (Some [Some 0]), st)),
       x_add_all = (\<lambda>k ps st. (Inr (), dset k ((store_log st k)\<lparr> sl_entries := sl_entries (store_log st k) @ ps \<rparr>) st)),
       x_read = (\<lambda>g c rs n blk st. (Inr (Some (fst (store_read n rs st))), snd (store_read n rs st))),
       x_ack = (\<lambda>k g i st. (Inr (), dset k ((store_log st k)
          \<lparr> sl_mine := removeAll (store_rank i) (sl_mine (store_log st k)),
            sl_theirs := removeAll (store_rank i) (sl_theirs (store_log st k)) \<rparr>) st)),
       x_claim = (\<lambda>k g c i idle st. (Inr (), if store_rank i \<in> set (sl_theirs (store_log st k))
          then dset k ((store_log st k)\<lparr> sl_mine := store_rank i # sl_mine (store_log st k),
                 sl_theirs := removeAll (store_rank i) (sl_theirs (store_log st k)) \<rparr>) st else st)),
       x_autoclaim = (\<lambda>k g c idle i st. (Inr (Some (InText ''0-0''), length (sl_theirs (store_log st k)), 0),
          dset k ((store_log st k)\<lparr> sl_mine := sl_theirs (store_log st k) @ sl_mine (store_log st k), sl_theirs := [] \<rparr>) st)),
       x_pending = (\<lambda>k g st. (Inr (let p = sl_mine (store_log st k) @ sl_theirs (store_log st k)
          in PendingSummary (length p) (if p = [] then None else Some (store_id (Min (set p)))) []), st)),
       x_trim = (\<lambda>k i st. (Inr (store_rank i - 1 - sl_trimmed (store_log st k)),
          dset k ((store_log st k)\<lparr> sl_trimmed := max (sl_trimmed (store_log st k)) (store_rank i - 1) \<rparr>) st)),
       x_len = (\<lambda>k st. (Inr (length (sl_entries (store_log st k)) - sl_trimmed (store_log st k)), st)),
       x_delete = (\<lambda>k st. (Inr (), ddel k st)),
       x_exec_delete = (\<lambda>k before now. if store_log before k = store_log now k then (Inr True, ddel k now) else (Inr False, now)) \<rparr>"

definition store_given :: "sstore \<Rightarrow> sentry set" where
  "store_given st = {(k, store_id n) | k n. 1 \<le> n \<and> n \<le> sl_given (store_log st k)}"

definition store_mine :: "sstore \<Rightarrow> string \<Rightarrow> stext list" where
  "store_mine st k = map store_id (log_pending (store_log st k))"

definition store_unreadable :: "sstore \<Rightarrow> sentry \<Rightarrow> bool" where
  "store_unreadable st e \<longleftrightarrow>
     store_rank (snd e) \<le> sl_trimmed (store_log st (fst e))"

lemma store_id_inj [simp]: "store_id m = store_id n \<longleftrightarrow> m = n"
  by (simp add: store_id_def dec_nat_inj)

lemma store_rank_id [simp]: "store_rank (store_id n) = n" "store_id n \<noteq> NEW" "store_rank ZERO = 0"
proof -
  show "store_rank (store_id n) = n" "store_id n \<noteq> NEW" by (simp_all add: store_rank_def store_id_def NEW_def)
  show "store_rank ZERO = 0" by code_simp
qed

lemma store_log_set [simp]: "store_log (dset k l st) k' = (if k' = k then l else store_log st k')"
  by (simp add: store_log_def dget_set)

definition log_advanced :: "nat \<Rightarrow> slog \<Rightarrow> slog" where
  "log_advanced n l = l\<lparr> sl_given := sl_given l + length (log_new n l), sl_mine := sl_mine l @ log_new n l \<rparr>"

lemma store_read_new:
  "distinct ks \<Longrightarrow> store_read n (map (\<lambda>k. (k, NEW)) ks) st = (rows, st') \<Longrightarrow>
     rows = map (\<lambda>k. Row (InBytes k) (Some (map (log_entry (store_log st k)) (log_new n (store_log st k))))) ks \<and>
     store_log st' k = (if k \<in> set ks then log_advanced n (store_log st k) else store_log st k)"
proof (induction ks arbitrary: st rows)
  case (Cons q ks)
  let ?st = "dset q (log_advanced n (store_log st q)) st"
  obtain rows' where r: "store_read n (map (\<lambda>k. (k, NEW)) ks) ?st = (rows', st')"
    and rows: "rows = Row (InBytes q) (Some (map (log_entry (store_log st q)) (log_new n (store_log st q)))) # rows'"
    using Cons.prems(2) by (auto simp: store_read_one_def Let_def log_advanced_def split: prod.splits)
  have "rows' = map (\<lambda>k. Row (InBytes k) (Some (map (log_entry (store_log st k)) (log_new n (store_log st k))))) ks"
    using Cons.IH [OF _ r] Cons.prems(1) by (auto intro!: map_cong)
  moreover have "store_log st' k = (if k \<in> set (q # ks) then log_advanced n (store_log st k) else store_log st k)"
    using Cons.IH [OF _ r] Cons.prems(1) by auto
  ultimately show ?case using rows by simp
qed simp

lemma store_reply_ids:
  "entry_ids (Some (map (\<lambda>k. Row (InBytes k) (Some (map (log_entry (L k)) (N k)))) ks)) =
     concat (map (\<lambda>k. map (\<lambda>m. (k, store_id m)) (N k)) ks)"
  by (induction ks) (simp_all add: entry_ids_def reply_entries_def by_stream_def comp_def log_entry_def)

lemma store_reply_entries:
  "reply_entries (Some (map (\<lambda>k. Row (InBytes k) (Some (map (log_entry (L k)) (N k)))) ks)) =
     concat (map (\<lambda>k. map (\<lambda>m. (k, log_entry (L k) m)) (N k)) ks)"
  by (induction ks) (simp_all add: reply_entries_def by_stream_def comp_def)

lemma distinct_ids: "distinct ks \<Longrightarrow> (\<And>k. distinct (N k)) \<Longrightarrow> distinct (concat (map (\<lambda>k. map (\<lambda>m. (k, store_id m)) (N k)) ks))"
  by (induction ks) (auto simp: distinct_map inj_on_def)

lemma log_advanced_given: "sl_given l \<le> sl_given (log_advanced n l)" "set (log_new n l) = {m. sl_given l < m \<and> m \<le> sl_given (log_advanced n l)}"
  by (auto simp: log_advanced_def log_new_def)

lemma store_given_mono: "(\<And>k. sl_given (store_log st k) \<le> sl_given (store_log st' k)) \<Longrightarrow> store_given st \<subseteq> store_given st'"
  by (auto simp: store_given_def) (meson le_trans)

lemma store_read_given: "sl_given (store_log st k) \<le> sl_given (store_log (snd (store_read n qs st)) k)"
proof (induction qs arbitrary: st)
  case (Cons q qs)
  have "sl_given (store_log st k) \<le> sl_given (store_log (snd (store_read_one n q st)) k)"
    by (auto simp: store_read_one_def Let_def)
  also have "\<dots> \<le> sl_given (store_log (snd (store_read n qs (snd (store_read_one n q st)))) k)" by (rule Cons.IH)
  finally show ?case by (simp add: Let_def case_prod_beta)
qed simp

lemma store_read_back:
  "i \<noteq> NEW \<Longrightarrow> store_read n [(k, i)] st =
     ([Row (InBytes k) (Some (map (log_entry (store_log st k)) (take n (filter (\<lambda>j. store_rank i < j) (log_pending (store_log st k))))))], st)"
  by (simp add: store_read_one_def Let_def)

lemma log_entry_unreadable:
  "stream_decode k (fst (log_entry l m)) (snd (log_entry l m)) = None \<Longrightarrow> m \<le> sl_trimmed l"
  by (auto simp: stream_decode_def log_entry_def split: if_splits)

interpretation ss: stream_server store_streams store_given
proof (unfold_locales, goal_cases)
  case (1 g c keys n blk r reply r')
  let ?ks = "fromkeys keys" and ?N = "\<lambda>k. log_new n (store_log r k)"
  obtain rows where rows: "store_read n (map (\<lambda>k. (k, NEW)) ?ks) r = (rows, r')" "reply = Some rows"
    using 1 by (auto simp: store_streams_def new_entries_def prod_eq_iff)
  have reply: "reply = Some (map (\<lambda>k. Row (InBytes k) (Some (map (log_entry (store_log r k)) (?N k)))) ?ks)"
    and log: "store_log r' k = (if k \<in> set ?ks then log_advanced n (store_log r k) else store_log r k)" for k
    using store_read_new [OF distinct_fromkeys rows(1)] rows(2) by simp_all
  have ids: "entry_ids reply = concat (map (\<lambda>k. map (\<lambda>m. (k, store_id m)) (?N k)) ?ks)" unfolding reply by (rule store_reply_ids)
  have "distinct (entry_ids reply)" unfolding ids by (rule distinct_ids) (simp_all add: distinct_fromkeys log_new_def)
  moreover have "set (entry_ids reply) \<inter> store_given r = {}"
    unfolding ids store_given_def by (auto simp: log_new_def)
  moreover have "set (entry_ids reply) \<subseteq> store_given r'"
    unfolding ids store_given_def using log log_advanced_given(2) by fastforce
  ultimately show ?case by blast
next
  case (2 g c k i n blk r reply r')
  let ?l = "store_log r k"
  have "\<exists>ms. map fst (first_entries reply) = map store_id ms \<and> (\<forall>m \<in> set ms. 1 \<le> m \<and> m \<le> sl_given (store_log r' k))"
  proof (cases "i = NEW")
    case True
    obtain rows where "store_read n (map (\<lambda>k. (k, NEW)) [k]) r = (rows, r')" "reply = Some rows"
      using 2 True by (auto simp: store_streams_def prod_eq_iff)
    then have "reply = Some [Row (InBytes k) (Some (map (log_entry ?l) (log_new n ?l)))]" "store_log r' k = log_advanced n ?l"
      using store_read_new [of "[k]"] by auto
    then show ?thesis using log_advanced_given(2) [of n ?l]
      by (intro exI [of _ "log_new n ?l"]) (auto simp: log_entry_def)
  next
    case False
    let ?ms = "take n (filter (\<lambda>j. store_rank i < j) (log_pending ?l))"
    have "reply = Some [Row (InBytes k) (Some (map (log_entry ?l) ?ms))]" "r' = r"
      using 2 store_read_back [OF False, of n k r] by (auto simp: store_streams_def)
    then show ?thesis by (intro exI [of _ ?ms]) (auto simp: log_entry_def log_pending_def dest!: in_set_takeD)
  qed
  then obtain ms where ms: "map fst (first_entries reply) = map store_id ms" "\<forall>m \<in> set ms. 1 \<le> m \<and> m \<le> sl_given (store_log r' k)" by blast
  have "(\<lambda>(j, fs). (k, j)) ` set (first_entries reply) = (\<lambda>j. (k, j)) ` set (map fst (first_entries reply))" by force
  also have "\<dots> \<subseteq> store_given r'" unfolding ms(1) store_given_def using ms(2) by auto
  finally show ?case .
next
  case (3 g c rs n blk r x1 r')
  then have "r' = snd (store_read n rs r)" by (simp add: store_streams_def)
  then show ?case using store_read_given by (intro store_given_mono) simp
qed (auto simp: store_streams_def intro!: store_given_mono split: if_splits)

lemma store_mine_iff: "i \<in> set (store_mine st k) \<longleftrightarrow>
    (\<exists>n. i = store_id n \<and> 1 \<le> n \<and> n \<le> sl_given (store_log st k) \<and> n \<in> set (sl_mine (store_log st k)))"
  by (auto simp: store_mine_def log_pending_def)

lemma store_stays:
  assumes "\<And>k. sl_given (store_log st' k) \<le> sl_given (store_log st k) \<and> set (sl_mine (store_log st' k)) \<subseteq> set (sl_mine (store_log st k)) \<and>
    sl_trimmed (store_log st k) \<le> sl_trimmed (store_log st' k)"
  shows "still store_mine store_unreadable st st'"
  unfolding still_def
proof (intro conjI allI impI)
  fix k i assume "i \<in> set (store_mine st' k)"
  then show "i \<in> set (store_mine st k)" using assms [of k] by (auto simp: store_mine_iff)
next
  fix e assume "store_unreadable st e"
  then show "store_unreadable st' e" using assms [of "fst e"] by (auto simp: store_unreadable_def)
qed

interpretation sp: stream_pending store_streams C store_mine store_unreadable store_rank for C
proof (unfold_locales, goal_cases)
  case (1 r k)
  have "sorted_wrt (<) (log_pending l)" for l unfolding log_pending_def by (rule sorted_wrt_filter) (simp del: upt_Suc)
  then show ?case by (simp add: store_mine_def sorted_wrt_map)
next
  case (2 i r k)
  then show ?case by (auto simp: store_mine_iff)
next
  case (3 keys n blk r reply r' k e)
  let ?ks = "fromkeys keys" and ?N = "\<lambda>k. log_new n (store_log r k)"
  obtain rows where rows: "store_read n (map (\<lambda>k. (k, NEW)) ?ks) r = (rows, r')" "reply = Some rows"
    using 3 by (auto simp: store_streams_def new_entries_def prod_eq_iff)
  have reply: "reply = Some (map (\<lambda>k. Row (InBytes k) (Some (map (log_entry (store_log r k)) (?N k)))) ?ks)"
    and log: "store_log r' k = (if k \<in> set ?ks then log_advanced n (store_log r k) else store_log r k)" for k
    using store_read_new [OF distinct_fromkeys rows(1)] rows(2) by simp_all
  have ids: "entry_ids reply = concat (map (\<lambda>k. map (\<lambda>m. (k, store_id m)) (?N k)) ?ks)" unfolding reply by (rule store_reply_ids)
  have es: "reply_entries reply = concat (map (\<lambda>k. map (\<lambda>m. (k, log_entry (store_log r k) m)) (?N k)) ?ks)"
    unfolding reply by (rule store_reply_entries)
  have "set (store_mine r' k) \<subseteq> set (store_mine r k) \<union> {i. (k, i) \<in> set (entry_ids reply)}"
  proof
    fix i assume "i \<in> set (store_mine r' k)"
    then obtain m where m: "i = store_id m" "1 \<le> m" "m \<le> sl_given (store_log r' k)" "m \<in> set (sl_mine (store_log r' k))"
      by (auto simp: store_mine_iff)
    show "i \<in> set (store_mine r k) \<union> {i. (k, i) \<in> set (entry_ids reply)}"
    proof (cases "k \<in> set ?ks \<and> m \<in> set (?N k)")
      case True
      then show ?thesis by (auto simp: ids m(1))
    next
      case False
      then have "m \<in> set (sl_mine (store_log r k)) \<and> m \<le> sl_given (store_log r k)"
        using m(3,4) log [of k] log_advanced_given(2) [of n "store_log r k"] by (auto simp: log_advanced_def split: if_splits)
      then show ?thesis using m(1,2) by (auto simp: store_mine_iff)
    qed
  qed
  moreover have "sl_trimmed (store_log r' k) = sl_trimmed (store_log r k)" for k using log [of k] by (simp add: log_advanced_def)
  moreover have "\<forall>(k, i, fs) \<in> set (reply_entries reply). stream_decode k i fs = None \<longrightarrow> store_unreadable r' (k, i)"
    unfolding es using calculation(2)
    by (auto simp: store_unreadable_def log_entry_def stream_decode_def FIELD_def split: if_splits)
  ultimately show ?case by (simp add: store_unreadable_def)
next
  case (4 k cur n r reply r')
  let ?ms = "take n (filter (\<lambda>j. store_rank cur < j) (log_pending (store_log r k)))"
  have eq: "reply = Some [Row (InBytes k) (Some (map (log_entry (store_log r k)) ?ms))]" "r' = r"
    using 4 store_read_back [OF 4(2), of n k r] by (auto simp: store_streams_def)
  have "map fst (first_entries reply) = take n (filter (\<lambda>i. store_rank cur < store_rank i) (store_mine r' k))"
    by (simp add: eq store_mine_def filter_map comp_def take_map log_entry_def)
  moreover have "\<forall>(i, fs) \<in> set (first_entries reply). stream_decode k i fs = None \<longrightarrow> store_unreadable r' (k, i)"
    using log_entry_unreadable [of k "store_log r k"] by (force simp: eq store_unreadable_def log_entry_def)
  ultimately show ?case by (simp add: eq still_def)
next
  case (9 k g i r x4 r')
  then show ?case
    by (auto simp: store_streams_def store_mine_iff intro!: store_stays split: if_splits)
next
  case (11 k g c i idle r x5 r' k' e)
  then show ?case by (auto simp: store_streams_def store_mine_iff store_unreadable_def split: if_splits)
next
  case (13 k g c idle i r f n gone r' k' e)
  then show ?case by (auto simp: store_streams_def store_mine_iff store_unreadable_def split: if_splits)
qed (auto simp: store_streams_def intro!: store_stays split: if_splits)

section \<open>Properties\<close>


definition demo_stream :: sconf where
  "demo_stream = \<lparr> sc_key = ''tg'', sc_group = ''django-aiogram'', sc_consumer = ''w1'', sc_ttl = 90 \<rparr>"

definition demo_published :: "sstore sstate" where
  "demo_published = snd (stream_publish demo_stream store_streams [''a'', ''b''] (streams_init, []))"

definition demo_taken :: "sstore sstate" where
  "demo_taken = snd (take_with demo_stream store_streams None NoQueues demo_published)"

lemma demo_first: "fst (take_with demo_stream store_streams None NoQueues demo_published) =
    Inr (Some \<lparr> tk_payload = ''a'', tk_handle = (''tg'', InBytes ''1''), tk_queue = ''tg'' \<rparr>)"
  by code_simp

lemma demo_second: "fst (take_with demo_stream store_streams None NoQueues demo_taken) =
    Inr (Some \<lparr> tk_payload = ''b'', tk_handle = (''tg'', InBytes ''2''), tk_queue = ''tg'' \<rparr>)"
  by code_simp

lemma demo_stream_run: "stream_run demo_stream store_streams (=) [] demo_taken {(''tg'', InBytes ''1'')}"
proof -
  have "stream_run demo_stream store_streams (=) [] demo_published {}"
    unfolding demo_published_def by (rule run_publish [OF run_start]) (rule prod.collapse [symmetric])
  then have "stream_run demo_stream store_streams (=) [] demo_taken ({} \<union> handed (fst (take_with demo_stream store_streams None NoQueues demo_published)))"
    unfolding demo_taken_def by (rule run_take) (rule prod.collapse [symmetric])
  then show ?thesis by (simp add: demo_first)
qed






text \<open>
  C17. A group deleted elsewhere is created again only by the read of new entries.  Where the cursor of
  a stream is armed, the read of the pending list comes first, and its error leaves the broker as
  it was: while the server goes on answering that the group is gone, every take fails the same way
  and the group is never created again.
\<close>

theorem armed_cursor_never_regroups:
  assumes "sc_key C \<in> sb_grouped b" and "sb_spare b = []" and "dget (sb_upto b) (sc_key C) (Some ZERO) = Some cur"
    and "x_read S (sc_group C) (sc_consumer C) [(sc_key C, cur)] RECOVERY_PAGE None r = (Inl e, r)"
  shows "take_with C S block NoQueues (b, r) = (Inl (ServerSaid e), b, r)"
proof -
  have "b\<lparr> sb_spare := [] \<rparr> = b" using assms(2) by simp
  then show ?thesis using assms
    by (simp add: take_with_def stream_ensure_def stream_keys_def stream_held_def recovered_def)
qed

definition gone_streams :: "unit streams" where
  "gone_streams =
     \<lparr> x_group_create = (\<lambda>k g st. (Inr (), st)), x_info_groups = (\<lambda>k st. (Inr None, st)), x_info_consumers = (\<lambda>k g st. (Inr None, st)),
       x_add_all = (\<lambda>k ps st. (Inr (), st)), x_read = (\<lambda>g c rs n blk st. (Inl ''NOGROUP No such key'', st)),
       x_ack = (\<lambda>k g i st. (Inr (), st)), x_claim = (\<lambda>k g c i idle st. (Inr (), st)),
       x_autoclaim = (\<lambda>k g c idle i st. (Inr (None, 0, 0), st)), x_pending = (\<lambda>k g st. (Inr (PendingOther 0), st)),
       x_trim = (\<lambda>k i st. (Inr 0, st)), x_len = (\<lambda>k st. (Inr 0, st)), x_delete = (\<lambda>k st. (Inr (), st)),
       x_exec_delete = (\<lambda>k before now. (Inr True, now)) \<rparr>"

theorem armed_cursor_never_regroups_witness:
  "contains ''NOGROUP'' ''NOGROUP No such key'' \<and>
   take_with demo_stream gone_streams None NoQueues (streams_init\<lparr> sb_grouped := {''tg''} \<rparr>, ()) =
     (Inl (ServerSaid ''NOGROUP No such key''), streams_init\<lparr> sb_grouped := {''tg''} \<rparr>, ())"
proof -
  have "contains ''NOGROUP'' ''NOGROUP No such key''" by code_simp
  moreover have "take_with demo_stream gone_streams None NoQueues (streams_init\<lparr> sb_grouped := {''tg''} \<rparr>, ()) =
     (Inl (ServerSaid ''NOGROUP No such key''), streams_init\<lparr> sb_grouped := {''tg''} \<rparr>, ())"
    by (rule armed_cursor_never_regroups [where cur = ZERO])
      (simp_all add: demo_stream_def streams_init_def gone_streams_def dget_def)
  ultimately show ?thesis by blast
qed

text \<open>
  A stream that ever carried a message is never removed under \<open>if_empty\<close>: the length counts what
  was acknowledged, so with nothing waiting and nothing pending the answer is still that it holds
  something.
\<close>

definition demo_settled :: "sstore sstate" where
  "demo_settled =
     snd (stream_ack demo_stream store_streams (Entry (''tg'', InBytes ''1''))
       (snd (take_with demo_stream store_streams None NoQueues
         (snd (stream_publish demo_stream store_streams [''a''] (streams_init, []))))))"

theorem used_stream_is_never_empty:
  "stream_depth demo_stream store_streams (snd demo_settled) = Inr 0 \<and>
   stream_inflight_depth demo_stream store_streams None (snd demo_settled) = Inr 0 \<and>
   fst (stream_discard demo_stream store_streams id True demo_settled) = Inr False"
proof -
  have "stream_depth demo_stream store_streams (snd demo_settled) = Inr 0"
    "stream_inflight_depth demo_stream store_streams None (snd demo_settled) = Inr 0"
    "fst (stream_discard demo_stream store_streams id True demo_settled) = Inr False" by code_simp+
  then show ?thesis by blast
qed

end
