(* ===== verification/RabbitBroker.thy ===== *)
theory RabbitBroker
  imports BrokerBase Producing
begin

text \<open>
  The RabbitMQ transport, \<open>broker/rabbitmq/broker.py\<close> and \<open>broker/rabbitmq/client.py\<close>: one channel per
  thread, a number for each channel opened in the process, and handles that pair that number with
  the tag the channel gave a delivery.  The driver and the server behind it are an argument,
  \<open>amqp\<close>, with a state of their own; every call may raise.  The options arrive resolved.
\<close>

section \<open>The driver, the threads and the broker\<close>

type_synonym identity = "string \<times> int \<times> rat"

text \<open>Channels are named by their number, the next one being proposed to \<open>am_open\<close>.\<close>

record 'r amqp =
  am_open :: "nat \<Rightarrow> identity \<Rightarrow> 'r \<Rightarrow> (exn + unit) \<times> 'r"
  am_is_open :: "nat \<Rightarrow> 'r \<Rightarrow> bool"
  am_close :: "nat \<Rightarrow> 'r \<Rightarrow> 'r"
  am_declare :: "nat \<Rightarrow> string \<Rightarrow> 'r \<Rightarrow> (exn + unit) \<times> 'r"
  am_count :: "nat \<Rightarrow> string \<Rightarrow> 'r \<Rightarrow> (exn + nat) \<times> 'r"
  am_delete :: "nat \<Rightarrow> string \<Rightarrow> 'r \<Rightarrow> (exn + unit) \<times> 'r"
  am_publish :: "nat \<Rightarrow> string \<Rightarrow> bytes \<Rightarrow> 'r \<Rightarrow> (exn + unit) \<times> 'r"
  am_next :: "nat \<Rightarrow> string \<Rightarrow> rat \<Rightarrow> 'r \<Rightarrow> (exn + (nat \<times> bytes) option) \<times> 'r"
  am_cancel_all :: "nat \<Rightarrow> 'r \<Rightarrow> (exn + unit) \<times> 'r"
  am_get :: "nat \<Rightarrow> string \<Rightarrow> 'r \<Rightarrow> (exn + (nat \<times> bytes) option) \<times> 'r"
  am_subscribe :: "nat \<Rightarrow> string \<Rightarrow> 'r \<Rightarrow> (exn + string) \<times> 'r"
  am_cancel :: "nat \<Rightarrow> string \<Rightarrow> 'r \<Rightarrow> (exn + unit) \<times> 'r"
  am_events :: "nat \<Rightarrow> rat \<Rightarrow> 'r \<Rightarrow> (exn + unit) \<times> (string \<times> nat \<times> bytes) list \<times> 'r"
  am_ack :: "nat \<Rightarrow> nat \<Rightarrow> 'r \<Rightarrow> (exn + unit) \<times> 'r"
  am_nack :: "nat \<Rightarrow> nat \<Rightarrow> 'r \<Rightarrow> (exn + unit) \<times> 'r"

text \<open>
  What one thread keeps: its connection with the identity it was opened under, the number of the
  last channel it opened, and \<open>_PerThread\<close>.  A delivery in \<open>th_delivered\<close> carries, for the
  statements below only, the channel it arrived on.
\<close>

record rthread =
  th_local :: "(identity \<times> nat) option"
  th_count :: nat
  th_consumer :: "(rat \<times> nat) option"
  th_subscribed :: "string list"
  th_subscribed_channel :: "nat option"
  th_tags :: "(string \<times> string) list"
  th_delivered :: "(string \<times> (nat \<times> nat) \<times> bytes) list"
  th_declared :: "string list"
  th_declared_on :: nat
  th_generation :: "nat option"

definition new_thread :: rthread where
  "new_thread = \<lparr> th_local = None, th_count = 0, th_consumer = None, th_subscribed = [], th_subscribed_channel = None, th_tags = [],
     th_delivered = [], th_declared = [], th_declared_on = 0, th_generation = None \<rparr>"

text \<open>
  The state a call finds: its thread, what the threads share, and two records of what passed
  between the broker and the driver, the deliveries received (channel and tag) and the settling
  commands sent.
\<close>

record 'r rabbit =
  rb_server :: 'r
  rb_mine :: rthread
  rb_unsettled :: "(nat \<times> nat) list"
  rb_serving :: "string list"
  rb_channels :: nat
  rb_received :: "(nat \<times> nat) list"
  rb_sent :: "(nat \<times> nat) list"

record rabbit_conf =
  rc_url :: string
  rc_prefetch :: int
  rc_deadline :: rat
  rc_queue :: string

datatype rabbit_error = Driver exn | ImproperlyConfigured | QueueRefused string string | HandleTypeError string | WorkerDepthUnavailable string

type_synonym ('r, 'a) call = "'r rabbit \<Rightarrow> (rabbit_error + 'a) \<times> 'r rabbit"

definition return :: "'a \<Rightarrow> ('r, 'a) call" where
  "return a s = (Inr a, s)"

definition raise :: "rabbit_error \<Rightarrow> ('r, 'a) call" where
  "raise e s = (Inl e, s)"

definition bind_call :: "('r, 'a) call \<Rightarrow> ('a \<Rightarrow> ('r, 'b) call) \<Rightarrow> ('r, 'b) call" where
  "bind_call m k s = (case m s of (Inl e, s') \<Rightarrow> (Inl e, s') | (Inr a, s') \<Rightarrow> k a s')"

definition modify :: "('r rabbit \<Rightarrow> 'r rabbit) \<Rightarrow> ('r, unit) call" where
  "modify f s = (Inr (), f s)"

definition drive :: "('r \<Rightarrow> (exn + 'a) \<times> 'r) \<Rightarrow> ('r, 'a) call" where
  "drive f s =
     (case f (rb_server s) of
        (Inl e, r) \<Rightarrow> (Inl (Driver e), s\<lparr> rb_server := r \<rparr>)
      | (Inr a, r) \<Rightarrow> (Inr a, s\<lparr> rb_server := r \<rparr>))"

definition mine :: "(rthread \<Rightarrow> rthread) \<Rightarrow> 'r rabbit \<Rightarrow> 'r rabbit" where
  "mine f s = s\<lparr> rb_mine := f (rb_mine s) \<rparr>"

section \<open>Channels\<close>

definition drop_this_threads_connection :: "'r amqp \<Rightarrow> 'r rabbit \<Rightarrow> 'r rabbit" where
  "drop_this_threads_connection A s =
     (case th_local (rb_mine s) of
        None \<Rightarrow> s
      | Some (_, g) \<Rightarrow> mine (\<lambda>t. t\<lparr> th_local := None \<rparr>) (s\<lparr> rb_server := am_close A g (rb_server s) \<rparr>))"

definition open_channel :: "'r amqp \<Rightarrow> identity \<Rightarrow> ('r, nat) call" where
  "open_channel A identity s =
     (let n = rb_channels s
      in case am_open A n identity (rb_server s) of
           (Inl e, r) \<Rightarrow> (Inl (Driver e), s\<lparr> rb_server := r \<rparr>)
         | (Inr _, r) \<Rightarrow>
             (Inr n, mine (\<lambda>t. t\<lparr> th_count := n, th_local := Some (identity, n) \<rparr>) (s\<lparr> rb_server := r, rb_channels := Suc n \<rparr>)))"

definition channel_for_thread :: "'r amqp \<Rightarrow> identity \<Rightarrow> ('r, nat) call" where
  "channel_for_thread A identity s =
     (case th_local (rb_mine s) of
        Some (i, g) \<Rightarrow>
          if i = identity \<and> am_is_open A g (rb_server s) then (Inr g, s)
          else if fst identity = [] then (Inl ImproperlyConfigured, s)
          else open_channel A identity (drop_this_threads_connection A s)
      | None \<Rightarrow> if fst identity = [] then (Inl ImproperlyConfigured, s) else open_channel A identity s)"

text \<open>\<open>_notice_a_new_channel\<close>, in the order of its parts.\<close>

definition forget_consumer :: "nat \<Rightarrow> rthread \<Rightarrow> rthread" where
  "forget_consumer g t =
     (case th_consumer t of Some (_, c) \<Rightarrow> if c \<noteq> g then t\<lparr> th_consumer := None \<rparr> else t | None \<Rightarrow> t)"

definition forget_subscriptions :: "nat \<Rightarrow> rthread \<Rightarrow> rthread" where
  "forget_subscriptions g t =
     (case th_subscribed_channel t of
        Some c \<Rightarrow>
          if c \<noteq> g then t\<lparr> th_subscribed := [], th_subscribed_channel := None, th_tags := [], th_delivered := [] \<rparr> else t
      | None \<Rightarrow> t)"

definition forget_declared :: "rthread \<Rightarrow> rthread" where
  "forget_declared t = (if th_declared t \<noteq> [] \<and> th_count t \<noteq> th_declared_on t then t\<lparr> th_declared := [] \<rparr> else t)"

definition notice_a_new_channel :: "nat \<Rightarrow> 'r rabbit \<Rightarrow> 'r rabbit" where
  "notice_a_new_channel g s0 =
     (let s = mine (forget_declared \<circ> forget_subscriptions g \<circ> forget_consumer g) s0;
          current = th_count (rb_mine s)
      in mine (\<lambda>t. t\<lparr> th_generation := Some current \<rparr>)
           (case th_generation (rb_mine s) of
              Some old \<Rightarrow> if old \<noteq> current then s\<lparr> rb_unsettled := filter (\<lambda>h. fst h \<noteq> old) (rb_unsettled s) \<rparr> else s
            | None \<Rightarrow> s))"

fun declare_queues :: "'r amqp \<Rightarrow> nat \<Rightarrow> string list \<Rightarrow> ('r, unit) call" where
  "declare_queues A g [] s = (Inr (), s)"
| "declare_queues A g (q # qs) s =
     (if q \<in> set (th_declared (rb_mine s)) then declare_queues A g qs s
      else bind_call (drive (am_declare A g q)) (\<lambda>_.
           bind_call (modify (mine (\<lambda>t. t\<lparr> th_declared := th_declared t @ [q], th_declared_on := th_count t \<rparr>))) (\<lambda>_.
           declare_queues A g qs)) s)"

definition channel :: "'r amqp \<Rightarrow> rabbit_conf \<Rightarrow> string list \<Rightarrow> ('r, nat) call" where
  "channel A C queues =
     bind_call (channel_for_thread A (rc_url C, rc_prefetch C, rc_deadline C)) (\<lambda>g.
     bind_call (modify (notice_a_new_channel g)) (\<lambda>_.
     bind_call (declare_queues A g (if queues \<noteq> [] then fromkeys queues else [rc_queue C])) (\<lambda>_.
     return g)))"

definition queues_of :: "rabbit_conf \<Rightarrow> queue_arg \<Rightarrow> string list" where
  "queues_of C queues = (if named_queues queues \<noteq> [] then named_queues queues else [rc_queue C])"

section \<open>Publishing\<close>

fun publish_each :: "'r amqp \<Rightarrow> nat \<Rightarrow> string \<Rightarrow> bytes list \<Rightarrow> ('r, unit) call" where
  "publish_each A g queue [] s = (Inr (), s)"
| "publish_each A g queue (p # ps) s =
     (case drive (am_publish A g queue p) s of
        (Inl (Driver (name, said)), s') \<Rightarrow>
          (Inl (if name \<in> {''NackError'', ''UnroutableError''} then QueueRefused queue name else Driver (name, said)), s')
      | (Inl e, s') \<Rightarrow> (Inl e, s')
      | (Inr _, s') \<Rightarrow> publish_each A g queue ps s')"

definition rabbit_publish :: "'r amqp \<Rightarrow> rabbit_conf \<Rightarrow> bytes list \<Rightarrow> ('r, unit) call" where
  "rabbit_publish A C payloads =
     (if payloads = [] then return ()
      else bind_call (channel A C []) (\<lambda>g. publish_each A g (rc_queue C) payloads))"

section \<open>Taking\<close>

definition received :: "nat \<Rightarrow> nat list \<Rightarrow> 'r rabbit \<Rightarrow> 'r rabbit" where
  "received g tags s = s\<lparr> rb_received := rb_received s @ map (Pair g) tags \<rparr>"

definition issued :: "nat \<Rightarrow> bytes \<Rightarrow> string \<Rightarrow> ('r, (nat \<times> nat) taken option) call" where
  "issued tag body queue s =
     (let handle = (th_count (rb_mine s), tag)
      in (Inr (Some \<lparr> tk_payload = body, tk_handle = handle, tk_queue = queue \<rparr>),
          s\<lparr> rb_unsettled := List.insert handle (rb_unsettled s) \<rparr>))"

definition cancel_consumer :: "'r amqp \<Rightarrow> nat \<Rightarrow> ('r, unit) call" where
  "cancel_consumer A g s =
     (if th_consumer (rb_mine s) = None then (Inr (), s)
      else drive (am_cancel_all A g) (mine (\<lambda>t. t\<lparr> th_consumer := None \<rparr>) s))"

definition give_back :: "'r amqp \<Rightarrow> nat \<Rightarrow> nat \<Rightarrow> 'r rabbit \<Rightarrow> 'r rabbit" where
  "give_back A g tag s = s\<lparr> rb_server := snd (am_nack A g tag (rb_server s)), rb_sent := rb_sent s @ [(g, tag)] \<rparr>"

fun sift :: "'r amqp \<Rightarrow> nat \<Rightarrow> string list \<Rightarrow> (string \<times> (nat \<times> nat) \<times> bytes) list \<Rightarrow> (string \<times> (nat \<times> nat) \<times> bytes) list
    \<Rightarrow> (string \<times> (nat \<times> nat) \<times> bytes) option \<Rightarrow> 'r rabbit \<Rightarrow> (string \<times> (nat \<times> nat) \<times> bytes) option \<times> 'r rabbit" where
  "sift A g queues [] kept first s = (first, mine (\<lambda>t. t\<lparr> th_delivered := kept \<rparr>) s)"
| "sift A g queues (d # ds) kept first s =
     (if fst d \<notin> set queues then sift A g queues ds kept first (give_back A g (snd (fst (snd d))) s)
      else if first = None then sift A g queues ds kept (Some d) s
      else sift A g queues ds (kept @ [d]) first s)"

definition buffered :: "'r amqp \<Rightarrow> nat \<Rightarrow> string list \<Rightarrow> ('r, (nat \<times> nat) taken option) call" where
  "buffered A g queues s =
     (case sift A g queues (th_delivered (rb_mine s)) [] None s of
        (None, s') \<Rightarrow> (Inr None, s')
      | (Some (queue, (_, tag), body), s') \<Rightarrow> issued tag body queue s')"

fun cancel_each :: "'r amqp \<Rightarrow> nat \<Rightarrow> string list \<Rightarrow> ('r, unit) call" where
  "cancel_each A g [] s = (Inr (), s)"
| "cancel_each A g (q # qs) s =
     (let tag = dget (th_tags (rb_mine s)) q [];
          s1 = mine (\<lambda>t. t\<lparr> th_tags := ddel q (th_tags t) \<rparr>) s
      in if tag = [] then cancel_each A g qs s1
         else bind_call (drive (am_cancel A g tag)) (\<lambda>_. cancel_each A g qs) s1)"

fun register_each :: "'r amqp \<Rightarrow> nat \<Rightarrow> string list \<Rightarrow> ('r, unit) call" where
  "register_each A g [] s = (Inr (), s)"
| "register_each A g (q # qs) s =
     (if dhas (th_tags (rb_mine s)) q then register_each A g qs s
      else bind_call (drive (am_subscribe A g q)) (\<lambda>tag.
           bind_call (modify (mine (\<lambda>t. t\<lparr> th_tags := dset q tag (th_tags t) \<rparr>))) (\<lambda>_.
           register_each A g qs)) s)"

definition subscribe :: "'r amqp \<Rightarrow> nat \<Rightarrow> string list \<Rightarrow> ('r, unit) call" where
  "subscribe A g queues s =
     (if th_subscribed (rb_mine s) = queues then (Inr (), s)
      else bind_call (cancel_each A g (filter (\<lambda>q. q \<notin> set queues) (th_subscribed (rb_mine s)))) (\<lambda>_.
           bind_call (register_each A g queues) (\<lambda>_.
           modify (mine (\<lambda>t. t\<lparr> th_subscribed := queues, th_subscribed_channel := Some g \<rparr>)))) s)"

fun cancel_tags :: "'r amqp \<Rightarrow> nat \<Rightarrow> string list \<Rightarrow> ('r, unit) call" where
  "cancel_tags A g [] s = (Inr (), s)"
| "cancel_tags A g (tag # tags) s = bind_call (drive (am_cancel A g tag)) (\<lambda>_. cancel_tags A g tags) s"

definition unsubscribe :: "'r amqp \<Rightarrow> nat \<Rightarrow> ('r, unit) call" where
  "unsubscribe A g s =
     (if th_subscribed (rb_mine s) = [] then (Inr (), s)
      else bind_call (modify (mine (\<lambda>t. t\<lparr> th_subscribed := [], th_subscribed_channel := None \<rparr>))) (\<lambda>_.
           bind_call (cancel_tags A g (map snd (th_tags (rb_mine s)))) (\<lambda>_.
           modify (mine (\<lambda>t. t\<lparr> th_tags := [] \<rparr>)))) s)"

text \<open>Giving the connection its turn: the callbacks file what arrives, also when it ends in an exception.\<close>

definition process_data_events :: "'r amqp \<Rightarrow> nat \<Rightarrow> rat \<Rightarrow> ('r, unit) call" where
  "process_data_events A g limit s =
     (case am_events A g limit (rb_server s) of
        (res, arrived, r) \<Rightarrow>
          (case res of Inl e \<Rightarrow> Inl (Driver e) | Inr _ \<Rightarrow> Inr (),
           mine (\<lambda>t. t\<lparr> th_delivered := th_delivered t @ map (\<lambda>(q, tag, body). (q, (g, tag), body)) arrived \<rparr>)
             (received g (map (\<lambda>(q, tag, body). tag) arrived) (s\<lparr> rb_server := r \<rparr>))))"

definition multiplexed :: "'r amqp \<Rightarrow> rabbit_conf \<Rightarrow> rat \<Rightarrow> string list \<Rightarrow> ('r, (nat \<times> nat) taken option) call" where
  "multiplexed A C timeout queues =
     bind_call (modify (\<lambda>s. s\<lparr> rb_serving := queues \<rparr>)) (\<lambda>_.
     bind_call (channel A C queues) (\<lambda>g.
     bind_call (cancel_consumer A g) (\<lambda>_.
     bind_call (subscribe A g queues) (\<lambda>_.
     bind_call (buffered A g queues) (\<lambda>held.
       if held \<noteq> None then return held
       else bind_call (process_data_events A g (max (1 / 1000) timeout)) (\<lambda>_. buffered A g queues))))))"

definition delivery :: "nat \<Rightarrow> string \<Rightarrow> (nat \<times> bytes) option \<Rightarrow> ('r, (nat \<times> nat) taken option) call" where
  "delivery g queue d =
     (case d of
        None \<Rightarrow> return None
      | Some (tag, body) \<Rightarrow> bind_call (modify (received g [tag])) (\<lambda>_. issued tag body queue))"

definition rabbit_take :: "'r amqp \<Rightarrow> rabbit_conf \<Rightarrow> rat \<Rightarrow> queue_arg \<Rightarrow> ('r, (nat \<times> nat) taken option) call" where
  "rabbit_take A C timeout queues s =
     (if queues \<noteq> NoQueues \<or> th_subscribed (rb_mine s) \<noteq> [] then multiplexed A C timeout (queues_of C queues) s
      else bind_call (modify (\<lambda>s. s\<lparr> rb_serving := [rc_queue C] \<rparr>)) (\<lambda>_.
           bind_call (channel A C []) (\<lambda>g.
           bind_call (\<lambda>s. if (case th_consumer (rb_mine s) of Some (t, _) \<Rightarrow> t = timeout | None \<Rightarrow> False) then (Inr (), s)
                          else bind_call (cancel_consumer A g) (\<lambda>_. modify (mine (\<lambda>t. t\<lparr> th_consumer := Some (timeout, g) \<rparr>))) s) (\<lambda>_.
           bind_call (drive (am_next A g (rc_queue C) (max (1 / 1000) timeout))) (\<lambda>d.
           delivery g [] d)))) s)"

fun get_each :: "'r amqp \<Rightarrow> nat \<Rightarrow> string list \<Rightarrow> ('r, (nat \<times> nat) taken option) call" where
  "get_each A g [] s = (Inr None, s)"
| "get_each A g (q # qs) s =
     bind_call (drive (am_get A g q)) (\<lambda>d.
     bind_call (delivery g q d) (\<lambda>t. if t \<noteq> None then return t else get_each A g qs)) s"

definition rabbit_take_nowait :: "'r amqp \<Rightarrow> rabbit_conf \<Rightarrow> queue_arg \<Rightarrow> ('r, (nat \<times> nat) taken option) call" where
  "rabbit_take_nowait A C queues =
     (let asked = queues_of C queues
      in bind_call (modify (\<lambda>s. s\<lparr> rb_serving := asked \<rparr>)) (\<lambda>_.
         bind_call (channel A C asked) (\<lambda>g.
         bind_call (cancel_consumer A g) (\<lambda>_.
         bind_call (buffered A g asked) (\<lambda>held.
           if held \<noteq> None then return held
           else bind_call (unsubscribe A g) (\<lambda>_. get_each A g asked))))))"

section \<open>Settling and the rest\<close>

datatype rhandle = ChannelTag nat nat | ForeignHandle string

fun rabbit_position :: "rhandle \<Rightarrow> ('r, nat \<times> nat) call" where
  "rabbit_position (ChannelTag g tag) = return (g, tag)"
| "rabbit_position (ForeignHandle type_said) = raise (HandleTypeError type_said)"

definition discard_handle :: "nat \<times> nat \<Rightarrow> 'r rabbit \<Rightarrow> 'r rabbit" where
  "discard_handle h s = s\<lparr> rb_unsettled := filter (\<lambda>k. k \<noteq> h) (rb_unsettled s) \<rparr>"

definition rabbit_settleable :: "rhandle \<Rightarrow> ('r, nat option) call" where
  "rabbit_settleable handle =
     bind_call (rabbit_position handle) (\<lambda>h s.
       if fst h \<noteq> th_count (rb_mine s) then (Inr None, discard_handle h s) else (Inr (Some (snd h)), s))"

definition settle_with :: "('r amqp \<Rightarrow> nat \<Rightarrow> nat \<Rightarrow> 'r \<Rightarrow> (exn + unit) \<times> 'r) \<Rightarrow> 'r amqp \<Rightarrow> rabbit_conf \<Rightarrow> rhandle \<Rightarrow> ('r, unit) call" where
  "settle_with command A C handle =
     bind_call (channel A C []) (\<lambda>g.
     bind_call (rabbit_settleable handle) (\<lambda>tag.
       case tag of
         None \<Rightarrow> return ()
       | Some t \<Rightarrow>
           bind_call (modify (\<lambda>s. s\<lparr> rb_sent := rb_sent s @ [(g, t)] \<rparr>)) (\<lambda>_.
           bind_call (drive (command A g t)) (\<lambda>_.
           bind_call (rabbit_position handle) (\<lambda>h. modify (discard_handle h))))))"

definition rabbit_ack :: "'r amqp \<Rightarrow> rabbit_conf \<Rightarrow> rhandle \<Rightarrow> ('r, unit) call" where
  "rabbit_ack = settle_with am_ack"

definition rabbit_release :: "'r amqp \<Rightarrow> rabbit_conf \<Rightarrow> rhandle \<Rightarrow> ('r, unit) call" where
  "rabbit_release = settle_with am_nack"

definition rabbit_discard :: "'r amqp \<Rightarrow> rabbit_conf \<Rightarrow> bool \<Rightarrow> ('r, bool) call" where
  "rabbit_discard A C if_empty =
     (if if_empty then return False
      else bind_call (channel A C []) (\<lambda>g. bind_call (drive (am_delete A g (rc_queue C))) (\<lambda>_. return True)))"

definition rabbit_reclaim :: "queue_arg \<Rightarrow> nat option" where
  "rabbit_reclaim queues = None"

definition rabbit_depth :: "'r amqp \<Rightarrow> rabbit_conf \<Rightarrow> ('r, nat) call" where
  "rabbit_depth A C = bind_call (channel A C []) (\<lambda>g. drive (am_count A g (rc_queue C)))"

definition rabbit_inflight_depth :: "string option \<Rightarrow> ('r, nat) call" where
  "rabbit_inflight_depth worker s =
     (case worker of Some w \<Rightarrow> (Inl (WorkerDepthUnavailable w), s) | None \<Rightarrow> (Inr (length (rb_unsettled s)), s))"

section \<open>Threads\<close>

text \<open>
  A call on one thread of several; the threads share the broker, and whatever happens between two
  calls on the server, a connection dropped or closed included, is a change of its state.
\<close>

definition on_thread :: "nat \<Rightarrow> ('r, 'a) call \<Rightarrow> (nat \<Rightarrow> rthread) \<times> 'r rabbit \<Rightarrow> (rabbit_error + 'a) \<times> (nat \<Rightarrow> rthread) \<times> 'r rabbit" where
  "on_thread i m w =
     (case m ((snd w)\<lparr> rb_mine := fst w i \<rparr>) of (r, s) \<Rightarrow> (r, (fst w)(i := rb_mine s), s))"

definition rabbit_init :: "'r \<Rightarrow> (nat \<Rightarrow> rthread) \<times> 'r rabbit" where
  "rabbit_init r = ((\<lambda>_. new_thread),
     \<lparr> rb_server = r, rb_mine = new_thread, rb_unsettled = [], rb_serving = [], rb_channels = 1, rb_received = [], rb_sent = [] \<rparr>)"

definition handed_out :: "rabbit_error + (nat \<times> nat) taken option \<Rightarrow> (nat \<times> nat) list" where
  "handed_out r = (case r of Inr (Some t) \<Rightarrow> [tk_handle t] | _ \<Rightarrow> [])"

inductive rabbit_run :: "'r amqp \<Rightarrow> rabbit_conf \<Rightarrow> (nat \<times> nat) list \<Rightarrow> (nat \<Rightarrow> rthread) \<times> 'r rabbit \<Rightarrow> bool" for A C where
  starts: "rabbit_run A C [] (rabbit_init r)"
| publishes: "rabbit_run A C hs w \<Longrightarrow> on_thread i (rabbit_publish A C payloads) w = (res, w') \<Longrightarrow> rabbit_run A C hs w'"
| takes: "rabbit_run A C hs w \<Longrightarrow> on_thread i (rabbit_take A C timeout queues) w = (res, w') \<Longrightarrow> rabbit_run A C (hs @ handed_out res) w'"
| drains: "rabbit_run A C hs w \<Longrightarrow> on_thread i (rabbit_take_nowait A C queues) w = (res, w') \<Longrightarrow> rabbit_run A C (hs @ handed_out res) w'"
| acks: "rabbit_run A C hs w \<Longrightarrow> (g, tag) \<in> set hs \<Longrightarrow> on_thread i (rabbit_ack A C (ChannelTag g tag)) w = (res, w') \<Longrightarrow> rabbit_run A C hs w'"
| releases: "rabbit_run A C hs w \<Longrightarrow> (g, tag) \<in> set hs \<Longrightarrow> on_thread i (rabbit_release A C (ChannelTag g tag)) w = (res, w') \<Longrightarrow> rabbit_run A C hs w'"
| discards: "rabbit_run A C hs w \<Longrightarrow> on_thread i (rabbit_discard A C if_empty) w = (res2, w') \<Longrightarrow> rabbit_run A C hs w'"
| asks: "rabbit_run A C hs w \<Longrightarrow> on_thread i (rabbit_depth A C) w = (res3, w') \<Longrightarrow> rabbit_run A C hs w'"
| closes: "rabbit_run A C hs w \<Longrightarrow> on_thread i (modify (drop_this_threads_connection A)) w = (res, w') \<Longrightarrow> rabbit_run A C hs w'"
| server: "rabbit_run A C hs w \<Longrightarrow> rabbit_run A C hs (fst w, (snd w)\<lparr> rb_server := r \<rparr>)"

section \<open>Properties\<close>

fun local_ok :: "(identity \<times> nat) option \<Rightarrow> nat \<Rightarrow> bool" where
  "local_ok None n = True"
| "local_ok (Some (_, g)) n = (g = n)"

definition thread_ok :: "(nat \<times> nat) set \<Rightarrow> rthread \<Rightarrow> bool" where
  "thread_ok X t \<longleftrightarrow>
     local_ok (th_local t) (th_count t) \<and>
     (th_subscribed t \<noteq> [] \<longrightarrow> th_subscribed_channel t \<noteq> None) \<and>
     (\<forall>d \<in> set (th_delivered t). fst (snd d) \<in> X \<and> th_subscribed_channel t = Some (fst (fst (snd d))))"

definition shared_ok :: "(nat \<times> nat) set \<Rightarrow> 'r rabbit \<Rightarrow> bool" where
  "shared_ok R s \<longleftrightarrow> R \<subseteq> set (rb_received s) \<and> set (rb_unsettled s) \<subseteq> set (rb_received s) \<and> set (rb_sent s) \<subseteq> set (rb_received s)"

definition good :: "(nat \<times> nat) set \<Rightarrow> 'r rabbit \<Rightarrow> bool" where
  "good R s \<longleftrightarrow> shared_ok R s \<and> thread_ok (set (rb_received s)) (rb_mine s)"

definition at_channel :: "(nat \<times> nat) set \<Rightarrow> nat \<Rightarrow> 'r rabbit \<Rightarrow> bool" where
  "at_channel R g s \<longleftrightarrow> good R s \<and> th_count (rb_mine s) = g \<and> th_subscribed_channel (rb_mine s) \<in> {None, Some g}"

text \<open>A call that keeps the state good, and leads from one condition to another where it returns.\<close>

definition holds :: "(nat \<times> nat) set \<Rightarrow> ('r rabbit \<Rightarrow> bool) \<Rightarrow> ('r, 'a) call \<Rightarrow> ('a \<Rightarrow> 'r rabbit \<Rightarrow> bool) \<Rightarrow> bool" where
  "holds R P m Q \<longleftrightarrow> (\<forall>s. P s \<longrightarrow> (case m s of (Inl e, s') \<Rightarrow> good R s' | (Inr a, s') \<Rightarrow> Q a s'))"

named_theorems rabbit_specs

lemma holds_bind:
  assumes "holds R P m Q" "\<And>a. holds R (Q a) (k a) S"
  shows "holds R P (bind_call m k) S"
  using assms by (fastforce simp: holds_def bind_call_def split: prod.splits sum.splits)

lemma holds_return: "(\<And>s. P s \<Longrightarrow> Q a s) \<Longrightarrow> holds R P (return a) Q"
  by (simp add: holds_def return_def)

lemma holds_modify: "(\<And>s. P s \<Longrightarrow> Q () (f s)) \<Longrightarrow> holds R P (modify f) Q"
  by (simp add: holds_def modify_def)

lemma holds_weaken: "holds R P' m Q' \<Longrightarrow> (\<And>s. P s \<Longrightarrow> P' s) \<Longrightarrow> (\<And>a s. Q' a s \<Longrightarrow> Q a s) \<Longrightarrow> holds R P m Q"
  by (fastforce simp: holds_def split: prod.splits sum.splits)

lemma good_server [simp]: "good R (s\<lparr> rb_server := r \<rparr>) = good R s"
  by (simp add: good_def shared_ok_def)

lemma at_channel_server [simp]: "at_channel R g (s\<lparr> rb_server := r \<rparr>) = at_channel R g s"
  by (simp add: at_channel_def)

lemma at_channel_good: "at_channel R g s \<Longrightarrow> good R s"
  by (simp add: at_channel_def)

lemma holds_drive:
  assumes "\<And>s r. P s \<Longrightarrow> P (s\<lparr> rb_server := r \<rparr>)" "\<And>s. P s \<Longrightarrow> good R s"
  shows "holds R P (drive f) (\<lambda>_. P)"
  using assms by (fastforce simp: holds_def drive_def split: prod.splits sum.splits)

lemma drive_at [rabbit_specs]: "holds R (at_channel R g) (drive f) (\<lambda>_. at_channel R g)"
  by (rule holds_drive) (simp_all add: at_channel_good)

lemma at_modify: "(\<And>s. at_channel R g s \<Longrightarrow> at_channel R g (f s)) \<Longrightarrow> holds R (at_channel R g) (modify f) (\<lambda>_. at_channel R g)"
  by (rule holds_modify)

lemmas at_bind = holds_bind [where P = "at_channel R g" and Q = "\<lambda>_. at_channel R g" for R g]

text \<open>Changes to a thread that leave alone what the conditions speak of.\<close>

lemma mine_irrelevant [simp]:
  "at_channel R g (mine (\<lambda>t. t\<lparr> th_consumer := c t \<rparr>) s) = at_channel R g s"
  "at_channel R g (mine (\<lambda>t. t\<lparr> th_tags := tg t \<rparr>) s) = at_channel R g s"
  "at_channel R g (mine (\<lambda>t. t\<lparr> th_declared := d t, th_declared_on := n t \<rparr>) s) = at_channel R g s"
  "at_channel R g (s\<lparr> rb_serving := q \<rparr>) = at_channel R g s" "good R (s\<lparr> rb_serving := q \<rparr>) = good R s"
  by (simp_all add: at_channel_def good_def shared_ok_def thread_ok_def mine_def)

lemma drop_connection_good: "good R s \<Longrightarrow> good R (drop_this_threads_connection A s)"
  by (auto simp: drop_this_threads_connection_def good_def shared_ok_def thread_ok_def mine_def split: option.splits)

lemma open_channel_spec: "holds R (good R) (open_channel A i) (\<lambda>g s. good R s \<and> th_count (rb_mine s) = g)"
  by (auto simp: holds_def open_channel_def good_def shared_ok_def thread_ok_def mine_def Let_def split: prod.splits sum.splits)

lemma channel_for_thread_spec: "holds R (good R) (channel_for_thread A i) (\<lambda>g s. good R s \<and> th_count (rb_mine s) = g)"
proof -
  have opened: "good R s \<Longrightarrow> case open_channel A i s of (Inl e, s') \<Rightarrow> good R s' | (Inr g, s') \<Rightarrow> good R s' \<and> th_count (rb_mine s') = g"
    for s :: "'a rabbit" using open_channel_spec [of R A i] by (simp add: holds_def)
  have local: "good R s \<Longrightarrow> th_local (rb_mine s) = Some (j, g) \<Longrightarrow> th_count (rb_mine s) = g" for s :: "'a rabbit" and j g
    by (auto simp: good_def thread_ok_def)
  show ?thesis
    unfolding holds_def channel_for_thread_def
    using opened drop_connection_good [of R _ A] local by (auto split: option.splits if_splits)
qed

lemma notice_spec: "good R s \<Longrightarrow> th_count (rb_mine s) = g \<Longrightarrow> at_channel R g (notice_a_new_channel g s)"
proof -
  assume s: "good R s" "th_count (rb_mine s) = g"
  define t where "t = (forget_declared \<circ> forget_subscriptions g \<circ> forget_consumer g) (rb_mine s)"
  have parts: "th_local t = th_local (rb_mine s)" "th_count t = g" "th_subscribed_channel t \<in> {None, Some g}"
    "th_subscribed t \<noteq> [] \<Longrightarrow> th_subscribed t = th_subscribed (rb_mine s) \<and> th_subscribed_channel t = th_subscribed_channel (rb_mine s)"
    "th_delivered t = [] \<or> th_delivered t = th_delivered (rb_mine s) \<and> th_subscribed_channel t = th_subscribed_channel (rb_mine s)"
    using s(2) by (auto simp: t_def forget_declared_def forget_subscriptions_def forget_consumer_def split: option.splits)
  then have "thread_ok (set (rb_received s)) t" using s by (auto simp: good_def thread_ok_def)
  with parts s(1) show ?thesis
    unfolding notice_a_new_channel_def mine_def Let_def t_def [symmetric]
    by (auto simp: at_channel_def good_def shared_ok_def thread_ok_def split: option.splits)
qed

lemma declare_queues_spec: "holds R (at_channel R g) (declare_queues A g qs) (\<lambda>_. at_channel R g)"
proof (induction qs)
  case (Cons q qs)
  have "holds R (at_channel R g) (bind_call (drive (am_declare A g q)) (\<lambda>_.
           bind_call (modify (mine (\<lambda>t. t\<lparr> th_declared := th_declared t @ [q], th_declared_on := th_count t \<rparr>))) (\<lambda>_.
           declare_queues A g qs))) (\<lambda>_. at_channel R g)"
    by (intro at_bind drive_at at_modify Cons.IH) simp
  with Cons.IH show ?case by (simp add: holds_def)
qed (simp add: holds_def)

lemma channel_spec [rabbit_specs]: "holds R (good R) (channel A C qs) (at_channel R)"
  unfolding channel_def
  by (rule holds_bind [OF channel_for_thread_spec], rule holds_bind [OF holds_modify [where Q = "\<lambda>_. at_channel R g" for g]])
    (auto intro: notice_spec holds_bind [OF declare_queues_spec] holds_return)

lemma at_choose:
  assumes "holds R (at_channel R g) m Q" "\<And>s. at_channel R g s \<Longrightarrow> Q () s"
  shows "holds R (at_channel R g) (\<lambda>s. if b s then (Inr (), s) else m s) Q"
  using assms by (simp add: holds_def)

lemma cancel_consumer_spec [rabbit_specs]: "holds R (at_channel R g) (cancel_consumer A g) (\<lambda>_. at_channel R g)"
  using drive_at [of R g "am_cancel_all A g"] by (simp add: holds_def cancel_consumer_def)

lemma cancel_each_spec: "holds R (at_channel R g) (cancel_each A g qs) (\<lambda>_. at_channel R g)"
proof (induction qs)
  case (Cons q qs)
  have "holds R (at_channel R g) (bind_call (drive (am_cancel A g tag)) (\<lambda>_. cancel_each A g qs)) (\<lambda>_. at_channel R g)" for tag
    by (intro at_bind drive_at Cons.IH)
  with Cons.IH show ?case by (simp add: holds_def Let_def)
qed (simp add: holds_def)

lemma register_each_spec: "holds R (at_channel R g) (register_each A g qs) (\<lambda>_. at_channel R g)"
proof (induction qs)
  case (Cons q qs)
  have "holds R (at_channel R g) (bind_call (drive (am_subscribe A g q)) (\<lambda>tag.
           bind_call (modify (mine (\<lambda>t. t\<lparr> th_tags := dset q tag (th_tags t) \<rparr>))) (\<lambda>_.
           register_each A g qs))) (\<lambda>_. at_channel R g)"
    by (intro at_bind drive_at at_modify Cons.IH) simp
  with Cons.IH show ?case by (simp add: holds_def)
qed (simp add: holds_def)

lemma subscribe_spec:
  assumes "queues \<noteq> []"
  shows "holds R (at_channel R g) (subscribe A g queues) (\<lambda>_ s. at_channel R g s \<and> th_subscribed_channel (rb_mine s) = Some g)"
proof -
  have moved: "holds R (at_channel R g) (bind_call (cancel_each A g gone) (\<lambda>_. bind_call (register_each A g queues) (\<lambda>_.
      modify (mine (\<lambda>t. t\<lparr> th_subscribed := queues, th_subscribed_channel := Some g \<rparr>)))))
      (\<lambda>_ s. at_channel R g s \<and> th_subscribed_channel (rb_mine s) = Some g)" for gone
    by (intro at_bind cancel_each_spec register_each_spec holds_modify)
      (auto simp: at_channel_def good_def shared_ok_def thread_ok_def mine_def)
  have kept: "at_channel R g s \<Longrightarrow> th_subscribed (rb_mine s) = queues \<Longrightarrow> th_subscribed_channel (rb_mine s) = Some g" for s :: "'a rabbit"
    using assms by (auto simp: at_channel_def good_def thread_ok_def)
  show ?thesis
    using moved kept by (auto simp: holds_def subscribe_def)
qed

text \<open>What a read answers is a handle that was received.\<close>

definition answers :: "(nat \<times> nat) set \<Rightarrow> (nat \<times> nat) taken option \<Rightarrow> 'r rabbit \<Rightarrow> bool" where
  "answers R r s \<longleftrightarrow> good R s \<and> (\<forall>t. r = Some t \<longrightarrow> tk_handle t \<in> set (rb_received s))"

definition filed :: "nat \<Rightarrow> 'r rabbit \<Rightarrow> (string \<times> (nat \<times> nat) \<times> bytes) list \<Rightarrow> bool" where
  "filed g s ds \<longleftrightarrow> (\<forall>d \<in> set ds. fst (snd d) \<in> set (rb_received s) \<and> fst (fst (snd d)) = g)"

lemma filed_simps [simp]:
  "filed g s []" "filed g s (d # ds) = (fst (snd d) \<in> set (rb_received s) \<and> fst (fst (snd d)) = g \<and> filed g s ds)"
  "filed g s (ds @ es) = (filed g s ds \<and> filed g s es)" "filed g (mine f s) ds = filed g s ds" "filed g (give_back A g tag s) ds = filed g s ds"
  by (auto simp: filed_def mine_def give_back_def)

definition sifting :: "(nat \<times> nat) set \<Rightarrow> nat \<Rightarrow> 'r rabbit \<Rightarrow> bool" where
  "sifting R g s \<longleftrightarrow> shared_ok R s \<and> thread_ok (set (rb_received s)) ((rb_mine s)\<lparr> th_delivered := [] \<rparr>) \<and> th_count (rb_mine s) = g \<and>
     th_subscribed_channel (rb_mine s) = Some g"

lemma give_back_received [simp]: "rb_received (give_back A g tag s) = rb_received s"
  by (simp add: give_back_def)

lemma sifting_give_back: "sifting R g s \<Longrightarrow> (g, tag) \<in> set (rb_received s) \<Longrightarrow> sifting R g (give_back A g tag s)"
  by (simp add: sifting_def give_back_def shared_ok_def)

lemma sifting_ends:
  assumes "sifting R g s" "filed g s kept"
  shows "at_channel R g (mine (\<lambda>t. t\<lparr> th_delivered := kept \<rparr>) s)"
  using assms unfolding sifting_def at_channel_def good_def thread_ok_def filed_def mine_def by (elim conjE) (simp add: shared_ok_def)

lemma sift_spec:
  assumes "sifting R g s" "filed g s ds" "filed g s kept" "first = None \<longrightarrow> kept = []" "first \<noteq> None \<longrightarrow> filed g s [the first]"
    and "sift A g queues ds kept first s = (r, s')"
  shows "at_channel R g s' \<and> (r = None \<longrightarrow> th_delivered (rb_mine s') = []) \<and> (r \<noteq> None \<longrightarrow> filed g s' [the r])"
  using assms
proof (induction ds arbitrary: kept first s)
  case Nil
  then have "r = first" "s' = mine (\<lambda>t. t\<lparr> th_delivered := kept \<rparr>) s" by simp_all
  with Nil sifting_ends [of R g s kept] show ?case by (simp add: mine_def [of _ s])
next
  case (Cons d ds)
  show ?case
  proof (cases "fst d \<in> set queues")
    case False
    from Cons.prems(2) have "(g, snd (fst (snd d))) \<in> set (rb_received s)" by (cases d) auto
    note given = sifting_give_back [OF Cons.prems(1) this, of A]
    show ?thesis by (rule Cons.IH [OF given, of kept first]) (use Cons.prems False in simp_all)
  next
    case asked: True
    show ?thesis
    proof (cases "first = None")
      case True
      show ?thesis by (rule Cons.IH [OF Cons.prems(1), of kept "Some d"]) (use Cons.prems asked True in simp_all)
    next
      case False
      show ?thesis by (rule Cons.IH [OF Cons.prems(1), of "kept @ [d]" first]) (use Cons.prems asked False in simp_all)
    qed
  qed
qed

lemma buffered_spec:
  "holds R (at_channel R g) (buffered A g queues)
     (\<lambda>r s. answers R r s \<and> at_channel R g s \<and> (r = None \<longrightarrow> th_delivered (rb_mine s) = []))"
proof -
  have "case buffered A g queues s of (Inl e, s') \<Rightarrow> good R s' | (Inr r, s') \<Rightarrow>
      answers R r s' \<and> at_channel R g s' \<and> (r = None \<longrightarrow> th_delivered (rb_mine s') = [])" if at: "at_channel R g s" for s
  proof (cases "th_delivered (rb_mine s) = []")
    case True
    with at have "mine (\<lambda>t. t\<lparr> th_delivered := [] \<rparr>) s = s" by (simp add: mine_def)
    with True at show ?thesis by (simp add: buffered_def answers_def at_channel_def)
  next
    case False
    then obtain d0 where d0: "d0 \<in> set (th_delivered (rb_mine s))" by (meson last_in_set)
    with at have channel: "th_subscribed_channel (rb_mine s) = Some g"
      by (auto simp: at_channel_def good_def thread_ok_def)
    with at have pre: "sifting R g s" "filed g s (th_delivered (rb_mine s))"
      by (auto simp: at_channel_def good_def thread_ok_def sifting_def filed_def)
    obtain r s' where run: "sift A g queues (th_delivered (rb_mine s)) [] None s = (r, s')" by fastforce
    note got = sift_spec [OF pre _ _ _ run, simplified]
    show ?thesis
    proof (cases r)
      case None
      with run got show ?thesis by (simp add: buffered_def answers_def at_channel_def)
    next
      case (Some d)
      obtain q g' tag body where d: "d = (q, (g', tag), body)" by (cases d) auto
      from Some got have "at_channel R g s'" and handle: "(g, tag) \<in> set (rb_received s')" "g' = g" by (auto simp: d)
      then show ?thesis using run Some d
        by (auto simp: buffered_def issued_def Let_def answers_def at_channel_def good_def shared_ok_def)
    qed
  qed
  then show ?thesis by (simp add: holds_def)
qed

lemma received_at [simp]:
  assumes "at_channel R g s" shows "at_channel R g (received g tags s)"
proof -
  have "set (rb_received s) \<subseteq> set (rb_received (received g tags s))" by (auto simp: received_def)
  with assms show ?thesis
    by (auto simp: at_channel_def good_def shared_ok_def thread_ok_def received_def)
qed

lemma delivery_spec: "holds R (at_channel R g) (delivery g q d) (\<lambda>r s. answers R r s \<and> at_channel R g s \<and> (r = None \<longrightarrow> d = None))"
proof (cases d)
  case (Some p)
  obtain tag body where "p = (tag, body)" by fastforce
  with Some show ?thesis
    using received_at [of R g _ "[tag]"]
    by (auto simp: holds_def delivery_def bind_call_def modify_def issued_def Let_def answers_def at_channel_def good_def shared_ok_def
        received_def)
qed (auto simp: delivery_def answers_def at_channel_def intro!: holds_return)

lemma process_data_events_spec:
  "holds R (\<lambda>s. at_channel R g s \<and> th_subscribed_channel (rb_mine s) = Some g) (process_data_events A g limit) (\<lambda>_. at_channel R g)"
proof -
  have "at_channel R g (mine (\<lambda>t. t\<lparr> th_delivered := th_delivered t @ map (\<lambda>(q, tag, body). (q, (g, tag), body)) arrived \<rparr>)
      (received g (map (\<lambda>(q, tag, body). tag) arrived) (s\<lparr> rb_server := r \<rparr>)))"
    if s: "at_channel R g s" "th_subscribed_channel (rb_mine s) = Some g" for s :: "'a rabbit" and arrived r
  proof -
    have "\<forall>d \<in> set (map (\<lambda>(q, tag, body). (q, (g, tag), body)) arrived).
        fst (snd d) \<in> set (map (Pair g) (map (\<lambda>(q, tag, body). tag) arrived)) \<and> fst (fst (snd d)) = g"
      by (force simp: image_iff)
    moreover have "at_channel R g (received g (map (\<lambda>(q, tag, body). tag) arrived) (s\<lparr> rb_server := r \<rparr>))" using s by simp
    ultimately show ?thesis
      using s(2) by (auto simp: at_channel_def good_def shared_ok_def thread_ok_def mine_def received_def)
  qed
  then show ?thesis
    by (fastforce simp: holds_def process_data_events_def at_channel_def split: prod.splits sum.splits)
qed

lemma cancel_tags_spec: "holds R (at_channel R g) (cancel_tags A g tags) (\<lambda>_. at_channel R g)"
proof (induction tags)
  case (Cons tag tags)
  have "holds R (at_channel R g) (bind_call (drive (am_cancel A g tag)) (\<lambda>_. cancel_tags A g tags)) (\<lambda>_. at_channel R g)"
    by (intro at_bind drive_at Cons.IH)
  then show ?case by (simp add: holds_def)
qed (simp add: holds_def)

lemma unsubscribe_spec:
  "holds R (\<lambda>s. at_channel R g s \<and> th_delivered (rb_mine s) = []) (unsubscribe A g) (\<lambda>_. at_channel R g)"
proof -
  have "holds R (at_channel R g) (bind_call (cancel_tags A g tags) (\<lambda>_. modify (mine (\<lambda>t. t\<lparr> th_tags := [] \<rparr>)))) (\<lambda>_. at_channel R g)" for tags
    by (intro at_bind cancel_tags_spec at_modify) simp
  moreover have "at_channel R g (mine (\<lambda>t. t\<lparr> th_subscribed := [], th_subscribed_channel := None \<rparr>) s)"
    if "at_channel R g s" "th_delivered (rb_mine s) = []" for s :: "'a rabbit"
    using that by (auto simp: at_channel_def good_def shared_ok_def thread_ok_def mine_def)
  ultimately show ?thesis
    by (auto simp: holds_def unsubscribe_def bind_call_def modify_def split: prod.splits sum.splits)
qed

text \<open>The calls of the contract.\<close>

lemma serving_spec: "holds R (good R) (modify (\<lambda>s. s\<lparr> rb_serving := queues \<rparr>)) (\<lambda>_. good R)"
  by (rule holds_modify) simp

lemma answers_nothing: "at_channel R g s \<Longrightarrow> answers R None s"
  by (simp add: answers_def at_channel_def)

lemma answers_buffered:
  "holds R (at_channel R g) (buffered A g queues) (answers R)"
  "holds R (at_channel R g) (delivery g q d) (answers R)"
  by (rule holds_weaken [OF buffered_spec] holds_weaken [OF delivery_spec]; simp)+

lemma sift_channel: "th_subscribed_channel (rb_mine (snd (sift A g queues ds kept first s))) = th_subscribed_channel (rb_mine s)"
  by (induction ds arbitrary: kept first s) (simp_all add: mine_def give_back_def)

lemma buffered_channel: "th_subscribed_channel (rb_mine (snd (buffered A g queues s))) = th_subscribed_channel (rb_mine s)"
  using sift_channel [of A g queues "th_delivered (rb_mine s)" "[]" None s]
  by (auto simp: buffered_def issued_def Let_def split: prod.splits option.splits)

lemma multiplexed_spec:
  assumes "queues \<noteq> []"
  shows "holds R (good R) (multiplexed A C timeout queues) (answers R)"
proof -
  have rest: "holds R (at_channel R g) (bind_call (subscribe A g queues) (\<lambda>_. bind_call (buffered A g queues) (\<lambda>held.
      if held \<noteq> None then return held
      else bind_call (process_data_events A g (max (1 / 1000) timeout)) (\<lambda>_. buffered A g queues)))) (answers R)" for g
  proof (rule holds_bind [OF subscribe_spec [OF assms]])
    let ?reading = "\<lambda>s :: 'a rabbit. at_channel R g s \<and> th_subscribed_channel (rb_mine s) = Some g"
    have "holds R (\<lambda>s. answers R held s \<and> ?reading s)
        (if held \<noteq> None then return held else bind_call (process_data_events A g (max (1 / 1000) timeout)) (\<lambda>_. buffered A g queues)) (answers R)" for held
    proof (cases held)
      case None
      have "holds R ?reading (bind_call (process_data_events A g (max (1 / 1000) timeout)) (\<lambda>_. buffered A g queues)) (answers R)"
        by (rule holds_bind [OF process_data_events_spec answers_buffered(1)])
      with None show ?thesis by (simp add: holds_def)
    qed (auto intro: holds_return)
    moreover have "holds R ?reading (buffered A g queues) (\<lambda>held s. answers R held s \<and> ?reading s)"
      unfolding holds_def
    proof (intro allI impI)
      fix s assume s: "?reading s"
      obtain r s' where run: "buffered A g queues s = (r, s')" by fastforce
      have "case (r, s') of (Inl e, s') \<Rightarrow> good R s' | (Inr r, s') \<Rightarrow> answers R r s' \<and> at_channel R g s'"
        using buffered_spec [of R g A queues] s run unfolding holds_def by (cases r) (metis (no_types, lifting) case_prod_conv sum.case)+
      with buffered_channel [of A g queues s] s run
      show "case buffered A g queues s of (Inl e, s') \<Rightarrow> good R s' | (Inr r, s') \<Rightarrow> answers R r s' \<and> ?reading s'"
        by (cases r) simp_all
    qed
    ultimately show "holds R (\<lambda>s. at_channel R g s \<and> th_subscribed_channel (rb_mine s) = Some g) (bind_call (buffered A g queues) (\<lambda>held.
        if held \<noteq> None then return held
        else bind_call (process_data_events A g (max (1 / 1000) timeout)) (\<lambda>_. buffered A g queues))) (answers R)"
      by (rule holds_bind [rotated])
  qed
  show ?thesis unfolding multiplexed_def
    by (rule holds_bind [OF serving_spec], rule holds_bind [OF channel_spec], rule at_bind [OF cancel_consumer_spec], rule rest)
qed

lemma get_each_spec: "holds R (at_channel R g) (get_each A g qs) (answers R)"
proof (induction qs)
  case (Cons q qs)
  have "holds R (\<lambda>s. answers R t s \<and> at_channel R g s \<and> (t = None \<longrightarrow> d = None)) (if t \<noteq> None then return t else get_each A g qs) (answers R)" for t d
    using Cons.IH by (auto simp: holds_def return_def)
  then have "holds R (at_channel R g) (bind_call (drive (am_get A g q)) (\<lambda>d. bind_call (delivery g q d) (\<lambda>t.
      if t \<noteq> None then return t else get_each A g qs))) (answers R)"
    by (intro at_bind [OF drive_at] holds_bind [OF delivery_spec])
  then show ?case by (simp add: holds_def)
qed (simp add: holds_def answers_nothing)

lemma queues_of_some [simp]: "queues_of C queues \<noteq> []"
  by (simp add: queues_of_def)

lemma take_spec: "holds R (good R) (rabbit_take A C timeout queues) (answers R)"
proof -
  have "holds R (good R) (bind_call (modify (\<lambda>s. s\<lparr> rb_serving := [rc_queue C] \<rparr>)) (\<lambda>_.
           bind_call (channel A C []) (\<lambda>g.
           bind_call (\<lambda>s. if (case th_consumer (rb_mine s) of Some (t, _) \<Rightarrow> t = timeout | None \<Rightarrow> False) then (Inr (), s)
                          else bind_call (cancel_consumer A g) (\<lambda>_. modify (mine (\<lambda>t. t\<lparr> th_consumer := Some (timeout, g) \<rparr>))) s) (\<lambda>_.
           bind_call (drive (am_next A g (rc_queue C) (max (1 / 1000) timeout))) (\<lambda>d.
           delivery g [] d))))) (answers R)"
    by (rule holds_bind [OF serving_spec], rule holds_bind [OF channel_spec], rule at_bind, rule at_choose,
        rule at_bind [OF cancel_consumer_spec], rule at_modify, simp, simp, rule at_bind [OF drive_at], rule answers_buffered(2))
  with multiplexed_spec [of "queues_of C queues" R A C timeout] show ?thesis by (simp add: holds_def rabbit_take_def)
qed

lemma take_nowait_spec: "holds R (good R) (rabbit_take_nowait A C queues) (answers R)"
proof -
  have rest: "holds R (\<lambda>s. answers R held s \<and> at_channel R g s \<and> (held = None \<longrightarrow> th_delivered (rb_mine s) = []))
      (if held \<noteq> None then return held else bind_call (unsubscribe A g) (\<lambda>_. get_each A g asked)) (answers R)" for held g asked
  proof (cases held)
    case None
    have "holds R (\<lambda>s. at_channel R g s \<and> th_delivered (rb_mine s) = []) (bind_call (unsubscribe A g) (\<lambda>_. get_each A g asked)) (answers R)"
      by (rule holds_bind [OF unsubscribe_spec get_each_spec])
    with None show ?thesis by (simp add: holds_def)
  qed (auto intro: holds_return)
  show ?thesis unfolding rabbit_take_nowait_def Let_def
    by (rule holds_bind [OF serving_spec], rule holds_bind [OF channel_spec], rule at_bind [OF cancel_consumer_spec],
        rule holds_bind [OF buffered_spec], rule rest)
qed

lemma publish_spec: "holds R (good R) (rabbit_publish A C payloads) (\<lambda>_. good R)"
proof -
  have each: "holds R (at_channel R g) (publish_each A g queue ps) (\<lambda>_. at_channel R g)" for g queue ps
  proof (induction ps)
    case (Cons p ps)
    have "case publish_each A g queue (p # ps) s of (Inl e, s') \<Rightarrow> good R s' | (Inr a, s') \<Rightarrow> at_channel R g s'" if "at_channel R g s" for s
    proof (cases "am_publish A g queue p (rb_server s)")
      case (Pair res r)
      then show ?thesis using that Cons.IH by (cases res) (auto simp: drive_def holds_def at_channel_good split: prod.splits)
    qed
    then show ?case by (simp add: holds_def)
  qed (simp add: holds_def)
  have "holds R (good R) (bind_call (channel A C []) (\<lambda>g. publish_each A g (rc_queue C) payloads)) (\<lambda>_. good R)"
    by (rule holds_bind [OF channel_spec]) (rule holds_weaken [OF each], simp_all add: at_channel_good)
  then show ?thesis by (simp add: rabbit_publish_def holds_return)
qed

lemma sent_at: "(g, tag) \<in> R \<Longrightarrow> at_channel R g s \<Longrightarrow> at_channel R g (s\<lparr> rb_sent := rb_sent s @ [(g, tag)] \<rparr>)"
  by (auto simp: at_channel_def good_def shared_ok_def)

lemma discard_at [simp]: "at_channel R h s \<Longrightarrow> at_channel R h (discard_handle k s)"
  by (auto simp: at_channel_def good_def shared_ok_def discard_handle_def)

lemma settle_spec:
  assumes "(g, tag) \<in> R"
  shows "holds R (good R) (settle_with command A C (ChannelTag g tag)) (\<lambda>_. good R)"
proof -
  have found: "holds R (at_channel R h) (rabbit_settleable (ChannelTag g tag)) (\<lambda>t s. at_channel R h s \<and> (t \<noteq> None \<longrightarrow> t = Some tag \<and> h = g))" for h
  proof -
    have "at_channel R h s \<Longrightarrow> th_count (rb_mine s) = h" for s by (simp add: at_channel_def)
    then show ?thesis by (auto simp: holds_def rabbit_settleable_def bind_call_def return_def)
  qed
  have tell: "holds R (\<lambda>s. at_channel R h s \<and> (t \<noteq> None \<longrightarrow> t = Some tag \<and> h = g))
      (case t of None \<Rightarrow> return () | Some t \<Rightarrow>
           bind_call (modify (\<lambda>s. s\<lparr> rb_sent := rb_sent s @ [(h, t)] \<rparr>)) (\<lambda>_.
           bind_call (drive (command A h t)) (\<lambda>_.
           bind_call (rabbit_position (ChannelTag g tag)) (\<lambda>k. modify (discard_handle k))))) (\<lambda>_. good R)" for h t
  proof (cases t)
    case (Some t')
    have "holds R (\<lambda>s. at_channel R h s \<and> h = g)
      (bind_call (modify (\<lambda>s. s\<lparr> rb_sent := rb_sent s @ [(h, tag)] \<rparr>)) (\<lambda>_.
           bind_call (drive (command A h tag)) (\<lambda>_.
           bind_call (rabbit_position (ChannelTag g tag)) (\<lambda>k. modify (discard_handle k))))) (\<lambda>_. at_channel R h)"
      by (rule holds_bind [OF holds_modify [where Q = "\<lambda>_. at_channel R h"]])
        (auto simp: sent_at [OF assms] intro!: at_bind drive_at at_modify holds_return)
    then have told: "holds R (\<lambda>s. at_channel R h s \<and> h = g)
      (bind_call (modify (\<lambda>s. s\<lparr> rb_sent := rb_sent s @ [(h, tag)] \<rparr>)) (\<lambda>_.
           bind_call (drive (command A h tag)) (\<lambda>_.
           bind_call (rabbit_position (ChannelTag g tag)) (\<lambda>k. modify (discard_handle k))))) (\<lambda>_. good R)"
      by (rule holds_weaken) (auto simp: at_channel_good)
    show ?thesis
    proof (cases "t' = tag")
      case True
      with Some show ?thesis using told by simp
    qed (simp add: Some holds_def)
  qed (auto intro: holds_return at_channel_good)
  show ?thesis unfolding settle_with_def
    by (intro holds_bind [OF channel_spec] holds_bind [OF found] tell)
qed

definition run_ok :: "(nat \<times> nat) list \<Rightarrow> (nat \<Rightarrow> rthread) \<times> 'r rabbit \<Rightarrow> bool" where
  "run_ok hs w \<longleftrightarrow> shared_ok (set hs) (snd w) \<and> (\<forall>i. thread_ok (set (rb_received (snd w))) (fst w i))"

lemma thread_ok_mono: "thread_ok X t \<Longrightarrow> X \<subseteq> Y \<Longrightarrow> thread_ok Y t"
  by (auto simp: thread_ok_def)

lemma on_thread_ok:
  assumes "run_ok hs w" "on_thread i m w = (res, w')"
    and "\<And>R. set hs \<subseteq> R \<Longrightarrow> holds R (good R) m (\<lambda>a s. good R s \<and> set (extra (Inr a)) \<subseteq> set (rb_received s))" "\<And>e. extra (Inl e) = []"
  shows "run_ok (hs @ extra res) w'"
proof -
  define R where "R = set (rb_received (snd w))"
  obtain s where run: "m ((snd w)\<lparr> rb_mine := fst w i \<rparr>) = (res, s)" and w': "w' = ((fst w)(i := rb_mine s), s)"
    using assms(2) by (auto simp: on_thread_def split: prod.splits)
  have "set hs \<subseteq> R" "good R ((snd w)\<lparr> rb_mine := fst w i \<rparr>)"
    using assms(1) by (auto simp: run_ok_def good_def shared_ok_def R_def)
  note start = this
  have "case (res, s) of (Inl e, s') \<Rightarrow> good R s' | (Inr a, s') \<Rightarrow> good R s' \<and> set (extra (Inr a)) \<subseteq> set (rb_received s')"
    using assms(3) [OF start(1), unfolded holds_def, rule_format, OF start(2)] unfolding run .
  then have post: "good R s" "set (extra res) \<subseteq> set (rb_received s)" by (cases res; simp add: assms(4))+
  then have "R \<subseteq> set (rb_received s)" by (simp add: good_def shared_ok_def)
  with post assms(1) \<open>set hs \<subseteq> R\<close> show ?thesis
    unfolding run_ok_def w' by (auto simp: good_def shared_ok_def R_def intro: thread_ok_mono)
qed

lemma reads_hand_out:
  "holds R (good R) m (answers R) \<Longrightarrow> holds R (good R) m (\<lambda>a s. good R s \<and> set (handed_out (Inr a)) \<subseteq> set (rb_received s))"
  by (erule holds_weaken) (auto simp: answers_def handed_out_def split: option.splits)

lemma plainly: "holds R (good R) m (\<lambda>_. good R) \<Longrightarrow> holds R (good R) m (\<lambda>a s. good R s \<and> set [] \<subseteq> set (rb_received s))"
  by (erule holds_weaken) auto

lemma run_keeps_ok: "rabbit_run A C hs w \<Longrightarrow> run_ok hs w"
proof (induction rule: rabbit_run.induct)
  case (starts r)
  show ?case by (simp add: run_ok_def rabbit_init_def shared_ok_def thread_ok_def new_thread_def)
next
  case (publishes hs w i payloads res w')
  then show ?case using on_thread_ok [where extra = "\<lambda>_. []", OF _ publishes(2) plainly [OF publish_spec]] by simp
next
  case (takes hs w i timeout queues res w')
  then show ?case
    using on_thread_ok [where extra = handed_out, OF _ takes(2) reads_hand_out [OF take_spec]] by (simp add: handed_out_def)
next
  case (drains hs w i queues res w')
  then show ?case
    using on_thread_ok [where extra = handed_out, OF _ drains(2) reads_hand_out [OF take_nowait_spec]] by (simp add: handed_out_def)
next
  case (acks hs w g tag i res w')
  have "holds R (good R) (rabbit_ack A C (ChannelTag g tag)) (\<lambda>_. good R)" if "set hs \<subseteq> R" for R
    unfolding rabbit_ack_def by (rule settle_spec) (use acks that in auto)
  with acks show ?case using on_thread_ok [where extra = "\<lambda>_. []", OF _ acks(3) plainly] by simp
next
  case (releases hs w g tag i res w')
  have "holds R (good R) (rabbit_release A C (ChannelTag g tag)) (\<lambda>_. good R)" if "set hs \<subseteq> R" for R
    unfolding rabbit_release_def by (rule settle_spec) (use releases that in auto)
  with releases show ?case using on_thread_ok [where extra = "\<lambda>_. []", OF _ releases(3) plainly] by simp
next
  case (discards hs w i if_empty res2 w')
  have "holds R (good R) (rabbit_discard A C if_empty) (\<lambda>_. good R)" for R
    unfolding rabbit_discard_def
    by (auto intro!: holds_return holds_bind [OF channel_spec] at_bind drive_at simp: at_channel_good)
  with discards show ?case using on_thread_ok [where extra = "\<lambda>_. []", OF _ discards(2) plainly] by simp
next
  case (asks hs w i res3 w')
  have "holds R (good R) (rabbit_depth A C) (\<lambda>_. good R)" for R
    unfolding rabbit_depth_def
    by (rule holds_bind [OF channel_spec], rule holds_weaken [OF drive_at]) (auto intro: at_channel_good)
  with asks show ?case using on_thread_ok [where extra = "\<lambda>_. []", OF _ asks(2) plainly] by simp
next
  case (closes hs w i res w')
  have "holds R (good R) (modify (drop_this_threads_connection A)) (\<lambda>_. good R)" for R
    by (rule holds_modify) (rule drop_connection_good)
  with closes show ?case using on_thread_ok [where extra = "\<lambda>_. []", OF _ closes(2) plainly] by simp
next
  case (server hs w r)
  then show ?case by (simp add: run_ok_def shared_ok_def)
qed

text \<open>
  C3. Whatever the server does and however the threads of a process interleave, connections lost and
  reopened included, a settling command sent on a channel names a delivery that channel made: an
  acknowledgement never lands on a message of another channel that happens to carry its number.
  Every handle given out, and every one counted as unsettled, names such a delivery too.
\<close>

theorem rabbit_settles_on_the_delivering_channel:
  assumes "rabbit_run A C hs w"
  shows "set (rb_sent (snd w)) \<subseteq> set (rb_received (snd w)) \<and> set hs \<subseteq> set (rb_received (snd w)) \<and>
         set (rb_unsettled (snd w)) \<subseteq> set (rb_received (snd w))"
  using run_keeps_ok [OF assms] by (simp add: run_ok_def shared_ok_def)

text \<open>
  A server that forgets a channel and starts its tags again: \<open>(n, t)\<close> has closed the channels up to
  \<open>n\<close> and hands out \<open>t\<close> next.
\<close>

definition forgetful_amqp :: "(nat \<times> nat) amqp" where
  "forgetful_amqp = \<lparr> am_open = (\<lambda>n i r. (Inr (), (fst r, 1))), am_is_open = (\<lambda>g r. fst r < g), am_close = (\<lambda>g r. r),
     am_declare = (\<lambda>g q r. (Inr (), r)), am_count = (\<lambda>g q r. (Inr 0, r)), am_delete = (\<lambda>g q r. (Inr (), r)),
     am_publish = (\<lambda>g q b r. (Inr (), r)), am_next = (\<lambda>g q t r. (Inr (Some (snd r, ''hi'')), (fst r, Suc (snd r)))),
     am_cancel_all = (\<lambda>g r. (Inr (), r)), am_get = (\<lambda>g q r. (Inr None, r)), am_subscribe = (\<lambda>g q r. (Inr q, r)),
     am_cancel = (\<lambda>g q r. (Inr (), r)), am_events = (\<lambda>g t r. (Inr (), [], r)), am_ack = (\<lambda>g t r. (Inr (), r)), am_nack = (\<lambda>g t r. (Inr (), r)) \<rparr>"

definition one_queue_conf :: rabbit_conf where
  "one_queue_conf = \<lparr> rc_url = ''amqp://'', rc_prefetch = 0, rc_deadline = 10, rc_queue = ''q'' \<rparr>"

definition took_once :: "(nat \<Rightarrow> rthread) \<times> (nat \<times> nat) rabbit" where
  "took_once = snd (on_thread 0 (rabbit_take forgetful_amqp one_queue_conf 1 NoQueues) (rabbit_init (0, 1)))"

definition reconnected :: "(nat \<Rightarrow> rthread) \<times> (nat \<times> nat) rabbit" where
  "reconnected = snd (on_thread 0 (rabbit_take forgetful_amqp one_queue_conf 1 NoQueues)
     (snd (on_thread 0 (rabbit_ack forgetful_amqp one_queue_conf (ChannelTag 1 1)) (fst took_once, (snd took_once)\<lparr> rb_server := (1, 1) \<rparr>))))"

definition settled_once :: "(nat \<Rightarrow> rthread) \<times> (nat \<times> nat) rabbit" where
  "settled_once = snd (on_thread 0 (rabbit_ack forgetful_amqp one_queue_conf (ChannelTag 2 1)) reconnected)"

lemma settled_once_run: "rabbit_run forgetful_amqp one_queue_conf [(1, 1), (2, 1)] settled_once"
proof -
  let ?take = "rabbit_take forgetful_amqp one_queue_conf 1 NoQueues"
  let ?mid = "snd (on_thread 0 (rabbit_ack forgetful_amqp one_queue_conf (ChannelTag 1 1)) (fst took_once, (snd took_once)\<lparr> rb_server := (1, 1) \<rparr>))"
  have first: "handed_out (fst (on_thread 0 ?take (rabbit_init (0, 1)))) = [(1, 1)]" by code_simp
  have second: "handed_out (fst (on_thread 0 ?take ?mid)) = [(2, 1)]" by code_simp
  have "rabbit_run forgetful_amqp one_queue_conf [(1, 1)] took_once"
    using rabbit_run.takes [OF rabbit_run.starts prod.collapse [symmetric], of forgetful_amqp one_queue_conf 0 1 NoQueues "(0, 1)"] first
    by (simp add: took_once_def)
  then have "rabbit_run forgetful_amqp one_queue_conf [(1, 1)] ?mid"
    by (rule rabbit_run.acks [OF rabbit_run.server _ prod.collapse [symmetric]]) simp
  then have "rabbit_run forgetful_amqp one_queue_conf [(1, 1), (2, 1)] reconnected"
    using rabbit_run.takes [OF _ prod.collapse [symmetric], of forgetful_amqp one_queue_conf "[(1, 1)]" ?mid 0 1 NoQueues] second
    by (simp add: reconnected_def)
  then show ?thesis unfolding settled_once_def
    by (rule rabbit_run.acks [OF _ _ prod.collapse [symmetric]]) simp
qed

theorem rabbit_settles_on_the_delivering_channel_witness:
  "rb_sent (snd settled_once) = [(2, 1)] \<and> {(1, 1), (2, 1)} \<subseteq> set (rb_received (snd settled_once))"
proof -
  have "rb_sent (snd settled_once) = [(2, 1)]" by code_simp
  with rabbit_settles_on_the_delivering_channel [OF settled_once_run] show ?thesis by simp
qed

lemma register_each_asks:
  assumes "\<And>q'. q' \<noteq> q \<Longrightarrow> am_subscribe A' g q' = am_subscribe A g q'"
  shows "dhas (th_tags (rb_mine s)) q \<Longrightarrow> register_each A' g queues s = register_each A g queues s"
proof (induction queues arbitrary: s)
  case (Cons q' queues)
  show ?case
  proof (cases "dhas (th_tags (rb_mine s)) q'")
    case False
    with Cons.prems have "am_subscribe A' g q' = am_subscribe A g q'" by (intro assms) auto
    moreover have "dhas (th_tags (rb_mine (mine (\<lambda>t. t\<lparr> th_tags := dset q' tag (th_tags t) \<rparr>) (s\<lparr> rb_server := r \<rparr>)))) q" for tag r
      using Cons.prems by (simp add: mine_def dict_simps)
    ultimately show ?thesis using Cons.IH False
      by (simp add: bind_call_def drive_def modify_def split: prod.splits sum.splits)
  qed (use Cons in simp)
qed simp


text \<open>A server that refuses one queue on its first channel, closing it; it keeps the subscriptions it has.\<close>

definition refusing_amqp :: "((nat \<times> string) list \<times> nat) amqp" where
  "refusing_amqp = \<lparr> am_open = (\<lambda>n i r. (Inr (), r)), am_is_open = (\<lambda>g r. snd r < g), am_close = (\<lambda>g r. r),
     am_declare = (\<lambda>g q r. (Inr (), r)), am_count = (\<lambda>g q r. (Inr 0, r)), am_delete = (\<lambda>g q r. (Inr (), r)),
     am_publish = (\<lambda>g q b r. (Inr (), r)), am_next = (\<lambda>g q t r. (Inr None, r)),
     am_cancel_all = (\<lambda>g r. (Inr (), r)), am_get = (\<lambda>g q r. (Inr None, r)),
     am_subscribe = (\<lambda>g q r. if q = ''b'' \<and> g = 1 then (Inl (''ChannelClosedByBroker'', ''403''), (fst r, 1)) else (Inr q, (fst r @ [(g, q)], snd r))),
     am_cancel = (\<lambda>g q r. (Inr (), r)), am_events = (\<lambda>g t r. (Inr (), [], r)), am_ack = (\<lambda>g t r. (Inr (), r)), am_nack = (\<lambda>g t r. (Inr (), r)) \<rparr>"

definition half_registered :: "((nat \<times> string) list \<times> nat) rabbit" where
  "half_registered = snd (rabbit_take refusing_amqp one_queue_conf 1 (Names [''a'', ''b'']) (snd (rabbit_init ([], 0))))"


end
