(* ===== verification/Replaying.thy ===== *)
theory Replaying
  imports Enqueueing Payloads
begin

text \<open>
  \<open>management/commands/tgbot_replay.py\<close>: putting failed sends back on their queues.  Which rows a
  run selects and which of them are nothing to act on; where the arguments of a failed call are
  found; the claim that keeps two runs off one failure, one database statement at a time; and the
  walk over the selection.  The rows of the event log are those the run finds when it starts; what
  it prints and logs is left out.
\<close>

section \<open>Rows and claims\<close>

record feed_row =
  fr_id :: nat
  fr_kind :: string
  fr_correlation :: nat
  fr_bot :: "int option"
  fr_function :: string
  fr_chat :: "int option"
  fr_error_code :: string
  fr_created :: rat
  fr_detail :: "pydict option"

record claim =
  cl_pk :: nat
  cl_key :: "int \<times> nat"
  cl_at :: rat
  cl_by :: string
  cl_queued_at :: "rat option"
  cl_replacement :: "nat option"

definition claimed_bot :: "feed_row \<Rightarrow> int" where
  "claimed_bot r = (case fr_bot r of Some b \<Rightarrow> b | None \<Rightarrow> 0)"

definition row_key :: "feed_row \<Rightarrow> int \<times> nat" where
  "row_key r = (claimed_bot r, fr_correlation r)"

definition REPLAYABLE_KINDS :: "string list" where
  "REPLAYABLE_KINDS = [''outbound.failed'', ''outbound.dropped'']"

definition ARGUMENT_KINDS :: "string list" where
  "ARGUMENT_KINDS = [''outbound.queued'', ''outbound.scheduled'']"

definition UNACKNOWLEDGED_DROPS :: "string list" where
  "UNACKNOWLEDGED_DROPS = [''NotScheduled'']"

definition DELIBERATE_DROPS :: "string list" where
  "DELIBERATE_DROPS = [''TooLate'']"

definition CLAIM_ATTEMPTS :: nat where "CLAIM_ATTEMPTS = 3"

definition WINDOW :: nat where "WINDOW = 200"

text \<open>A skip says that there is nothing to do, a refusal that somebody has to decide.\<close>

datatype reason = SkippedDelivered | SkippedReplayed | SkippedDeliberate string | SkippedUnacknowledged string | SkippedClaimed string rat
  | SkippedContested | RefusedArguments string | RefusedWrite string

datatype verdict = Went | Refused reason | Skipped reason

definition deliberate :: "feed_row \<Rightarrow> reason option" where
  "deliberate r =
     (if fr_error_code r \<in> set DELIBERATE_DROPS then Some (SkippedDeliberate (fr_error_code r))
      else if fr_error_code r \<in> set UNACKNOWLEDGED_DROPS then Some (SkippedUnacknowledged (fr_error_code r))
      else None)"

section \<open>What a run selects\<close>

record replay_options =
  ro_since :: "string option"
  ro_until :: "string option"
  ro_kinds :: "string list"
  ro_chat :: "int option"
  ro_bots :: "int list"
  ro_ids :: "string list"
  ro_limit :: int
  ro_claim_lease :: int
  ro_dry_run :: bool

datatype command_error = NothingRecorded | ProducerDisabled | KindExcluded | SinceRequired | UnknownKinds "string list" | NotAUuid string
  | NotAMoment string string | NotABound int

definition nothing_to_read :: "bool \<Rightarrow> bool \<Rightarrow> bool \<Rightarrow> bool \<Rightarrow> command_error option" where
  "nothing_to_read event_log enabled wants_replayed dry_run =
     (if \<not> event_log then Some NothingRecorded
      else if dry_run then None
      else if \<not> enabled then Some ProducerDisabled
      else if \<not> wants_replayed then Some KindExcluded
      else None)"

fun as_uuids :: "string list \<Rightarrow> command_error + nat list" where
  "as_uuids [] = Inr []"
| "as_uuids (s # ss) =
     (case uuid_of_str s of
        None \<Rightarrow> Inl (NotAUuid s)
      | Some i \<Rightarrow> (case as_uuids ss of Inl e \<Rightarrow> Inl e | Inr rest \<Rightarrow> Inr (i # rest)))"

definition moment_of :: "(string \<Rightarrow> rat option) \<Rightarrow> string \<Rightarrow> string \<Rightarrow> command_error + rat" where
  "moment_of parse s flag = (case parse s of None \<Rightarrow> Inl (NotAMoment flag s) | Some t \<Rightarrow> Inr t)"

definition row_before :: "feed_row \<Rightarrow> feed_row \<Rightarrow> bool" where
  "row_before r s \<longleftrightarrow> fr_created r < fr_created s \<or> fr_created r = fr_created s \<and> fr_id r \<le> fr_id s"

fun insert_row :: "feed_row \<Rightarrow> feed_row list \<Rightarrow> feed_row list" where
  "insert_row r [] = [r]"
| "insert_row r (s # ss) = (if row_before r s then r # s # ss else s # insert_row r ss)"

definition by_creation :: "feed_row list \<Rightarrow> feed_row list" where
  "by_creation rs = foldr insert_row rs []"

definition optional :: "('a \<Rightarrow> 'e + 'b) \<Rightarrow> 'a option \<Rightarrow> 'e + 'b option" where
  "optional f x = (case x of None \<Rightarrow> Inr None | Some a \<Rightarrow> (case f a of Inl e \<Rightarrow> Inl e | Inr b \<Rightarrow> Inr (Some b)))"

definition non_empty :: "string option \<Rightarrow> string option" where
  "non_empty s = (if s = Some [] then None else s)"

definition selected :: "(string \<Rightarrow> rat option) \<Rightarrow> replay_options \<Rightarrow> rat \<Rightarrow> feed_row list \<Rightarrow> command_error + feed_row list" where
  "selected parse P started feed =
     (let kinds = (if ro_kinds P = [] then REPLAYABLE_KINDS else ro_kinds P);
          unknown = filter (\<lambda>k. k \<notin> set REPLAYABLE_KINDS) kinds
      in if ro_ids P = [] \<and> non_empty (ro_since P) = None then Inl SinceRequired
         else if unknown \<noteq> [] then Inl (UnknownKinds unknown)
         else case as_uuids (ro_ids P) of
                Inl e \<Rightarrow> Inl e
              | Inr wanted \<Rightarrow>
                  (case optional (\<lambda>s. moment_of parse s ''--since'') (non_empty (ro_since P)) of
                     Inl e \<Rightarrow> Inl e
                   | Inr since \<Rightarrow>
                       (case optional (\<lambda>s. moment_of parse s ''--until'') (non_empty (ro_until P)) of
                          Inl e \<Rightarrow> Inl e
                        | Inr until \<Rightarrow>
                            Inr (by_creation (filter (\<lambda>r.
                              fr_kind r \<in> set kinds \<and>
                              (wanted = [] \<or> fr_correlation r \<in> set wanted) \<and>
                              (case since of None \<Rightarrow> True | Some t \<Rightarrow> t \<le> fr_created r) \<and>
                              fr_created r < (case until of None \<Rightarrow> started | Some t \<Rightarrow> t) \<and>
                              (ro_chat P = None \<or> fr_chat r = ro_chat P) \<and>
                              (ro_bots P = [] \<or> (\<exists>b \<in> set (ro_bots P). fr_bot r = Some b))) feed)))))"

definition bound :: "int \<Rightarrow> command_error + nat option" where
  "bound limit = (if limit < 0 then Inl (NotABound limit) else if limit = 0 then Inr None else Inr (Some (nat limit)))"

text \<open>\<open>_nothing_to_do_for\<close>: what Telegram already has, by its identifier alone.\<close>

definition nothing_to_do_for :: "feed_row list \<Rightarrow> feed_row list \<Rightarrow> nat \<Rightarrow> reason option" where
  "nothing_to_do_for feed rows i =
     (if i \<in> fr_correlation ` set rows \<and> (\<exists>r \<in> set feed. fr_correlation r = i \<and> fr_kind r = ''outbound.sent'')
      then Some SkippedDelivered else None)"

fun first_described :: "feed_row list \<Rightarrow> pydict \<times> string" where
  "first_described [] = ([], ''no outbound.queued or outbound.scheduled row carries its arguments'')"
| "first_described (r # rs) =
     (let arguments = filter (\<lambda>(k, _). k \<noteq> ''due_at'') (case fr_detail r of None \<Rightarrow> [] | Some d \<Rightarrow> d)
      in if arguments = [] then first_described rs
         else (let reason = lossy_reason (PDict arguments) in if reason \<noteq> [] then ([], reason) else (arguments, [])))"

definition arguments_for :: "feed_row list \<Rightarrow> feed_row \<Rightarrow> pydict \<times> string" where
  "arguments_for feed row =
     first_described (rev (by_creation (filter (\<lambda>r. fr_correlation r = fr_correlation row \<and> fr_kind r \<in> set ARGUMENT_KINDS \<and>
        (fr_bot row = None \<or> fr_bot r = fr_bot row)) feed)))"

section \<open>The claim, a statement at a time\<close>

text \<open>A run: who it is, when it began and how long it believes a claim that never answered.\<close>

record run =
  ru_worker :: string
  ru_started :: rat
  ru_lease :: rat

definition lapsed :: "run \<Rightarrow> claim \<Rightarrow> bool" where
  "lapsed R c = (ru_lease R \<noteq> 0 \<and> cl_at c < ru_started R - ru_lease R)"

definition claim_for :: "int \<times> nat \<Rightarrow> claim list \<Rightarrow> claim option" where
  "claim_for key claims = find (\<lambda>c. cl_key c = key) claims"

definition claim_numbered :: "nat \<Rightarrow> claim list \<Rightarrow> claim option" where
  "claim_numbered pk claims = find (\<lambda>c. cl_pk c = pk) claims"

text \<open>The conditional delete, an insert against the unique pair, and the conditional update.\<close>

definition deletable :: "nat \<Rightarrow> claim \<Rightarrow> bool" where
  "deletable pk c = (cl_pk c = pk \<and> cl_queued_at c = None)"

definition file_claim :: "run \<Rightarrow> rat \<Rightarrow> int \<times> nat \<Rightarrow> nat \<Rightarrow> claim list \<Rightarrow> claim list option" where
  "file_claim R now key pk claims =
     (if claim_for key claims \<noteq> None then None
      else Some (claims @ [\<lparr> cl_pk = pk, cl_key = key, cl_at = now, cl_by = ru_worker R, cl_queued_at = None, cl_replacement = None \<rparr>]))"

definition mark_queued :: "nat \<Rightarrow> rat \<Rightarrow> nat \<Rightarrow> claim list \<Rightarrow> claim list" where
  "mark_queued pk now i claims =
     map (\<lambda>c. if cl_pk c = pk then c\<lparr> cl_queued_at := Some now, cl_replacement := Some i \<rparr> else c) claims"

text \<open>What the runs share; \<open>rp_sends\<close> and \<open>rp_taken\<close> keep the queue writes tried and the claims deleted, by failure.\<close>

record 's replays =
  rp_claims :: "claim list"
  rp_next :: nat
  rp_client :: "'s pstate"
  rp_sends :: "(int \<times> nat) list"
  rp_taken :: "(int \<times> nat) list"
  rp_joined :: "event list"
  rp_unrecorded :: nat
  rp_taken_over :: nat

text \<open>Where a run is with a row: the argument of the later phases is the attempts left, or its claim.\<close>

datatype phase =
    Looking feed_row pydict nat
  | TakingOver feed_row pydict nat nat
  | Filing feed_row pydict nat
  | Sending feed_row pydict nat
  | Marking feed_row nat nat
  | Recording feed_row nat
  | Settled feed_row verdict

definition replayed_event :: "run \<Rightarrow> rat \<Rightarrow> feed_row \<Rightarrow> nat \<Rightarrow> event" where
  "replayed_event R now row replacement =
     (blank_event ''outbound.replayed'' replacement now)
       \<lparr> ev_function := fr_function row, ev_chat_id := fr_chat row, ev_worker := ru_worker R,
         ev_detail := Some [(''replay_of'', PUuid (fr_correlation row)), (''replay_of_kind'', PStr (fr_kind row))] \<rparr>"

definition say_claimed :: "claim option \<Rightarrow> reason" where
  "say_claimed held =
     (case held of
        None \<Rightarrow> SkippedContested
      | Some c \<Rightarrow> if cl_queued_at c = None then SkippedClaimed (cl_by c) (cl_at c) else SkippedReplayed)"

definition replay_starts :: "feed_row list \<Rightarrow> feed_row \<Rightarrow> phase" where
  "replay_starts feed row =
     (case arguments_for feed row of (arguments, reason) \<Rightarrow>
        if reason \<noteq> [] then Settled row (Refused (RefusedArguments reason)) else Looking row arguments CLAIM_ATTEMPTS)"

text \<open>
  One statement.  \<open>now\<close> is the clock, \<open>minted\<close> the identifier a send would be given and \<open>recorded\<close>
  whether the event log would take a row; the client is the process's default bot, whose
  environment \<open>E\<close> is.  An identifier stands in the row's detail for its text.
\<close>

definition replay_step :: "'s penv \<Rightarrow> run \<Rightarrow> rat \<Rightarrow> nat \<Rightarrow> bool \<Rightarrow> phase \<Rightarrow> 's replays \<Rightarrow> phase \<times> 's replays" where
  "replay_step E R now minted recorded ph w =
     (case ph of
        Looking row arguments 0 \<Rightarrow> (Settled row (Skipped (say_claimed None)), w)
      | Looking row arguments (Suc n) \<Rightarrow>
          (case claim_for (row_key row) (rp_claims w) of
             None \<Rightarrow> (Filing row arguments n, w)
           | Some c \<Rightarrow>
               if cl_queued_at c \<noteq> None \<or> \<not> lapsed R c then (Settled row (Skipped (say_claimed (Some c))), w)
               else (TakingOver row arguments n (cl_pk c), w))
      | TakingOver row arguments n pk \<Rightarrow>
          (let gone = filter (deletable pk) (rp_claims w)
           in if gone \<noteq> []
              then (Filing row arguments n,
                    w\<lparr> rp_claims := filter (\<lambda>c. \<not> deletable pk c) (rp_claims w), rp_taken := rp_taken w @ map cl_key gone \<rparr>)
              else (case claim_numbered pk (rp_claims w) of
                      Some c \<Rightarrow> (Settled row (Skipped (say_claimed (Some c))), w)
                    | None \<Rightarrow> (Filing row arguments n, w)))
      | Filing row arguments n \<Rightarrow>
          (case file_claim R now (row_key row) (rp_next w) (rp_claims w) of
             None \<Rightarrow> (Looking row arguments n, w)
           | Some claims \<Rightarrow> (Sending row arguments (rp_next w), w\<lparr> rp_claims := claims, rp_next := Suc (rp_next w) \<rparr>))
      | Sending row arguments pk \<Rightarrow>
          (case enqueue E None minted (fr_function row) NoIdentifier None arguments (rp_client w) of
             (Inl e, st) \<Rightarrow>
               (Settled row (Refused (RefusedWrite (fst e))), w\<lparr> rp_client := st, rp_sends := rp_sends w @ [row_key row] \<rparr>)
           | (Inr i, st) \<Rightarrow> (Marking row pk i, w\<lparr> rp_client := st, rp_sends := rp_sends w @ [row_key row] \<rparr>))
      | Marking row pk i \<Rightarrow>
          (Recording row i, w\<lparr> rp_claims := mark_queued pk now i (rp_claims w),
             rp_taken_over := rp_taken_over w + (if claim_numbered pk (rp_claims w) = None then 1 else 0) \<rparr>)
      | Recording row i \<Rightarrow>
          (Settled row Went,
           if recorded then w\<lparr> rp_joined := rp_joined w @ [replayed_event R now row i] \<rparr> else w\<lparr> rp_unrecorded := Suc (rp_unrecorded w) \<rparr>)
      | Settled row v \<Rightarrow> (Settled row v, w))"

text \<open>
  The whole of \<open>_replay\<close> for one row, with what other processes do to the world before each of its
  statements as an argument.
\<close>

fun statements_left :: "phase \<Rightarrow> nat" where
  "statements_left (Looking row arguments n) = 3 * n + 4"
| "statements_left (TakingOver row arguments n pk) = 3 * n + 6"
| "statements_left (Filing row arguments n) = 3 * n + 5"
| "statements_left (Sending row arguments pk) = 3"
| "statements_left (Marking row pk i) = 2"
| "statements_left (Recording row i) = 1"
| "statements_left (Settled row v) = 0"

lemma statements_decrease:
  assumes "statements_left ph \<noteq> 0"
  shows "statements_left (fst (replay_step E R now minted recorded ph w)) < statements_left ph"
proof (cases ph)
  case (Looking row arguments n)
  then show ?thesis by (cases n) (auto simp: replay_step_def split: option.splits)
qed (use assms in \<open>auto simp: replay_step_def Let_def split: option.splits prod.splits sum.splits\<close>)

type_synonym inputs = "nat \<Rightarrow> rat \<times> nat \<times> bool"

fun verdict_of :: "phase \<Rightarrow> verdict" where
  "verdict_of (Settled row v) = v"
| "verdict_of _ = Went"

function replay_row :: "'s penv \<Rightarrow> run \<Rightarrow> inputs \<Rightarrow> (nat \<Rightarrow> 's replays \<Rightarrow> 's replays) \<Rightarrow> nat \<Rightarrow> phase \<Rightarrow> 's replays \<Rightarrow> verdict \<times> 's replays" where
  "replay_row E R inp others k ph w =
     (if statements_left ph = 0 then (verdict_of ph, w)
      else (case replay_step E R (fst (inp k)) (fst (snd (inp k))) (snd (snd (inp k))) ph (others k w) of
              (ph', w') \<Rightarrow> replay_row E R inp others (Suc k) ph' w'))"
  by pat_completeness auto
termination
  by (relation "measure (\<lambda>(E, R, inp, others, k, ph, w). statements_left ph)")
    (auto simp: case_prod_unfold intro!: statements_decrease)

declare replay_row.simps [simp del]

text \<open>\<open>_would_replay\<close>: the same questions, with nothing written; a run remembers what it said it would send.\<close>

definition would_replay :: "run \<Rightarrow> claim list \<Rightarrow> feed_row list \<Rightarrow> feed_row \<Rightarrow> nat list \<Rightarrow> verdict \<times> nat list" where
  "would_replay R claims feed row simulated =
     (case arguments_for feed row of (arguments, reason) \<Rightarrow>
        if reason \<noteq> [] then (Refused (RefusedArguments reason), simulated)
        else (case claim_for (row_key row) claims of
                Some c \<Rightarrow>
                  if cl_queued_at c \<noteq> None \<or> \<not> lapsed R c then (Skipped (say_claimed (Some c)), simulated)
                  else if fr_correlation row \<in> set simulated then (Skipped SkippedReplayed, simulated)
                  else (Went, fr_correlation row # simulated)
              | None \<Rightarrow>
                  if fr_correlation row \<in> set simulated then (Skipped SkippedReplayed, simulated)
                  else (Went, fr_correlation row # simulated)))"

section \<open>The walk\<close>

text \<open>\<open>handle\<close>'s loops; what a row comes to is an argument, with the state it leaves.\<close>

record tally =
  ta_replayed :: nat
  ta_refused :: "reason list"
  ta_skipped :: "reason list"

definition spent :: "nat option \<Rightarrow> tally \<Rightarrow> bool" where
  "spent limit t = (case limit of None \<Rightarrow> False | Some n \<Rightarrow> n \<le> ta_replayed t)"

fun walk_window :: "nat option \<Rightarrow> (nat \<Rightarrow> reason option) \<Rightarrow> (feed_row \<Rightarrow> 'w \<Rightarrow> verdict \<times> 'w) \<Rightarrow> feed_row list \<Rightarrow> tally \<Rightarrow> 'w \<Rightarrow> tally \<times> 'w" where
  "walk_window limit done_for replay [] t w = (t, w)"
| "walk_window limit done_for replay (r # rs) t w =
     (if spent limit t then (t, w)
      else case (case done_for (fr_correlation r) of Some x \<Rightarrow> Some x | None \<Rightarrow> deliberate r) of
             Some nothing \<Rightarrow> walk_window limit done_for replay rs (t\<lparr> ta_skipped := ta_skipped t @ [nothing] \<rparr>) w
           | None \<Rightarrow>
               (case replay r w of
                  (Skipped x, w1) \<Rightarrow> walk_window limit done_for replay rs (t\<lparr> ta_skipped := ta_skipped t @ [x] \<rparr>) w1
                | (Refused x, w1) \<Rightarrow> walk_window limit done_for replay rs (t\<lparr> ta_refused := ta_refused t @ [x] \<rparr>) w1
                | (Went, w1) \<Rightarrow> walk_window limit done_for replay rs (t\<lparr> ta_replayed := Suc (ta_replayed t) \<rparr>) w1))"

function walk :: "nat option \<Rightarrow> feed_row list \<Rightarrow> (feed_row \<Rightarrow> 'w \<Rightarrow> verdict \<times> 'w) \<Rightarrow> feed_row list \<Rightarrow> tally \<Rightarrow> 'w \<Rightarrow> tally \<times> 'w" where
  "walk limit feed replay rows t w =
     (if spent limit t \<or> rows = [] then (t, w)
      else (case walk_window limit (nothing_to_do_for feed (take WINDOW rows)) replay (take WINDOW rows) t w of
              (t1, w1) \<Rightarrow> walk limit feed replay (drop WINDOW rows) t1 w1))"
  by pat_completeness auto
termination
  by (relation "measure (\<lambda>(limit, feed, replay, rows, t, w). length rows)") (auto simp: WINDOW_def)

declare walk.simps [simp del]

definition replay_command ::
  "'s penv \<Rightarrow> string \<Rightarrow> bool \<Rightarrow> bool \<Rightarrow> (string \<Rightarrow> rat option) \<Rightarrow> replay_options \<Rightarrow> rat \<Rightarrow> inputs \<Rightarrow> (nat \<Rightarrow> 's replays \<Rightarrow> 's replays)
    \<Rightarrow> feed_row list \<Rightarrow> 's replays \<Rightarrow> (command_error + tally) \<times> 's replays" where
  "replay_command E worker event_log wants_replayed parse P started inp others feed w =
     (case nothing_to_read event_log (pe_enabled E) wants_replayed (ro_dry_run P) of
        Some e \<Rightarrow> (Inl e, w)
      | None \<Rightarrow>
          (case bound (ro_limit P) of
             Inl e \<Rightarrow> (Inl e, w)
           | Inr limit \<Rightarrow>
               (case selected parse P started feed of
                  Inl e \<Rightarrow> (Inl e, w)
                | Inr rows \<Rightarrow>
                    (let R = \<lparr> ru_worker = worker, ru_started = started, ru_lease = of_int (max 0 (ro_claim_lease P)) \<rparr>;
                         none = \<lparr> ta_replayed = 0, ta_refused = [], ta_skipped = [] \<rparr>
                     in if ro_dry_run P
                        then (Inr (fst (walk limit feed (would_replay R (rp_claims w) feed) rows none [])), w)
                        else (case walk limit feed (\<lambda>r. replay_row E R inp others 0 (replay_starts feed r)) rows none w of
                                (t, w1) \<Rightarrow> (Inr t, w1))))))"

section \<open>Several runs at once\<close>

text \<open>
  Any number of runs, each with one row in hand; a run that settled a row may take up any other.
  The client's other work changes its state between statements.
\<close>

inductive replays_run :: "'s penv \<Rightarrow> (nat \<Rightarrow> run) \<Rightarrow> phase list \<Rightarrow> 's replays \<Rightarrow> bool" for E conf where
  begins: "replays_run E conf (replicate n (Settled row v))
     \<lparr> rp_claims = [], rp_next = 0, rp_client = st, rp_sends = [], rp_taken = [], rp_joined = [], rp_unrecorded = 0, rp_taken_over = 0 \<rparr>"
| takes_up: "replays_run E conf phs w \<Longrightarrow> i < length phs \<Longrightarrow> phs ! i = Settled old v \<Longrightarrow>
     replays_run E conf (phs[i := replay_starts feed row]) w"
| steps: "replays_run E conf phs w \<Longrightarrow> i < length phs \<Longrightarrow> replay_step E (conf i) now minted recorded (phs ! i) w = (ph, w') \<Longrightarrow>
     replays_run E conf (phs[i := ph]) w'"
| client: "replays_run E conf phs w \<Longrightarrow> replays_run E conf phs (w\<lparr> rp_client := st \<rparr>)"

section \<open>Properties\<close>

text \<open>A failure a run holds the claim of and has not queued yet.\<close>

fun about_to_send :: "phase \<Rightarrow> (int \<times> nat) multiset" where
  "about_to_send (Sending row arguments pk) = {#row_key row#}"
| "about_to_send _ = {#}"

definition in_hand :: "phase list \<Rightarrow> (int \<times> nat) multiset" where
  "in_hand phs = \<Sum>\<^sub># (image_mset about_to_send (mset phs))"

definition balance :: "phase list \<Rightarrow> 's replays \<Rightarrow> bool" where
  "balance phs w \<longleftrightarrow>
     mset (rp_sends w) + in_hand phs = mset (rp_taken w) + mset (map cl_key (rp_claims w)) \<and>
     distinct (map cl_key (rp_claims w))"

lemma in_hand_update:
  assumes "i < length phs"
  shows "in_hand (phs[i := ph]) + about_to_send (phs ! i) = in_hand phs + about_to_send ph"
proof -
  have "phs ! i \<in># mset phs" using assms by simp
  then have "\<Sum>\<^sub># (image_mset about_to_send (mset phs - {#phs ! i#})) + about_to_send (phs ! i) = in_hand phs"
    unfolding in_hand_def by (metis add.commute image_mset_add_mset insert_DiffM sum_mset.insert)
  then show ?thesis by (simp add: in_hand_def mset_update [OF assms] add.commute add.left_commute)
qed

lemma distinct_count_list: "distinct xs \<Longrightarrow> count_list xs x \<le> 1"
  by (induction xs) (auto simp: count_list_0_iff)

lemma claim_for_None: "claim_for key claims = None \<longleftrightarrow> key \<notin> set (map cl_key claims)"
  by (auto simp: claim_for_def find_None_iff)

lemma step_balance:
  assumes "balance phs w" "i < length phs" "replay_step E R now minted recorded (phs ! i) w = (ph, w')"
  shows "balance (phs[i := ph]) w'"
proof -
  note moved = in_hand_update [OF assms(2), of ph]
  show ?thesis
  proof (cases "phs ! i")
    case (Looking row arguments n)
    with assms(3) have "w' = w" "about_to_send ph = {#}" by (auto simp: replay_step_def split: nat.splits option.splits if_splits)
    with assms(1) moved Looking show ?thesis by (simp add: balance_def)
  next
    case (TakingOver row arguments n pk)
    show ?thesis
    proof (cases "filter (deletable pk) (rp_claims w) = []")
      case True
      with assms(3) TakingOver have "w' = w" "about_to_send ph = {#}" by (auto simp: replay_step_def Let_def split: option.splits)
      with assms(1) moved TakingOver show ?thesis by (simp add: balance_def)
    next
      case False
      let ?gone = "filter (deletable pk) (rp_claims w)" and ?left = "filter (\<lambda>c. \<not> deletable pk c) (rp_claims w)"
      have w': "rp_claims w' = ?left" "rp_taken w' = rp_taken w @ map cl_key ?gone" "rp_sends w' = rp_sends w" "about_to_send ph = {#}"
        using assms(3) TakingOver False by (auto simp: replay_step_def Let_def)
      have "mset (map cl_key (rp_claims w)) = mset (map cl_key ?gone) + mset (map cl_key ?left)"
        by (metis image_mset_union mset_filter mset_map multiset_partition)
      with w' assms(1) moved TakingOver show ?thesis by (simp add: balance_def distinct_map_filter add.assoc)
    qed
  next
    case (Filing row arguments n)
    show ?thesis
    proof (cases "file_claim R now (row_key row) (rp_next w) (rp_claims w)")
      case None
      with assms(3) Filing have "w' = w" "about_to_send ph = {#}" by (auto simp: replay_step_def)
      with assms(1) moved Filing show ?thesis by (simp add: balance_def)
    next
      case (Some claims)
      then obtain c where "claim_for (row_key row) (rp_claims w) = None" "claims = rp_claims w @ [c]" "cl_key c = row_key row"
        by (auto simp: file_claim_def split: if_splits)
      with assms Some Filing moved show ?thesis by (auto simp: balance_def replay_step_def claim_for_None)
    qed
  next
    case (Sending row arguments pk)
    with assms(3) have step: "about_to_send ph = {#}" "rp_sends w' = rp_sends w @ [row_key row]" "rp_taken w' = rp_taken w" "rp_claims w' = rp_claims w"
      by (auto simp: replay_step_def split: sum.splits prod.splits)
    have "mset (rp_sends w') + in_hand (phs[i := ph]) = mset (rp_sends w) + (in_hand (phs[i := ph]) + {#row_key row#})"
      by (simp add: step(2))
    also have "\<dots> = mset (rp_sends w) + in_hand phs" using moved Sending step(1) by simp
    finally show ?thesis using assms(1) unfolding balance_def step(3,4) by simp
  next
    case (Marking row pk j)
    have "map cl_key (mark_queued pk now j (rp_claims w)) = map cl_key (rp_claims w)" by (simp add: mark_queued_def)
    moreover from this have "image_mset cl_key (mset (mark_queued pk now j (rp_claims w))) = image_mset cl_key (mset (rp_claims w))"
      by (metis mset_map)
    ultimately show ?thesis using Marking assms moved by (auto simp: balance_def replay_step_def)
  qed (use assms moved in \<open>auto simp: balance_def replay_step_def\<close>)
qed

lemma replay_starts_sends [simp]: "about_to_send (replay_starts feed row) = {#}"
  by (simp add: replay_starts_def split: prod.splits)

lemma run_balance: "replays_run E conf phs w \<Longrightarrow> balance phs w"
proof (induction rule: replays_run.induct)
  case (begins n row v st)
  have "in_hand (replicate n (Settled row v)) = {#}" by (induction n) (simp_all add: in_hand_def)
  then show ?case by (simp add: balance_def)
next
  case (takes_up phs w i old v feed row)
  then show ?case using in_hand_update [of i phs "replay_starts feed row"] by (simp add: balance_def)
next
  case (steps phs w i now minted recorded ph w')
  then show ?case by (intro step_balance)
next
  case (client phs w st)
  then show ?case by (simp add: balance_def)
qed

text \<open>Nothing is taken over by runs told to believe every claim.\<close>

fun taking :: "phase \<Rightarrow> bool" where
  "taking (TakingOver row arguments n pk) = True"
| "taking _ = False"

definition believing :: "phase list \<Rightarrow> 's replays \<Rightarrow> bool" where
  "believing phs w \<longleftrightarrow> rp_taken w = [] \<and> (\<forall>ph \<in> set phs. \<not> taking ph)"

lemma step_believing:
  assumes "believing phs w" "i < length phs" "replay_step E R now minted recorded (phs ! i) w = (ph, w')" "ru_lease R = 0"
  shows "believing (phs[i := ph]) w'"
proof -
  obtain q where q: "q = phs ! i" by simp
  then have "q \<in> set phs" using assms(2) by simp
  then have here: "\<not> taking q" "rp_taken w = []" "\<And>c. \<not> lapsed R c"
    using assms(1,4) by (auto simp: believing_def lapsed_def)
  note run = assms(3) [folded q]
  have "rp_taken w' = [] \<and> \<not> taking ph"
  proof (cases q)
    case (Looking row arguments n)
    with run here(2,3) show ?thesis by (auto simp: replay_step_def split: nat.splits option.splits)
  next
    case (Filing row arguments n)
    with run here(2) show ?thesis by (auto simp: replay_step_def split: option.splits)
  next
    case (Sending row arguments n)
    with run here(2) show ?thesis by (auto simp: replay_step_def split: prod.splits sum.splits)
  next
    case (TakingOver row arguments n pk)
    with here(1) show ?thesis by simp
  qed (use run here(2) in \<open>auto simp: replay_step_def\<close>)
  moreover have "set (phs[i := ph]) \<subseteq> insert ph (set phs)" by (rule set_update_subset_insert)
  ultimately show ?thesis using assms(1) by (auto simp: believing_def)
qed

lemma run_believing: "replays_run E conf phs w \<Longrightarrow> \<forall>i. ru_lease (conf i) = 0 \<Longrightarrow> believing phs w"
proof (induction rule: replays_run.induct)
  case (takes_up phs w i old v feed row)
  have "set (phs[i := replay_starts feed row]) \<subseteq> insert (replay_starts feed row) (set phs)" by (rule set_update_subset_insert)
  moreover have "\<not> taking (replay_starts feed row)" by (simp add: replay_starts_def split: prod.splits)
  ultimately show ?case using takes_up by (auto simp: believing_def)
next
  case (steps phs w i now minted recorded ph w')
  then show ?case by (intro step_believing [OF _ steps.hyps(2,3)]) auto
qed (auto simp: believing_def)

text \<open>
  C2. Any number of runs, interleaved statement by statement: a failure is put back on its queue at
  most once more than its claim was taken over, and exactly one claim can stand for it; so at most
  once where no run takes over a claim that never answered.
\<close>

theorem a_failure_gets_one_replacement:
  assumes "replays_run E conf phs w"
  shows "count_list (rp_sends w) key \<le> Suc (count_list (rp_taken w) key) \<and> distinct (map cl_key (rp_claims w)) \<and>
         ((\<forall>i. ru_lease (conf i) = 0) \<longrightarrow> count_list (rp_sends w) key \<le> 1)"
proof -
  have one: "count_list (map cl_key (rp_claims w)) key \<le> 1" "distinct (map cl_key (rp_claims w))"
    using run_balance [OF assms] distinct_count_list by (auto simp: balance_def)
  have "count (mset (rp_sends w) + in_hand phs) key = count (mset (rp_taken w) + mset (map cl_key (rp_claims w))) key"
    using run_balance [OF assms] by (simp add: balance_def)
  with one(1) have most: "count_list (rp_sends w) key \<le> Suc (count_list (rp_taken w) key)" by (simp add: count_mset del: mset_map)
  moreover have "(\<forall>i. ru_lease (conf i) = 0) \<longrightarrow> count_list (rp_sends w) key \<le> 1"
    using run_believing [OF assms] most by (auto simp: believing_def)
  ultimately show ?thesis using one(2) by blast
qed

text \<open>The walk.\<close>

definition examined :: "tally \<Rightarrow> nat" where
  "examined t = ta_replayed t + length (ta_refused t) + length (ta_skipped t)"

lemma walk_window_counts:
  assumes "walk_window limit done_for replay rs t w = (t', w')" "\<And>n. limit = Some n \<Longrightarrow> ta_replayed t \<le> n"
  shows "(\<forall>n. limit = Some n \<longrightarrow> ta_replayed t' \<le> n) \<and> (\<not> spent limit t' \<longrightarrow> examined t' = examined t + length rs) \<and>
         (spent limit t \<longrightarrow> t' = t)"
  using assms
proof (induction rs arbitrary: t w)
  case (Cons r rs)
  show ?case
  proof (cases "spent limit t")
    case False
    then have room: "\<And>n. limit = Some n \<Longrightarrow> Suc (ta_replayed t) \<le> n" by (auto simp: spent_def split: option.splits)
    show ?thesis
    proof (cases "case done_for (fr_correlation r) of Some x \<Rightarrow> Some x | None \<Rightarrow> deliberate r")
      case (Some nothing)
      with Cons.prems Cons.IH [of "t\<lparr> ta_skipped := ta_skipped t @ [nothing] \<rparr>" w] False show ?thesis
        by (simp add: examined_def)
    next
      case None
      obtain v w1 where run: "replay r w = (v, w1)" by fastforce
      show ?thesis
      proof (cases v)
        case Went
        have "\<And>n. limit = Some n \<Longrightarrow> ta_replayed (t\<lparr> ta_replayed := Suc (ta_replayed t) \<rparr>) \<le> n" using room by simp
        with Cons.IH [of "t\<lparr> ta_replayed := Suc (ta_replayed t) \<rparr>" w1] Cons.prems(1) False None run Went show ?thesis
          by (simp add: examined_def)
      next
        case (Refused x)
        with Cons.IH [of "t\<lparr> ta_refused := ta_refused t @ [x] \<rparr>" w1] Cons.prems False None run show ?thesis
          by (simp add: examined_def)
      next
        case (Skipped x)
        with Cons.IH [of "t\<lparr> ta_skipped := ta_skipped t @ [x] \<rparr>" w1] Cons.prems False None run show ?thesis
          by (simp add: examined_def)
      qed
    qed
  qed (use Cons.prems in auto)
qed simp

lemma walk_counts:
  assumes "walk limit feed replay rows t w = (t', w')" "\<And>n. limit = Some n \<Longrightarrow> ta_replayed t \<le> n"
  shows "(\<forall>n. limit = Some n \<longrightarrow> ta_replayed t' \<le> n) \<and> (\<not> spent limit t' \<longrightarrow> examined t' = examined t + length rows)"
  using assms
proof (induction limit feed replay rows t w rule: walk.induct)
  case (1 limit feed replay rows t w)
  show ?case
  proof (cases "spent limit t \<or> rows = []")
    case True
    with "1.prems" show ?thesis by (auto simp: walk.simps)
  next
    case False
    obtain t1 w1 where window: "walk_window limit (nothing_to_do_for feed (take WINDOW rows)) replay (take WINDOW rows) t w = (t1, w1)"
      by fastforce
    note counts = walk_window_counts [OF window "1.prems"(2)]
    have rest: "walk limit feed replay (drop WINDOW rows) t1 w1 = (t', w')"
      using "1.prems"(1) False window by (simp add: walk.simps [of limit feed replay rows])
    note IH = "1.IH" [OF False window [symmetric] rest]
    have "spent limit t1 \<Longrightarrow> t' = t1" using rest by (simp add: walk.simps)
    moreover have "length (take WINDOW rows) + length (drop WINDOW rows) = length rows" by simp
    ultimately show ?thesis using IH counts by auto
  qed
qed

text \<open>
  C39. The bound of a run is on the messages that went, not on the rows it looked at: it is never
  passed, and a run that stops short of it has looked at every row of the selection, however many
  an earlier run had dealt with.
\<close>

theorem the_bound_is_not_a_wall:
  assumes "walk limit feed replay rows \<lparr> ta_replayed = 0, ta_refused = [], ta_skipped = [] \<rparr> w = (t, w')"
  shows "(\<forall>n. limit = Some n \<longrightarrow> ta_replayed t \<le> n) \<and> (\<not> spent limit t \<longrightarrow> examined t = length rows)"
  using walk_counts [OF assms] by (simp add: examined_def)

definition failed_row :: "nat \<Rightarrow> string \<Rightarrow> feed_row" where
  "failed_row i code = \<lparr> fr_id = i, fr_kind = ''outbound.failed'', fr_correlation = i, fr_bot = Some 9, fr_function = ''send_message'',
     fr_chat = Some 5, fr_error_code = code, fr_created = of_nat i, fr_detail = None \<rparr>"

theorem the_bound_is_not_a_wall_witness:
  "examined (fst (walk (Some 2) [] (\<lambda>r w. (Went, w)) [failed_row 1 ''TooLate'', failed_row 2 ''BadRequest''] \<lparr> ta_replayed = 0, ta_refused = [], ta_skipped = [] \<rparr> ())) = 2"
proof -
  let ?run = "walk (Some 2) [] (\<lambda>r w. (Went, w)) [failed_row 1 ''TooLate'', failed_row 2 ''BadRequest''] \<lparr> ta_replayed = 0, ta_refused = [], ta_skipped = [] \<rparr> ()"
  have "\<not> spent (Some 2) (fst ?run)" by code_simp
  with the_bound_is_not_a_wall [OF prod.collapse [of ?run, symmetric]] show ?thesis by (metis length_0_conv length_Cons numeral_2_eq_2)
qed

text \<open>Which bot a replay is sent through.\<close>

lemma publish_one_events:
  assumes "qw_bot_id q = pe_bot E" "publish_one E now f q st = (r, st')"
  obtains es where "ps_events st' = ps_events st @ es" "\<forall>e \<in> set es. ev_bot_id e = pe_bot E"
  using assms
  by (fastforce simp: publish_one_def publishing_def dropped_def queued_event_def blank_event_def split: prod.splits option.splits if_splits)

lemma enqueue_names_its_bot:
  "\<exists>es. ps_events (snd (enqueue E current minted f given None kwargs st)) = ps_events st @ es \<and> (\<forall>e \<in> set es. ev_bot_id e = pe_bot E)"
proof -
  consider e where "accept_send E current minted f given = Inl e" | i where "accept_send E current minted f given = Inr (i, False)"
    | i where "accept_send E current minted f given = Inr (i, True)"
    by (metis (full_types) old.sum.exhaust surj_pair)
  then show ?thesis
  proof cases
    case (3 i)
    show ?thesis
    proof (cases "pe_broker E")
      case None
      obtain r events where s: "serialise (pe_dumps E) (pe_described E) (pe_clock E 0) f [(i, kwargs)] None (pe_bot E) = (r, events)" by fastforce
      show ?thesis
      proof (cases r)
        case (Inl e)
        with s have "\<forall>e \<in> set events. ev_bot_id e = pe_bot E"
          by (auto simp: serialise_def Let_def dropped_def blank_event_def split: sum.splits)
        with 3 None s Inl show ?thesis by (simp add: enqueue_def)
      next
        case (Inr q)
        with s have q: "qw_bot_id q = pe_bot E" by (auto simp: serialise_def Let_def split: sum.splits)
        obtain b st1 where d: "deferred E f [q] st = (b, st1)" by fastforce
        then have st1: "ps_events st1 = ps_events st" by (auto simp: deferred_def split: prod.splits)
        obtain res st2 where p: "publish_one E (pe_clock E 0) f q st1 = (res, st2)" by fastforce
        obtain es where "ps_events st2 = ps_events st1 @ es" "\<forall>e \<in> set es. ev_bot_id e = pe_bot E"
          by (rule publish_one_events [OF q p])
        with 3 None s Inr d p st1 show ?thesis
          by (cases b; cases res) (simp_all add: enqueue_def)
      qed
    qed (use 3 in \<open>simp add: enqueue_def\<close>)
  qed (simp_all add: enqueue_def)
qed


definition replay_world :: "bytes list replays" where
  "replay_world = \<lparr> rp_claims = [], rp_next = 0, rp_client = open_block, rp_sends = [], rp_taken = [], rp_joined = [], rp_unrecorded = 0, rp_taken_over = 0 \<rparr>"

definition default_bot_env :: "bytes list penv" where
  "default_bot_env = list_env\<lparr> pe_transactional := False, pe_log := True, pe_bot := Some 7 \<rparr>"

definition some_run :: run where
  "some_run = \<lparr> ru_worker = ''host'', ru_started = 100, ru_lease = 0 \<rparr>"


text \<open>Two runs reach one failure: the second finds the claim of the first.\<close>

definition feed_of_two :: "feed_row list" where
  "feed_of_two = [(failed_row 1 [])\<lparr> fr_id := 0, fr_kind := ''outbound.queued'', fr_detail := Some [(''text'', PStr ''hi'')] \<rparr>, failed_row 1 ''BadRequest'']"

definition sent_by_the_first :: "bytes list replays" where
  "sent_by_the_first = snd (replay_step default_bot_env some_run 100 6 True (Sending (failed_row 1 ''BadRequest'') [(''text'', PStr ''hi'')] 0)
     (snd (replay_step default_bot_env some_run 100 6 True (Filing (failed_row 1 ''BadRequest'') [(''text'', PStr ''hi'')] 2) replay_world)))"

lemma sent_by_the_first_run: "\<exists>phs. replays_run default_bot_env (\<lambda>_. some_run) phs sent_by_the_first"
proof -
  let ?row = "failed_row 1 ''BadRequest''" and ?args = "[(''text'', PStr ''hi'')]"
  let ?step = "replay_step default_bot_env some_run 100 6 True"
  have idle: "replays_run default_bot_env (\<lambda>_. some_run) [Settled ?row Went] replay_world"
    using replays_run.begins [of default_bot_env "\<lambda>_. some_run" 1 ?row Went open_block] by (simp add: replay_world_def)
  have "replay_starts feed_of_two ?row = Looking ?row ?args 3" by code_simp
  with replays_run.takes_up [OF idle, of 0 ?row Went feed_of_two ?row]
  have looking: "replays_run default_bot_env (\<lambda>_. some_run) [Looking ?row ?args 3] replay_world" by simp
  have "?step (Looking ?row ?args 3) replay_world = (Filing ?row ?args 2, replay_world)" by code_simp
  with replays_run.steps [OF looking, of 0 100 6 True]
  have filing: "replays_run default_bot_env (\<lambda>_. some_run) [Filing ?row ?args 2] replay_world" by simp
  have "fst (?step (Filing ?row ?args 2) replay_world) = Sending ?row ?args 0" by code_simp
  then have "?step (Filing ?row ?args 2) replay_world = (Sending ?row ?args 0, snd (?step (Filing ?row ?args 2) replay_world))"
    by (metis prod.collapse)
  with replays_run.steps [OF filing, of 0 100 6 True]
  have sending: "replays_run default_bot_env (\<lambda>_. some_run) [Sending ?row ?args 0] (snd (?step (Filing ?row ?args 2) replay_world))" by simp
  from replays_run.steps [OF sending, of 0 100 6 True, OF _ prod.collapse [symmetric]] show ?thesis
    unfolding sent_by_the_first_def by auto
qed

theorem a_failure_gets_one_replacement_witness:
  "count_list (rp_sends sent_by_the_first) (9, 1) = 1"
proof -
  obtain phs where run: "replays_run default_bot_env (\<lambda>_. some_run) phs sent_by_the_first" using sent_by_the_first_run by blast
  have "rp_sends sent_by_the_first = [(9, 1)]"
    by (simp add: sent_by_the_first_def replay_step_def replay_world_def row_key_def claimed_bot_def failed_row_def file_claim_def claim_for_def
        split: prod.splits sum.splits)
  moreover have "count_list (rp_sends sent_by_the_first) (9, 1) \<le> 1"
    using a_failure_gets_one_replacement [OF run] by (simp add: some_run_def)
  ultimately show ?thesis by simp
qed

end
