(* ===== verification/Spec2Isabelle.thy ===== *)
theory Spec2Isabelle
  imports KafkaSettling DeliveryRuns Throttling MemoryBroker RedisListBroker Supervisor EventRecorder Sending Intents Wire StreamRuns RabbitBroker Replaying
begin

text \<open>
  A verification development of django-aiogram, the package that sends Telegram messages from
  Django through a queue.  Paths below are relative to \<open>src/src/django_aiogram/\<close>.

  \<^bold>\<open>The program.\<close>  A producer calls a method of a bot client.  The client either makes the call
  itself (\<open>send_raw\<close>, with retries) or queues it: the arguments are checked and serialised
  (\<open>wire/\<close>), the message is published on a transport (\<open>broker/\<close>) at once, at the commit of the
  caller's transaction, or by the mover when a scheduled moment has come.  A consumer process
  (\<open>consumer/delivery.py\<close>) takes messages from the transport within its budgets, hands each to the
  client and settles it when the send has ended.  Every send passes a rate limiter.  What happens
  on the way is recorded as rows of the event log by a recorder thread (\<open>eventlog/\<close>), from which
  failed sends can be replayed.  A process serves the bots its providers list; a supervisor starts
  and stops them, leases keep two processes off one bot, and operators ask for changes through
  intents.  Updates of bots in webhook mode arrive over HTTP.  Settings are resolved per process
  and per bot.

  \<^bold>\<open>Which theory models what.\<close>  The order is that of the import graph.

  \<^item> \<open>Prelude\<close>, \<open>Texts\<close>: Python values, dictionaries as ordered association lists with the
    operations the code makes of them, letter case and decimal texts.
  \<^item> \<open>Envelope\<close> (\<open>wire/envelope.py\<close>): \<open>pack\<close>, \<open>unpack\<close> and the readers of each field; reading
    is total on everything a JSON reader can produce, apart from the timestamps of finding
    \<open>unpack_huge_timestamp_raises\<close>.
  \<^item> \<open>Json\<close>, \<open>Codecs\<close>, \<open>Serializers\<close> (\<open>wire/serializers.py\<close>, \<open>config/enums.py\<close>): the texts
    of the standard library, every codec of the tagging serializer, both of its writers, detection
    and the gate on pickle; the single walk writes what the two passes write.
  \<^item> \<open>Wire\<close> joins these: bytes written by a producer are read by the consumer as the call.
  \<^item> \<open>Redaction\<close>, \<open>Payloads\<close> (\<open>wire/payloads.py\<close>): what the event log keeps of a call, which
    credentials are removed, the cap on its size and when a row still is the call.
  \<^item> \<open>BrokerBase\<close> (\<open>broker/base.py\<close>): queue arguments, class options, deadlines.
  \<^item> \<open>BrokerContract\<close>: the contract of \<open>broker/base.py\<close> as a locale over a record of operations,
    and what follows from it for every transport.
  \<^item> \<open>MemoryBroker\<close> (\<open>testing/broker.py\<close>) and \<open>RedisListBroker\<close> (\<open>broker/redis_list/broker.py\<close>)
    are proved to answer that contract; reclaiming on the list transport ends and keeps the order.
  \<^item> \<open>RedisStreams\<close>, \<open>StreamRuns\<close> (\<open>broker/redis_streams/broker.py\<close>): the operations, and runs of
    one consumer among other clients: handed out once, nothing stranded, the scan ends.
  \<^item> \<open>RabbitBroker\<close> (\<open>broker/rabbitmq/\<close>): channels per thread, tags and queues; a delivery is
    settled on the channel that made it.
  \<^item> \<open>KafkaSettling\<close> (\<open>broker/kafka/broker.py\<close>): the books per partition; the committed position
    never passes a message that was not acknowledged.
  \<^item> \<open>Delivery\<close>, \<open>DeliveryBooks\<close>, \<open>DeliveryRuns\<close> (\<open>consumer/delivery.py\<close>,
    \<open>runtime/control.py\<close>): the consumer's operations, their accounting invariant, and runs with
    reports from other threads: exact books, budgets, one settlement per message.
  \<^item> \<open>Throttling\<close> (\<open>producer/throttling.py\<close>): token buckets, the maps of a bot, the registry.
  \<^item> \<open>Producing\<close>, \<open>Enqueueing\<close>, \<open>Sending\<close> (\<open>producer/queueing.py\<close>, \<open>producer/committing.py\<close>,
    \<open>producer/client.py\<close>, \<open>producer/outbound.py\<close>): one event per message, the routes of a send,
    fan-outs now or at the commit, retries, and the life of a send on the event loop up to the
    drain at shutdown.
  \<^item> \<open>Scheduling\<close> (\<open>producer/scheduling.py\<close>, \<open>management/commands/tgbot_dispatch_scheduled.py\<close>):
    the table of scheduled sends and its movers.
  \<^item> \<open>EventWriter\<close>, \<open>EventRecorder\<close> (\<open>eventlog/\<close>): rows, bulk writes that fall back to halves and
    single rows, the recorder's queue, its loss count and its shutdown.
  \<^item> \<open>Replaying\<close> (\<open>management/commands/tgbot_replay.py\<close>): selection, claims and the walk.
  \<^item> \<open>Settings\<close> (\<open>config/\<close>), \<open>Leases\<close>, \<open>Supervisor\<close>, \<open>Intents\<close> (\<open>runtime/\<close>) and
    \<open>Webhook\<close> (\<open>consumer/webhook.py\<close>, \<open>runtime/registry.py\<close>).

  \<^bold>\<open>How it is modelled.\<close>  An object with state is a record; a method is a function from the record to
  an outcome and the record after it.  An exception is a value of a sum type and every raise is a
  branch.  What a method reads from outside (a clock, a database's answer, a server's reply, what a
  handler does) is an argument: a function where the answer may depend on the request, a list where
  successive readings are consumed.  A server or driver that keeps a state of its own is a record
  of its commands over a type variable.  Threads are step relations whose grain is one section
  under a lock, one database statement or one callback of the event loop; between steps, the
  argument or further rules do whatever other threads and processes may do.

  \<^bold>\<open>Interfaces.\<close>  \<open>broker_contract\<close> is interpreted for the in-memory transport (\<open>mb\<close>) and for the
  Redis list transport over any server that answers \<open>redis_up\<close> (\<open>rl\<close>).  \<open>redis_server\<close>,
  \<open>stream_server\<close>, \<open>stream_pending\<close> and \<open>glob_matcher\<close> state documented behaviour of Redis; each is
  interpreted by a store written out in its theory, so that the laws are consistent and the
  properties that rest on them can be evaluated.

  \<^bold>\<open>Loops and bounds.\<close>  A loop over data is structural recursion.  A loop that waits (the gate of the
  consumer, the retries of a send, waiting for a lock) consumes a list of what it meets, and a
  result \<open>None\<close> says that the list ended first; a theorem that such a loop returns says which lists
  are long enough.  A loop over a server's replies is a \<open>partial_function\<close>, and its theorem gives
  the measure under which it ends.  Integers are unbounded as in Python; times and rates are rational
  numbers, so the rounding of floats is not represented.  Characters are code points below 256.

  \<^bold>\<open>Not modelled.\<close>  The admin pages, the forms and the migrations (declarations for Django); the
  command-line entry points other than the scheduled mover's and the replay's passes (argument
  parsing, signal handlers, printing); the system checks of \<open>config/checks/\<close> (messages about
  settings); the Prometheus exporter; logging, signals and the text of messages; the encryption of
  tokens (a library's); the test helpers other than the in-memory transport; the asynchronous twins,
  which make the same calls as the methods modelled; heartbeat files.  Timing inside a lock, memory
  exhaustion and the interpreter's recursion limit are not represented except where a branch of the
  code reads them.
\<close>

end
